(* ===== verification/Mdb_Prelude.thy ===== *)
theory Mdb_Prelude
  imports Main "HOL-Library.Word" "HOL-Library.Monad_Syntax"
begin

text \<open>
  What the components share: the C integer types as words, array accesses that fail outside
  the bounds, the exceptions the program throws, and facts on masks, shifts and single bits.

  Conventions of the development. A C++ function whose behaviour is undefined on some input
  (an index outside an array, \<^verbatim>\<open>__builtin_clzll(0)\<close>, a store outside a mapping) is
  modelled by a function into \<open>option\<close>, with \<open>None\<close> for undefined behaviour; so a theorem
  that a call returns \<open>Some\<close> states memory safety. A function that may throw returns
  \<open>error + 'a\<close>, with \<open>Inl\<close> for the exception, next to the state it leaves behind.
  Trailing underscores of member names are dropped.
\<close>

unbundle bit_operations_syntax

type_synonym u8 = "8 word"
type_synonym u16 = "16 word"
type_synonym u32 = "32 word"
type_synonym u64 = "64 word"

text \<open>One constructor per \<^verbatim>\<open>throw\<close> of the data structures, and one for the failed system calls.\<close>

datatype error =
    Max_orders_zero          \<comment> \<open>\<^verbatim>\<open>LimitOrderBook()\<close>: max orders is not positive\<close>
  | Mmap_failed              \<comment> \<open>a constructor could not map its memory\<close>
  | Map_full                 \<comment> \<open>\<^verbatim>\<open>StaticOrderMap::operator[]\<close>\<close>
  | Erase_foreign            \<comment> \<open>\<^verbatim>\<open>StaticOrderMap::erase(Bucket*)\<close>\<close>
  | Not_enough_shares        \<comment> \<open>\<^verbatim>\<open>LimitOrderBook::execute_order()\<close>\<close>
  | Runtime_error string     \<comment> \<open>a call of the operating system failed: the function and the call\<close>
  | Logic_error string       \<comment> \<open>an argument the function rejects\<close>

text \<open>Reading and writing a C array.\<close>

definition arr_get :: "'a list \<Rightarrow> nat \<Rightarrow> 'a option" where
  "arr_get xs i = (if i < length xs then Some (xs ! i) else None)"

definition arr_set :: "'a list \<Rightarrow> nat \<Rightarrow> 'a \<Rightarrow> 'a list option" where
  "arr_set xs i v = (if i < length xs then Some (xs[i := v]) else None)"

text \<open>Rounding a size up to whole pages: \<^verbatim>\<open>(n + PAGE_SIZE - 1) & ~(PAGE_SIZE - 1)\<close>.\<close>

definition page_align :: "u64 \<Rightarrow> u64 \<Rightarrow> u64" where
  "page_align page_size n = (n + page_size - 1) AND NOT (page_size - 1)"

lemma arr_get_in [simp]: "i < length xs \<Longrightarrow> arr_get xs i = Some (xs ! i)"
  by (simp add: arr_get_def)

lemma arr_set_in [simp]: "i < length xs \<Longrightarrow> arr_set xs i v = Some (xs[i := v])"
  by (simp add: arr_set_def)

lemma arr_get_eq_Some: "arr_get xs i = Some v \<longleftrightarrow> i < length xs \<and> v = xs ! i"
  by (auto simp: arr_get_def)

lemma arr_set_eq_Some: "arr_set xs i v = Some ys \<longleftrightarrow> i < length xs \<and> ys = xs[i := v]"
  by (auto simp: arr_set_def)

lemma unat_and_mask: "unat (x AND mask k) = unat x mod 2 ^ k"
  by (simp only: take_bit_eq_mask [symmetric] unsigned_take_bit_eq) (simp add: take_bit_eq_mod)

lemma unat_and_63: "unat (x AND 63 :: u64) = unat x mod 64"
proof -
  have "(63 :: u64) = mask 6" by (simp add: mask_eq_exp_minus_1)
  then show ?thesis by (simp only: unat_and_mask) simp
qed

lemma unat_shiftr6: "unat (drop_bit 6 x :: u64) = unat x div 64"
  by (simp only: unat_drop_bit_eq) (simp add: drop_bit_eq_div)

lemma unat_63_minus: "unat (63 - (x AND 63) :: u64) = 63 - unat x mod 64"
proof -
  have "unat (x AND 63 :: u64) \<le> 63" by (simp add: unat_and_63)
  then have "x AND 63 \<le> (63 :: u64)" by (simp add: word_le_nat_alt)
  then show ?thesis by (simp add: unat_sub unat_and_63)
qed

lemma bit_set_iff: "i < 64 \<Longrightarrow> k < 64 \<Longrightarrow> bit ((w :: u64) OR push_bit k 1) i \<longleftrightarrow> bit w i \<or> i = k"
  by (auto simp: bit_simps)

lemma bit_clear_iff: "i < 64 \<Longrightarrow> k < 64 \<Longrightarrow> bit ((w :: u64) AND NOT (push_bit k 1)) i \<longleftrightarrow> bit w i \<and> i \<noteq> k"
  by (auto simp: bit_simps)

lemma page_align_ge:
  assumes "k < 64" "unat n + 2 ^ k \<le> 2 ^ 64"
  shows "unat n \<le> unat (page_align (2 ^ k) n)"
proof -
  let ?x = "n + 2 ^ k - 1 :: u64"
  have pos: "(1::nat) \<le> 2 ^ k" by simp
  have x: "unat ?x = unat n + 2 ^ k - 1"
  proof -
    have "?x = of_nat (unat n + 2 ^ k - 1)"
      using pos by (subst of_nat_diff) (simp_all add: trans_le_add2)
    moreover have "unat n + 2 ^ k - 1 < 2 ^ 64" using assms(2) pos by linarith
    ultimately show ?thesis by (simp add: unat_of_nat take_bit_nat_eq_self)
  qed
  have "page_align (2 ^ k) n = ?x AND NOT (mask k)" by (simp add: page_align_def mask_eq_exp_minus_1)
  also have "\<dots> = ?x - (?x AND mask k)"
    by (subst disjunctive_diff) (auto simp: bit_and_iff intro!: bit_word_eqI simp: bit_simps)
  finally have "unat (page_align (2 ^ k) n) = unat ?x - unat ?x mod 2 ^ k"
    by (simp add: unat_sub word_and_le2 unat_and_mask)
  moreover have "unat ?x mod 2 ^ k \<le> 2 ^ k - 1" using pos by (metis less_Suc_eq_le mod_less_divisor Suc_pred' zero_less_numeral zero_less_power)
  ultimately show ?thesis using x pos by linarith
qed

text \<open>Ring positions: indices less than \<open>n\<close> apart fall on different positions.\<close>

lemma mod_window_eq:
  assumes "a \<le> b" "b < a + n"
  shows "a mod n = b mod n \<longleftrightarrow> a = (b :: nat)"
proof
  assume "a mod n = b mod n"
  then have "n dvd b - a" using assms(1) by (metis mod_eq_dvd_iff_nat)
  moreover have "b - a < n" using assms by linarith
  ultimately show "a = b" using assms(1) by (metis diff_is_0_eq dvd_imp_le le_antisym not_le zero_less_iff_neq_zero)
qed simp

lemma mod_offset_eq: "i < n \<Longrightarrow> j < n \<Longrightarrow> (a + i) mod n = (a + j) mod n \<longleftrightarrow> i = (j :: nat)"
  using mod_window_eq [of "a + i" "a + j" n] mod_window_eq [of "a + j" "a + i" n] by (cases "i \<le> j") auto

end
