(* ===== verification/Itch_Types.thy ===== *)
theory Itch_Types
  imports Mdb_Prelude
begin

text \<open>
  The normalised order messages of \<^verbatim>\<open>src/protocol/ItchOrderTypes.h\<close>, which the parser
  produces and the order book consumes. A tagged union (an \<open>OrderType\<close> beside a union of
  the three structs) is a datatype with one constructor per tag; \<^verbatim>\<open>char\<close> fields are bytes.
\<close>

record Header =
  hd_timestamp :: u64
  hd_order_reference_number :: u64
  hd_stock_locate :: u16
  hd_tracking_number :: u16

record NormalizedAddOrder =
  na_timestamp :: u64
  na_order_reference_number :: u64
  na_shares :: u32
  na_price :: u32
  na_stock_locate :: u16
  na_tracking_number :: u16
  na_stock :: "u8 list"
  na_indicator :: u8

record NormalizedOrderExecuted =
  ne_timestamp :: u64
  ne_order_reference_number :: u64
  ne_match_number :: u64
  ne_shares :: u32
  ne_stock_locate :: u16
  ne_tracking_number :: u16

record NormalizedCancelOrder =
  nc_timestamp :: u64
  nc_order_reference_number :: u64
  nc_shares :: u32
  nc_stock_locate :: u16
  nc_tracking_number :: u16

datatype NormalizedOrder =
    AddOrder NormalizedAddOrder
  | ExecuteOrder NormalizedOrderExecuted
  | CancelOrder NormalizedCancelOrder

end
