(* ===== verification/Hierarchical_Bitset.thy ===== *)
theory Hierarchical_Bitset
  imports Mdb_Prelude
begin

text \<open>
  The three-level bitset of \<^verbatim>\<open>src/utils/HierarchicalBitset.h\<close>: a bit per price level,
  a bit per non-empty word of the first level, a bit per non-empty word of the second. Tick
  \<open>t\<close> is the bit \<open>63 - t mod 64\<close> of word \<open>t div 64\<close>, so leading zeros find the
  smallest tick and trailing zeros the largest. The invariant says that each level summarises
  the one below; the operations are shown to implement a finite set with minimum and maximum.
\<close>

section \<open>The code\<close>

text \<open>The template parameter \<open>MAX_TICKS\<close> fixes the extents of the two arrays.\<close>

record bitset =
  first_level :: "u64 list"
  second_level :: "u64 list"
  third_level :: u64

definition L1_SIZE :: "nat \<Rightarrow> nat" where
  "L1_SIZE MAX_TICKS = (MAX_TICKS + 63) div 64"

definition L2_SIZE :: "nat \<Rightarrow> nat" where
  "L2_SIZE MAX_TICKS = (L1_SIZE MAX_TICKS + 63) div 64"

definition HierarchicalBitset :: "nat \<Rightarrow> bitset" where
  "HierarchicalBitset MAX_TICKS =
     \<lparr>first_level = replicate (L1_SIZE MAX_TICKS) 0,
      second_level = replicate (L2_SIZE MAX_TICKS) 0,
      third_level = 0\<rparr>"

text \<open>
  \<^verbatim>\<open>__builtin_clzll\<close> and \<^verbatim>\<open>__builtin_ctzll\<close>: the number of leading and of trailing
  zero bits, undefined for zero.
\<close>

definition clzll :: "u64 \<Rightarrow> u64 option" where
  "clzll w = (if w = 0 then None
     else Some (of_nat (length (takeWhile (\<lambda>i. \<not> bit w (63 - i)) [0..<64]))))"

definition ctzll :: "u64 \<Rightarrow> u64 option" where
  "ctzll w = (if w = 0 then None
     else Some (of_nat (length (takeWhile (\<lambda>i. \<not> bit w i) [0..<64]))))"

definition get_best_offer :: "bitset \<Rightarrow> u64 option" where
  "get_best_offer bs =
     (if third_level bs = 0 then Some (- 1)
      else do {
        second_level_idx \<leftarrow> clzll (third_level bs);
        w2 \<leftarrow> arr_get (second_level bs) (unat second_level_idx);
        first_level_idx \<leftarrow> clzll w2;
        w1 \<leftarrow> arr_get (first_level bs) (unat (first_level_idx + push_bit 6 second_level_idx));
        actual_idx \<leftarrow> clzll w1;
        Some (actual_idx + push_bit 6 first_level_idx + push_bit 12 second_level_idx)
      })"

definition get_best_bid :: "bitset \<Rightarrow> u64 option" where
  "get_best_bid bs =
     (if third_level bs = 0 then Some (- 1)
      else do {
        z3 \<leftarrow> ctzll (third_level bs);
        let second_level_idx = 63 - z3;
        w2 \<leftarrow> arr_get (second_level bs) (unat second_level_idx);
        z2 \<leftarrow> ctzll w2;
        let first_level_idx = 63 - z2;
        w1 \<leftarrow> arr_get (first_level bs) (unat (first_level_idx + push_bit 6 second_level_idx));
        z1 \<leftarrow> ctzll w1;
        let actual_idx = 63 - z1;
        Some (actual_idx + push_bit 6 first_level_idx + push_bit 12 second_level_idx)
      })"

definition set_price_level :: "bitset \<Rightarrow> u64 \<Rightarrow> bitset option" where
  "set_price_level bs tick_idx = do {
     let first_level_idx = drop_bit 6 tick_idx;
     w1 \<leftarrow> arr_get (first_level bs) (unat first_level_idx);
     let bs1 = bs\<lparr>first_level := (first_level bs)[unat first_level_idx :=
                   w1 OR push_bit (unat (63 - (tick_idx AND 63))) 1]\<rparr>;
     let second_level_idx = drop_bit 6 first_level_idx;
     w2 \<leftarrow> arr_get (second_level bs1) (unat second_level_idx);
     let bs2 = bs1\<lparr>second_level := (second_level bs1)[unat second_level_idx :=
                   w2 OR push_bit (unat (63 - (first_level_idx AND 63))) 1]\<rparr>;
     Some (bs2\<lparr>third_level := third_level bs2
                   OR push_bit (unat (63 - (second_level_idx AND 63))) 1\<rparr>)
   }"

definition clear_price_level :: "bitset \<Rightarrow> u64 \<Rightarrow> bitset option" where
  "clear_price_level bs tick_idx = do {
     let first_level_idx = drop_bit 6 tick_idx;
     w1 \<leftarrow> arr_get (first_level bs) (unat first_level_idx);
     let w1' = w1 AND NOT (push_bit (unat (63 - (tick_idx AND 63))) 1);
     let bs1 = bs\<lparr>first_level := (first_level bs)[unat first_level_idx := w1']\<rparr>;
     if w1' = 0 then do {
       let second_level_idx = drop_bit 6 first_level_idx;
       w2 \<leftarrow> arr_get (second_level bs1) (unat second_level_idx);
       let w2' = w2 AND NOT (push_bit (unat (63 - (first_level_idx AND 63))) 1);
       let bs2 = bs1\<lparr>second_level := (second_level bs1)[unat second_level_idx := w2']\<rparr>;
       if w2' = 0 then
         Some (bs2\<lparr>third_level := third_level bs2
                     AND NOT (push_bit (unat (63 - (second_level_idx AND 63))) 1)\<rparr>)
       else Some bs2
     } else Some bs1
   }"

text \<open>
  The differential test: random set and clear operations on the bitset, beside a
  \<^verbatim>\<open>std::set\<close> that receives the same operations.
\<close>

datatype level_op = Set_level nat | Clear_level nat

fun op_tick :: "level_op \<Rightarrow> nat" where
  "op_tick (Set_level t) = t"
| "op_tick (Clear_level t) = t"

fun run_levels ::
  "('s \<Rightarrow> u64 \<Rightarrow> 's option) \<Rightarrow> ('s \<Rightarrow> u64 \<Rightarrow> 's option) \<Rightarrow> level_op list \<Rightarrow> 's \<Rightarrow> 's option" where
  "run_levels set_l clear_l [] s = Some s"
| "run_levels set_l clear_l (Set_level t # ops) s =
     do { s' \<leftarrow> set_l s (of_nat t); run_levels set_l clear_l ops s' }"
| "run_levels set_l clear_l (Clear_level t # ops) s =
     do { s' \<leftarrow> clear_l s (of_nat t); run_levels set_l clear_l ops s' }"

fun ref_levels :: "level_op list \<Rightarrow> nat set \<Rightarrow> nat set" where
  "ref_levels [] st = st"
| "ref_levels (Set_level t # ops) st = ref_levels ops (insert t st)"
| "ref_levels (Clear_level t # ops) st = ref_levels ops (st - {t})"

subsection \<open>What the bitset represents\<close>

text \<open>
  Bit \<open>j\<close> of a word counted from the most significant one, the \<open>t\<close>-th bit of a whole
  level, and the set of ticks of the first level.
\<close>

definition tick_bit :: "u64 \<Rightarrow> nat \<Rightarrow> bool" where
  "tick_bit w j = bit w (63 - j)"

definition present :: "u64 list \<Rightarrow> nat \<Rightarrow> bool" where
  "present ws t \<longleftrightarrow> t < 64 * length ws \<and> tick_bit (ws ! (t div 64)) (t mod 64)"

definition levels :: "bitset \<Rightarrow> nat set" where
  "levels bs = {t. present (first_level bs) t}"

text \<open>A level summarises the one below: its bit \<open>k\<close> says that word \<open>k\<close> is not zero.\<close>

definition summary :: "u64 list \<Rightarrow> u64 list \<Rightarrow> bool" where
  "summary upper lower \<longleftrightarrow>
     (\<forall>k. present upper k \<longleftrightarrow> k < length lower \<and> lower ! k \<noteq> 0)"

definition bitset_inv :: "nat \<Rightarrow> bitset \<Rightarrow> bool" where
  "bitset_inv MAX_TICKS bs \<longleftrightarrow>
     MAX_TICKS \<le> 262144 \<and>
     length (first_level bs) = L1_SIZE MAX_TICKS \<and>
     length (second_level bs) = L2_SIZE MAX_TICKS \<and>
     summary (second_level bs) (first_level bs) \<and>
     summary [third_level bs] (second_level bs)"

subsection \<open>Words read from the most significant bit\<close>

lemma word_nonzero_tick: "(w :: u64) \<noteq> 0 \<longleftrightarrow> (\<exists>j<64. tick_bit w j)"
proof
  assume "w \<noteq> 0"
  then obtain i where i: "bit w i" by (auto simp: bit_eq_iff)
  then have "i < 64" using bit_imp_le_length [of w i] by simp
  then have "63 - i < 64" "tick_bit w (63 - i)" using i by (simp_all add: tick_bit_def)
  then show "\<exists>j<64. tick_bit w j" by blast
next
  assume "\<exists>j<64. tick_bit w j"
  then show "w \<noteq> 0" by (auto simp: tick_bit_def)
qed

lemma length_takeWhile_upt:
  assumes "\<exists>i<n. P i"
  shows "length (takeWhile (\<lambda>i. \<not> P i) [0..<n]) = (LEAST i. P i)"
proof -
  let ?m = "LEAST i. P i"
  from assms obtain i where i: "i < n" "P i" by blast
  have m: "P ?m" using i(2) by (rule LeastI)
  have "?m \<le> i" using i(2) by (rule Least_le)
  then have mn: "?m < n" using i(1) by simp
  have "[0..<n] = [0..<?m] @ [?m..<n]"
    using upt_add_eq_append [of 0 ?m "n - ?m"] mn by simp
  also have "\<dots> = [0..<?m] @ ?m # [Suc ?m..<n]" using mn by (simp add: upt_conv_Cons)
  finally have e: "[0..<n] = [0..<?m] @ ?m # [Suc ?m..<n]" .
  have "takeWhile (\<lambda>i. \<not> P i) [0..<n] = [0..<?m]"
    unfolding e using m by (subst takeWhile_append2) (auto dest: not_less_Least)
  then show ?thesis by simp
qed

lemma clzll_Some:
  assumes "w \<noteq> 0"
  obtains j where "clzll w = Some (of_nat j)" "j < 64" "tick_bit w j"
    "\<forall>i. tick_bit w i \<longrightarrow> j \<le> i"
proof -
  let ?j = "LEAST i. tick_bit w i"
  from assms obtain i where i: "i < 64" "tick_bit w i" by (auto simp: word_nonzero_tick)
  then have "length (takeWhile (\<lambda>i. \<not> tick_bit w i) [0..<64]) = ?j"
    by (intro length_takeWhile_upt) blast
  then have "clzll w = Some (of_nat ?j)"
    using assms by (simp only: clzll_def tick_bit_def if_False)
  moreover have "?j \<le> i" using i(2) by (rule Least_le)
  moreover have "tick_bit w ?j" using i(2) by (rule LeastI)
  moreover have "\<forall>i. tick_bit w i \<longrightarrow> ?j \<le> i" by (blast intro: Least_le)
  ultimately show ?thesis using i(1) by (intro that [of ?j]) auto
qed

lemma ctzll_Some:
  assumes "w \<noteq> 0"
  obtains z where "ctzll w = Some (of_nat z)" "z < 64" "tick_bit w (63 - z)"
    "\<forall>i<64. tick_bit w i \<longrightarrow> i \<le> 63 - z"
proof -
  let ?z = "LEAST i. bit w i"
  from assms obtain j where j: "bit w (63 - j)"
    by (auto simp: word_nonzero_tick tick_bit_def)
  have z: "bit w ?z" using j by (rule LeastI)
  have "?z \<le> 63 - j" using j by (rule Least_le)
  then have z64: "?z < 64" by simp
  with z have "length (takeWhile (\<lambda>i. \<not> bit w i) [0..<64]) = ?z"
    by (intro length_takeWhile_upt) blast
  then have c: "ctzll w = Some (of_nat ?z)"
    using assms by (simp only: ctzll_def if_False)
  have "i \<le> 63 - ?z" if "i < 64" "tick_bit w i" for i
    using that Least_le [of "bit w" "63 - i"] by (simp add: tick_bit_def)
  moreover have "tick_bit w (63 - ?z)" using z z64 by (simp add: tick_bit_def)
  ultimately show ?thesis using c z64 by (intro that [of ?z]) auto
qed


subsection \<open>Single bits of a level\<close>

lemma same_word_same_tick:
  assumes "(k :: nat) div 64 = t div 64"
  shows "k = t \<longleftrightarrow> 63 - k mod 64 = 63 - t mod 64"
proof -
  have "k mod 64 \<le> 63" "t mod 64 \<le> 63" by (simp_all add: less_Suc_eq_le [symmetric])
  then have "63 - k mod 64 = 63 - t mod 64 \<longleftrightarrow> k mod 64 = t mod 64" by arith
  also have "\<dots> \<longleftrightarrow> k = t" using assms by (metis div_mult_mod_eq)
  finally show ?thesis by simp
qed

lemma present_or:
  assumes "t < 64 * length ws"
  shows "present (ws[t div 64 := ws ! (t div 64) OR push_bit (63 - t mod 64) 1]) k
         \<longleftrightarrow> present ws k \<or> k = t"
proof (cases "k div 64 = t div 64")
  case True
  then show ?thesis using assms same_word_same_tick [OF True]
    by (auto simp: present_def tick_bit_def bit_simps)
next
  case False
  then show ?thesis using assms by (auto simp: present_def)
qed

lemma present_and_not:
  assumes "t < 64 * length ws"
  shows "present (ws[t div 64 := ws ! (t div 64) AND NOT (push_bit (63 - t mod 64) 1)]) k
         \<longleftrightarrow> present ws k \<and> k \<noteq> t"
proof (cases "k div 64 = t div 64")
  case True
  then show ?thesis using assms same_word_same_tick [OF True]
    by (auto simp: present_def tick_bit_def bit_simps)
next
  case False
  then show ?thesis using assms by (auto simp: present_def)
qed

lemma or_bit_nonzero: "k < 64 \<Longrightarrow> (w :: u64) OR push_bit k 1 \<noteq> 0"
  using bit_set_iff [of k k w] by auto

lemma and_not_nonzero: "(w :: u64) AND v \<noteq> 0 \<Longrightarrow> w \<noteq> 0"
  by auto

subsection \<open>A level and the level that summarises it\<close>

lemma summary_set:
  assumes "summary up lo" "k < length lo" "k < 64 * length up" "w \<noteq> 0"
  shows "summary (up[k div 64 := up ! (k div 64) OR push_bit (63 - k mod 64) 1]) (lo[k := w])"
  using assms unfolding summary_def present_or [OF assms(3)] by (simp add: nth_list_update)

lemma summary_clear:
  assumes "summary up lo" "k < length lo" "k < 64 * length up"
  shows "summary (up[k div 64 := up ! (k div 64) AND NOT (push_bit (63 - k mod 64) 1)]) (lo[k := 0])"
  using assms unfolding summary_def present_and_not [OF assms(3)] by (auto simp: nth_list_update)

lemma summary_keep:
  assumes "summary up lo" "lo ! k \<noteq> 0" "w \<noteq> 0"
  shows "summary up (lo[k := w])"
proof -
  have "(lo[k := w]) ! j \<noteq> 0 \<longleftrightarrow> lo ! j \<noteq> 0" if "j < length lo" for j
    using assms(2,3) that by (cases "j = k") simp_all
  with assms(1) show ?thesis unfolding summary_def by (metis length_list_update)
qed

lemma present_summary:
  assumes "summary up lo" "present lo t"
  shows "present up (t div 64)"
proof -
  have "lo ! (t div 64) \<noteq> 0"
    using assms(2) word_nonzero_tick [of "lo ! (t div 64)"] by (auto simp: present_def)
  moreover have "t div 64 < length lo"
    using assms(2) by (simp add: present_def less_mult_imp_div_less mult.commute)
  ultimately show ?thesis using assms(1) by (simp add: summary_def)
qed

lemma summary_least:
  assumes "summary up lo" "present up k" "\<And>k'. present up k' \<Longrightarrow> k \<le> k'"
    and "tick_bit (lo ! k) j" "j < 64" "\<And>i. tick_bit (lo ! k) i \<Longrightarrow> j \<le> i"
  shows "present lo (64 * k + j)" and "\<And>t. present lo t \<Longrightarrow> 64 * k + j \<le> t"
proof -
  show "present lo (64 * k + j)" using assms(1,2,4,5) by (auto simp: summary_def present_def)
  fix t assume t: "present lo t"
  then have "k \<le> t div 64" using assms(1,3) present_summary by blast
  moreover have "j \<le> t mod 64" if "k = t div 64"
    using assms(6) t that by (auto simp: present_def)
  ultimately show "64 * k + j \<le> t"
    using \<open>j < 64\<close> div_mult_mod_eq [of t 64] by (cases "k = t div 64") linarith+
qed

lemma summary_greatest:
  assumes "summary up lo" "present up k" "\<And>k'. present up k' \<Longrightarrow> k' \<le> k"
    and "tick_bit (lo ! k) j" "j < 64" "\<And>i. i < 64 \<Longrightarrow> tick_bit (lo ! k) i \<Longrightarrow> i \<le> j"
  shows "present lo (64 * k + j)" and "\<And>t. present lo t \<Longrightarrow> t \<le> 64 * k + j"
proof -
  show "present lo (64 * k + j)" using assms(1,2,4,5) by (auto simp: summary_def present_def)
  fix t assume t: "present lo t"
  then have "t div 64 \<le> k" using assms(1,3) present_summary by blast
  moreover have "t mod 64 \<le> j" if "t div 64 = k"
    using assms(6) t that by (auto simp: present_def)
  ultimately show "t \<le> 64 * k + j"
    using mod_less_divisor [of 64 t] div_mult_mod_eq [of t 64] by (cases "t div 64 = k") linarith+
qed

lemma present_single: "present [w] k \<longleftrightarrow> k < 64 \<and> tick_bit w k"
  by (auto simp: present_def)

subsection \<open>Index arithmetic of the operations\<close>

lemma sizes_bound:
  assumes "MAX_TICKS \<le> 262144" "t < MAX_TICKS"
  shows "t div 64 < L1_SIZE MAX_TICKS" "t div 64 div 64 < L2_SIZE MAX_TICKS"
    "t div 64 div 64 < 64" "L2_SIZE MAX_TICKS \<le> 64" "L1_SIZE MAX_TICKS \<le> 64 * L2_SIZE MAX_TICKS"
  using assms by (auto simp: L1_SIZE_def L2_SIZE_def)

lemma unat_of_nat_tick: "t < 262144 \<Longrightarrow> unat (of_nat t :: u64) = t"
  by (simp add: unat_of_nat take_bit_nat_eq_self)

lemma word_index_of_tick:
  assumes "t < 262144"
  shows "unat (drop_bit 6 (of_nat t :: u64)) = t div 64"
    "unat (drop_bit 6 (drop_bit 6 (of_nat t :: u64))) = t div 64 div 64"
    "unat (63 - (of_nat t AND 63 :: u64)) = 63 - t mod 64"
    "unat (63 - (drop_bit 6 (of_nat t) AND 63 :: u64)) = 63 - t div 64 mod 64"
    "unat (63 - (drop_bit 6 (drop_bit 6 (of_nat t)) AND 63 :: u64)) = 63 - t div 64 div 64 mod 64"
  by (simp_all only: unat_shiftr6 unat_63_minus unat_of_nat_tick [OF assms])

lemma index_of_levels:
  assumes "i < 64" "j < 64" "k < 64"
  shows "unat (of_nat j + push_bit 6 (of_nat k) :: u64) = 64 * k + j"
    "(of_nat i + push_bit 6 (of_nat j) + push_bit 12 (of_nat k) :: u64)
       = of_nat (64 * (64 * k + j) + i)"
proof -
  have "(of_nat j + push_bit 6 (of_nat k) :: u64) = of_nat (64 * k + j)"
    by (simp add: push_bit_eq_mult)
  moreover have "64 * k + j < 262144" using assms by simp
  ultimately show "unat (of_nat j + push_bit 6 (of_nat k) :: u64) = 64 * k + j"
    by (simp only: unat_of_nat_tick)
  show "(of_nat i + push_bit 6 (of_nat j) + push_bit 12 (of_nat k) :: u64)
       = of_nat (64 * (64 * k + j) + i)"
    by (simp add: push_bit_eq_mult algebra_simps)
qed

lemma of_nat_63_minus: "z < 64 \<Longrightarrow> (63 - of_nat z :: u64) = of_nat (63 - z)"
  by (simp add: of_nat_diff)

subsection \<open>Every operation keeps the invariant\<close>

lemma bitset_inv_new: "n \<le> 262144 \<Longrightarrow> bitset_inv n (HierarchicalBitset n)"
  by (auto simp: bitset_inv_def HierarchicalBitset_def summary_def present_def tick_bit_def
      nth_Cons' less_mult_imp_div_less mult.commute)

lemma levels_new: "levels (HierarchicalBitset n) = {}"
  by (auto simp: levels_def HierarchicalBitset_def present_def tick_bit_def
      less_mult_imp_div_less mult.commute)

lemma set_price_level_spec:
  assumes inv: "bitset_inv n bs" and t: "t < n"
  shows "\<exists>bs'. set_price_level bs (of_nat t) = Some bs' \<and> bitset_inv n bs' \<and>
           levels bs' = insert t (levels bs)"
proof -
  let ?i = "t div 64" and ?j = "t div 64 div 64"
  let ?F = "(first_level bs)[?i := first_level bs ! ?i OR push_bit (63 - t mod 64) 1]"
  let ?S = "(second_level bs)[?j := second_level bs ! ?j OR push_bit (63 - ?i mod 64) 1]"
  let ?T = "third_level bs OR push_bit (63 - ?j mod 64) 1"
  from inv have n: "n \<le> 262144" and L: "length (first_level bs) = L1_SIZE n"
      "length (second_level bs) = L2_SIZE n"
    and S1: "summary (second_level bs) (first_level bs)"
    and S2: "summary [third_level bs] (second_level bs)"
    by (auto simp: bitset_inv_def)
  note b = sizes_bound [OF n t]
  have w: "t < 262144" using n t by simp
  have r: "set_price_level bs (of_nat t) = Some \<lparr>first_level = ?F, second_level = ?S, third_level = ?T\<rparr>"
    using b L unfolding set_price_level_def Let_def word_index_of_tick [OF w]
    by (cases bs) simp
  have "summary ?S ?F"
    using b L S1 by (intro summary_set or_bit_nonzero) auto
  moreover have "summary [?T] ?S"
    using summary_set [OF S2, of ?j "second_level bs ! ?j OR push_bit (63 - ?i mod 64) 1"] b L
    by (simp add: or_bit_nonzero del: push_bit_of_1)
  moreover have "{k. present ?F k} = insert t {k. present (first_level bs) k}"
    using b L by (subst present_or) auto
  ultimately show ?thesis using r n L by (simp add: bitset_inv_def levels_def)
qed

lemma clear_price_level_spec:
  assumes inv: "bitset_inv n bs" and t: "t < n"
  shows "\<exists>bs'. clear_price_level bs (of_nat t) = Some bs' \<and> bitset_inv n bs' \<and>
           levels bs' = levels bs - {t}"
proof -
  let ?i = "t div 64" and ?j = "t div 64 div 64"
  let ?w1 = "first_level bs ! ?i AND NOT (push_bit (63 - t mod 64) 1)"
  let ?w2 = "second_level bs ! ?j AND NOT (push_bit (63 - ?i mod 64) 1)"
  let ?F = "(first_level bs)[?i := ?w1]" and ?S = "(second_level bs)[?j := ?w2]"
  let ?T = "third_level bs AND NOT (push_bit (63 - ?j mod 64) 1)"
  from inv have n: "n \<le> 262144" and L: "length (first_level bs) = L1_SIZE n"
      "length (second_level bs) = L2_SIZE n"
    and S1: "summary (second_level bs) (first_level bs)"
    and S2: "summary [third_level bs] (second_level bs)"
    by (auto simp: bitset_inv_def)
  note b = sizes_bound [OF n t]
  have w: "t < 262144" using n t by simp
  define S' where "S' = (if ?w1 = 0 then ?S else second_level bs)"
  define T' where "T' = (if ?w1 = 0 \<and> ?w2 = 0 then ?T else third_level bs)"
  have r: "clear_price_level bs (of_nat t) = Some \<lparr>first_level = ?F, second_level = S', third_level = T'\<rparr>"
    using b L unfolding clear_price_level_def Let_def word_index_of_tick [OF w] S'_def T'_def
    by (cases bs) simp
  have "summary S' ?F"
  proof (cases "?w1 = 0")
    case True
    then show ?thesis unfolding S'_def using summary_clear [OF S1, of ?i] b L by simp
  next
    case False
    then show ?thesis unfolding S'_def using summary_keep [OF S1 and_not_nonzero] by simp
  qed
  moreover have "summary [T'] S'"
  proof (cases "?w1 = 0")
    case w1: True
    show ?thesis
    proof (cases "?w2 = 0")
      case True
      then show ?thesis
        unfolding S'_def T'_def using summary_clear [OF S2, of ?j] w1 b L by simp
    next
      case False
      then show ?thesis
        unfolding S'_def T'_def using summary_keep [OF S2 and_not_nonzero] w1 by simp
    qed
  next
    case False
    then show ?thesis using S2 by (simp add: S'_def T'_def)
  qed
  moreover have "{k. present ?F k} = {k. present (first_level bs) k} - {t}"
    using b L by (subst present_and_not) auto
  ultimately show ?thesis using r n L by (simp add: bitset_inv_def levels_def S'_def)
qed

subsection \<open>The best levels\<close>

lemma finite_levels [simp]: "finite (levels bs)"
  by (rule finite_subset [of _ "{..< 64 * length (first_level bs)}"])
    (auto simp: levels_def present_def)

lemma third_level_zero:
  assumes "bitset_inv n bs"
  shows "third_level bs = 0 \<longleftrightarrow> levels bs = {}"
proof
  assume "third_level bs = 0"
  then have "\<not> present [third_level bs] k" for k by (simp add: present_single tick_bit_def)
  then show "levels bs = {}"
    using assms present_summary unfolding bitset_inv_def levels_def by blast
next
  assume e: "levels bs = {}"
  have nz: "\<exists>k. present lo k" if "summary up lo" "present up k" for up lo k
  proof -
    from that obtain j where "j < 64" "tick_bit (lo ! k) j" "k < length lo"
      by (auto simp: summary_def word_nonzero_tick)
    then have "present lo (64 * k + j)" by (auto simp: present_def)
    then show ?thesis ..
  qed
  show "third_level bs = 0"
  proof (rule ccontr)
    assume "third_level bs \<noteq> 0"
    then obtain j where "present [third_level bs] j"
      by (auto simp: word_nonzero_tick present_single)
    then have "\<exists>k. present (first_level bs) k"
      using assms nz unfolding bitset_inv_def by blast
    with e show False by (auto simp: levels_def)
  qed
qed

lemma get_best_offer_spec:
  assumes inv: "bitset_inv n bs"
  shows "get_best_offer bs = Some (if levels bs = {} then - 1 else of_nat (Min (levels bs)))"
proof (cases "third_level bs = 0")
  case True
  then show ?thesis using third_level_zero [OF inv] by (simp add: get_best_offer_def)
next
  case False
  from inv have S1: "summary (second_level bs) (first_level bs)"
    and S2: "summary [third_level bs] (second_level bs)"
    by (auto simp: bitset_inv_def)
  obtain k where k: "clzll (third_level bs) = Some (of_nat k)" "k < 64"
      "tick_bit (third_level bs) k" "\<forall>i. tick_bit (third_level bs) i \<longrightarrow> k \<le> i"
    by (rule clzll_Some [OF False])
  have K: "present [third_level bs] k" "\<And>i. present [third_level bs] i \<Longrightarrow> k \<le> i"
    using k by (auto simp: present_single)
  then have k2: "k < length (second_level bs)" "second_level bs ! k \<noteq> 0"
    using S2 by (auto simp: summary_def)
  obtain j where j: "clzll (second_level bs ! k) = Some (of_nat j)" "j < 64"
      "tick_bit (second_level bs ! k) j" "\<forall>i. tick_bit (second_level bs ! k) i \<longrightarrow> j \<le> i"
    by (rule clzll_Some [OF k2(2)])
  note J = summary_least [OF S2 K j(3,2) j(4) [rule_format]]
  then have j2: "64 * k + j < length (first_level bs)" "first_level bs ! (64 * k + j) \<noteq> 0"
    using S1 by (auto simp: summary_def)
  obtain i where i: "clzll (first_level bs ! (64 * k + j)) = Some (of_nat i)" "i < 64"
      "tick_bit (first_level bs ! (64 * k + j)) i"
      "\<forall>x. tick_bit (first_level bs ! (64 * k + j)) x \<longrightarrow> i \<le> x"
    by (rule clzll_Some [OF j2(2)])
  note I = summary_least [OF S1 J i(3,2) i(4) [rule_format]]
  have "Min (levels bs) = 64 * (64 * k + j) + i"
    using I by (intro Min_eqI finite_levels) (auto simp: levels_def)
  moreover have "levels bs \<noteq> {}" using third_level_zero [OF inv] False by simp
  moreover have "unat (of_nat k :: u64) = k" using \<open>k < 64\<close> by (intro unat_of_nat_tick) simp
  ultimately show ?thesis
    using False k(1) k2(1) j(1) j2(1) i(1) index_of_levels [OF i(2) j(2) k(2)]
    by (simp add: get_best_offer_def)
qed

lemma get_best_bid_spec:
  assumes inv: "bitset_inv n bs"
  shows "get_best_bid bs = Some (if levels bs = {} then - 1 else of_nat (Max (levels bs)))"
proof (cases "third_level bs = 0")
  case True
  then show ?thesis using third_level_zero [OF inv] by (simp add: get_best_bid_def)
next
  case False
  from inv have S1: "summary (second_level bs) (first_level bs)"
    and S2: "summary [third_level bs] (second_level bs)"
    by (auto simp: bitset_inv_def)
  obtain z3 where k: "ctzll (third_level bs) = Some (of_nat z3)" "z3 < 64"
      "tick_bit (third_level bs) (63 - z3)"
      "\<forall>i<64. tick_bit (third_level bs) i \<longrightarrow> i \<le> 63 - z3"
    by (rule ctzll_Some [OF False])
  define k where "k = 63 - z3"
  have K: "present [third_level bs] k" "\<And>i. present [third_level bs] i \<Longrightarrow> i \<le> k"
    using k by (auto simp: present_single k_def)
  then have k2: "k < length (second_level bs)" "second_level bs ! k \<noteq> 0"
    using S2 by (auto simp: summary_def)
  obtain z2 where j: "ctzll (second_level bs ! k) = Some (of_nat z2)" "z2 < 64"
      "tick_bit (second_level bs ! k) (63 - z2)"
      "\<forall>i<64. tick_bit (second_level bs ! k) i \<longrightarrow> i \<le> 63 - z2"
    by (rule ctzll_Some [OF k2(2)])
  define j where "j = 63 - z2"
  have j64: "j < 64" "k < 64" by (simp_all add: j_def k_def)
  note J = summary_greatest [OF S2 K j(3) [folded j_def] j64(1) j(4) [folded j_def, rule_format]]
  then have j2: "64 * k + j < length (first_level bs)" "first_level bs ! (64 * k + j) \<noteq> 0"
    using S1 by (auto simp: summary_def)
  obtain z1 where i: "ctzll (first_level bs ! (64 * k + j)) = Some (of_nat z1)" "z1 < 64"
      "tick_bit (first_level bs ! (64 * k + j)) (63 - z1)"
      "\<forall>x<64. tick_bit (first_level bs ! (64 * k + j)) x \<longrightarrow> x \<le> 63 - z1"
    by (rule ctzll_Some [OF j2(2)])
  define i where "i = 63 - z1"
  have i64: "i < 64" by (simp add: i_def)
  note I = summary_greatest [OF S1 J i(3) [folded i_def] i64 i(4) [folded i_def, rule_format]]
  have "Max (levels bs) = 64 * (64 * k + j) + i"
    using I by (intro Max_eqI finite_levels) (auto simp: levels_def)
  moreover have "levels bs \<noteq> {}" using third_level_zero [OF inv] False by simp
  moreover have "unat (of_nat k :: u64) = k" using \<open>k < 64\<close> by (intro unat_of_nat_tick) simp
  moreover have "(63 - of_nat z3 :: u64) = of_nat k" "(63 - of_nat z2 :: u64) = of_nat j"
      "(63 - of_nat z1 :: u64) = of_nat i"
    unfolding k_def j_def i_def by (intro of_nat_63_minus k(2) j(2) i(2))+
  ultimately show ?thesis
    using False k(1) k2(1) j(1) j2(1) i(1) index_of_levels [OF i64 j64]
    by (simp add: get_best_bid_def Let_def)
qed

subsection \<open>The interface the order book relies on\<close>

locale price_index =
  fixes invar :: "nat \<Rightarrow> 's \<Rightarrow> bool"
    and lv :: "'s \<Rightarrow> nat set"
    and new :: "nat \<Rightarrow> 's"
    and set_l :: "'s \<Rightarrow> u64 \<Rightarrow> 's option"
    and clear_l :: "'s \<Rightarrow> u64 \<Rightarrow> 's option"
    and best_bid :: "'s \<Rightarrow> u64 option"
    and best_offer :: "'s \<Rightarrow> u64 option"
  assumes new_ok: "n \<le> 262144 \<Longrightarrow> invar n (new n)"
    and lv_new: "lv (new n) = {}"
    and set_ok: "invar n s \<Longrightarrow> t < n \<Longrightarrow>
      \<exists>s'. set_l s (of_nat t) = Some s' \<and> invar n s' \<and> lv s' = insert t (lv s)"
    and clear_ok: "invar n s \<Longrightarrow> t < n \<Longrightarrow>
      \<exists>s'. clear_l s (of_nat t) = Some s' \<and> invar n s' \<and> lv s' = lv s - {t}"
    and best_bid_ok: "invar n s \<Longrightarrow>
      best_bid s = Some (if lv s = {} then - 1 else of_nat (Max (lv s)))"
    and best_offer_ok: "invar n s \<Longrightarrow>
      best_offer s = Some (if lv s = {} then - 1 else of_nat (Min (lv s)))"
begin

lemma set_E:
  assumes "invar n s" "t < n"
  obtains s' where "set_l s (of_nat t) = Some s'" "invar n s'" "lv s' = insert t (lv s)"
  using set_ok [OF assms] by blast

lemma clear_E:
  assumes "invar n s" "t < n"
  obtains s' where "clear_l s (of_nat t) = Some s'" "invar n s'" "lv s' = lv s - {t}"
  using clear_ok [OF assms] by blast

lemma run_ok:
  "invar n s \<Longrightarrow> \<forall>op\<in>set ops. op_tick op < n \<Longrightarrow>
   \<exists>s'. run_levels set_l clear_l ops s = Some s' \<and> invar n s' \<and> lv s' = ref_levels ops (lv s)"
proof (induction ops arbitrary: s)
  case (Cons op ops)
  show ?case
  proof (cases op)
    case (Set_level t)
    with Cons.prems obtain s' where "set_l s (of_nat t) = Some s'" "invar n s'"
      "lv s' = insert t (lv s)" by (auto elim: set_E)
    with Cons.IH [of s'] Cons.prems Set_level show ?thesis by auto
  next
    case (Clear_level t)
    with Cons.prems obtain s' where "clear_l s (of_nat t) = Some s'" "invar n s'"
      "lv s' = lv s - {t}" by (auto elim: clear_E)
    with Cons.IH [of s'] Cons.prems Clear_level show ?thesis by auto
  qed
qed simp

end

interpretation bs: price_index bitset_inv levels HierarchicalBitset
  set_price_level clear_price_level get_best_bid get_best_offer
  by unfold_locales
    (fact bitset_inv_new levels_new set_price_level_spec clear_price_level_spec
      get_best_bid_spec get_best_offer_spec)+

subsection \<open>Properties\<close>

text \<open>
  C11. After any sequence of set and clear operations on ticks below \<open>MAX_TICKS\<close>, starting
  from a fresh bitset, no array access is out of bounds, the best bid is the largest and the
  best offer the smallest tick a plain set would hold, and both are \<open>-1\<close> as
  \<^verbatim>\<open>size_t\<close> when that set is empty.
\<close>

theorem bitset_tracks_set:
  assumes "MAX_TICKS \<le> 262144" "\<forall>op\<in>set ops. op_tick op < MAX_TICKS"
  shows "\<exists>bs. run_levels set_price_level clear_price_level ops (HierarchicalBitset MAX_TICKS) = Some bs \<and>
    (let st = ref_levels ops {} in
       get_best_bid bs = Some (if st = {} then - 1 else of_nat (Max st)) \<and>
       get_best_offer bs = Some (if st = {} then - 1 else of_nat (Min st)))"
  using bs.run_ok [OF bs.new_ok [OF assms(1)] assms(2)]
  by (auto simp: bs.lv_new bs.best_bid_ok bs.best_offer_ok)

theorem bitset_tracks_set_witness:
  "let ops = [Set_level 70, Set_level 99999, Clear_level 70, Set_level 4100] in
   \<exists>bs. run_levels set_price_level clear_price_level ops (HierarchicalBitset 100000) = Some bs \<and>
     get_best_bid bs = Some 99999 \<and> get_best_offer bs = Some 4100"
  using bitset_tracks_set [of 100000 "[Set_level 70, Set_level 99999, Clear_level 70, Set_level 4100]"]
  by (auto simp: Let_def insert_Diff_if)

end
