(* ===== verification/Static_Order_Map.thy ===== *)
theory Static_Order_Map
  imports Mdb_Prelude
begin

text \<open>
  The open-addressing hash map of \<^verbatim>\<open>src/utils/StaticOrderMap.h\<close>: linear probing with
  tombstones over a power-of-two array of buckets. A bucket pointer is the index of the bucket,
  with the length of the array for \<^verbatim>\<open>end_\<close>. The invariant says that the probe sequence of
  every stored key meets no empty bucket before the key's own, and that no key is stored twice;
  the operations are shown to implement a finite map.
\<close>

section \<open>The code\<close>

datatype BucketState = Empty | Occupied | Tombstone

record Bucket =
  order_id :: u64
  pool_idx :: u32
  state :: BucketState

record order_map =
  buckets :: "Bucket list"
  capacity :: u64
  mapped_bytes :: u64

text \<open>
  The constructor: a successful \<^verbatim>\<open>mmap\<close> of anonymous memory is zero-filled, which makes
  every bucket \<open>Empty\<close>. The result of the call and the page size come from the system.
\<close>

definition StaticOrderMap :: "bool \<Rightarrow> u64 \<Rightarrow> nat \<Rightarrow> error + order_map" where
  "StaticOrderMap mmap_ok page_size Capacity =
     (let bytes_needed = of_nat Capacity * 16;
          page_aligned_bytes_needed = page_align page_size bytes_needed
      in if \<not> mmap_ok then Inl Mmap_failed
         else Inr \<lparr>buckets = replicate Capacity \<lparr>order_id = 0, pool_idx = 0, state = Empty\<rparr>,
                   capacity = of_nat Capacity,
                   mapped_bytes = page_aligned_bytes_needed\<rparr>)"

text \<open>\<^verbatim>\<open>curr_location++\<close> with the wrap at \<^verbatim>\<open>end_\<close>.\<close>

definition next_location :: "Bucket list \<Rightarrow> nat \<Rightarrow> nat" where
  "next_location bs i = (if Suc i = length bs then 0 else Suc i)"

function find_loop :: "Bucket list \<Rightarrow> nat \<Rightarrow> u64 \<Rightarrow> nat \<Rightarrow> nat \<Rightarrow> nat option option" where
  "find_loop bs cap key num_elements_checked curr_location =
     (if num_elements_checked < cap then
        (case arr_get bs curr_location of
           None \<Rightarrow> None
         | Some b \<Rightarrow>
             if state b \<noteq> Empty then
               if order_id b = key \<and> state b = Occupied then Some (Some curr_location)
               else find_loop bs cap key (Suc num_elements_checked) (next_location bs curr_location)
             else Some None)
      else Some None)"
  by pat_completeness auto
termination
  by (relation "measure (\<lambda>(bs, cap, key, n, curr_location). cap - n)") auto

definition find_bucket :: "order_map \<Rightarrow> u64 \<Rightarrow> nat option option" where
  "find_bucket m key =
     find_loop (buckets m) (unat (capacity m)) key 0 (unat (key AND (capacity m - 1)))"

function insert_loop :: "Bucket list \<Rightarrow> nat \<Rightarrow> u64 \<Rightarrow> nat \<Rightarrow> nat \<Rightarrow> (nat \<times> nat) option" where
  "insert_loop bs cap key num_elements_checked curr_location =
     (if num_elements_checked < cap then
        (case arr_get bs curr_location of
           None \<Rightarrow> None
         | Some b \<Rightarrow>
             if state b = Occupied \<and> order_id b \<noteq> key
             then insert_loop bs cap key (Suc num_elements_checked) (next_location bs curr_location)
             else Some (num_elements_checked, curr_location))
      else Some (num_elements_checked, curr_location))"
  by pat_completeness auto
termination
  by (relation "measure (\<lambda>(bs, cap, key, n, curr_location). cap - n)") auto

definition insert_bucket :: "order_map \<Rightarrow> u64 \<Rightarrow> u32 \<Rightarrow> ((nat \<times> bool) \<times> order_map) option" where
  "insert_bucket m key v = do {
     (num_elements_checked, curr_location) \<leftarrow>
       insert_loop (buckets m) (unat (capacity m)) key 0 (unat (key AND (capacity m - 1)));
     if num_elements_checked < unat (capacity m) then do {
       bs \<leftarrow> arr_set (buckets m) curr_location \<lparr>order_id = key, pool_idx = v, state = Occupied\<rparr>;
       Some ((curr_location, True), m\<lparr>buckets := bs\<rparr>)
     } else Some ((length (buckets m), False), m)
   }"

text \<open>\<^verbatim>\<open>operator[]\<close> returns a reference to the bucket's pool index: the bucket's position.\<close>

definition index_bucket :: "order_map \<Rightarrow> u64 \<Rightarrow> ((error + nat) \<times> order_map) option" where
  "index_bucket m key = do {
     found \<leftarrow> find_bucket m key;
     case found of
       None \<Rightarrow> do {
         ((pos, inserted), m') \<leftarrow> insert_bucket m key 0;
         if inserted then Some (Inr pos, m') else Some (Inl Map_full, m')
       }
     | Some pos \<Rightarrow> Some (Inr pos, m)
   }"

text \<open>The assignment \<^verbatim>\<open>map[key] = v\<close> through that reference.\<close>

definition assign_bucket :: "order_map \<Rightarrow> u64 \<Rightarrow> u32 \<Rightarrow> ((error + unit) \<times> order_map) option" where
  "assign_bucket m key v = do {
     (r, m') \<leftarrow> index_bucket m key;
     case r of
       Inl e \<Rightarrow> Some (Inl e, m')
     | Inr pos \<Rightarrow> do {
         b \<leftarrow> arr_get (buckets m') pos;
         bs \<leftarrow> arr_set (buckets m') pos (b\<lparr>pool_idx := v\<rparr>);
         Some (Inr (), m'\<lparr>buckets := bs\<rparr>)
       }
   }"

text \<open>The two overloads of \<^verbatim>\<open>erase\<close>; a foreign pointer is an index outside the array.\<close>

definition erase_ptr :: "order_map \<Rightarrow> int \<Rightarrow> ((error + unit) \<times> order_map) option" where
  "erase_ptr m entry_ptr =
     (if entry_ptr < 0 \<or> int (length (buckets m)) \<le> entry_ptr then Some (Inl Erase_foreign, m)
      else do {
        b \<leftarrow> arr_get (buckets m) (nat entry_ptr);
        bs \<leftarrow> arr_set (buckets m) (nat entry_ptr) (b\<lparr>state := Tombstone\<rparr>);
        Some (Inr (), m\<lparr>buckets := bs\<rparr>)
      })"

definition erase_key :: "order_map \<Rightarrow> u64 \<Rightarrow> order_map option" where
  "erase_key m key = do {
     found \<leftarrow> find_bucket m key;
     case found of
       None \<Rightarrow> Some m
     | Some pos \<Rightarrow> do {
         b \<leftarrow> arr_get (buckets m) pos;
         bs \<leftarrow> arr_set (buckets m) pos (b\<lparr>state := Tombstone\<rparr>);
         Some (m\<lparr>buckets := bs\<rparr>)
       }
   }"

text \<open>Reading \<^verbatim>\<open>it->pool_idx\<close> through a bucket pointer that \<open>find\<close> returned.\<close>

definition bucket_pool_idx :: "order_map \<Rightarrow> nat \<Rightarrow> u32 option" where
  "bucket_pool_idx m pos = do { b \<leftarrow> arr_get (buckets m) pos; Some (pool_idx b) }"

text \<open>
  Sequences of assignments and erasures, as a client runs them (an exception ends the run),
  the finite map they describe, and the bound on the number of live keys.
\<close>

datatype map_op = Put u64 u32 | Del u64

fun run_map ::
  "('m \<Rightarrow> u64 \<Rightarrow> u32 \<Rightarrow> ((error + unit) \<times> 'm) option) \<Rightarrow> ('m \<Rightarrow> u64 \<Rightarrow> 'm option) \<Rightarrow>
   map_op list \<Rightarrow> 'm \<Rightarrow> ((error + unit) \<times> 'm) option" where
  "run_map assign erase [] m = Some (Inr (), m)"
| "run_map assign erase (Put key v # ops) m = do {
     (r, m') \<leftarrow> assign m key v;
     case r of Inl e \<Rightarrow> Some (Inl e, m') | Inr _ \<Rightarrow> run_map assign erase ops m'
   }"
| "run_map assign erase (Del key # ops) m = do {
     m' \<leftarrow> erase m key;
     run_map assign erase ops m'
   }"

fun ref_map :: "map_op list \<Rightarrow> (u64 \<rightharpoonup> u32) \<Rightarrow> (u64 \<rightharpoonup> u32)" where
  "ref_map [] f = f"
| "ref_map (Put key v # ops) f = ref_map ops (f(key \<mapsto> v))"
| "ref_map (Del key # ops) f = ref_map ops (f(key := None))"

fun fits :: "nat \<Rightarrow> map_op list \<Rightarrow> (u64 \<rightharpoonup> u32) \<Rightarrow> bool" where
  "fits n [] f = True"
| "fits n (Put key v # ops) f = (card (dom (f(key \<mapsto> v))) \<le> n \<and> fits n ops (f(key \<mapsto> v)))"
| "fits n (Del key # ops) f = fits n ops (f(key := None))"

section \<open>What the map represents\<close>

definition holds :: "u64 \<Rightarrow> Bucket \<Rightarrow> bool" where
  "holds key b \<longleftrightarrow> state b = Occupied \<and> order_id b = key"

definition lookup :: "order_map \<Rightarrow> u64 \<Rightarrow> u32 option" where
  "lookup m key = map_option pool_idx (List.find (holds key) (buckets m))"

definition home :: "Bucket list \<Rightarrow> u64 \<Rightarrow> nat" where
  "home bs key = unat key mod length bs"

definition probe :: "Bucket list \<Rightarrow> u64 \<Rightarrow> nat \<Rightarrow> Bucket" where
  "probe bs key k = bs ! ((home bs key + k) mod length bs)"

definition reachable_key :: "Bucket list \<Rightarrow> nat \<Rightarrow> bool" where
  "reachable_key bs i \<longleftrightarrow>
     (\<exists>k<length bs. i = (home bs (order_id (bs ! i)) + k) mod length bs \<and>
        (\<forall>j<k. state (probe bs (order_id (bs ! i)) j) \<noteq> Empty))"

definition map_inv :: "order_map \<Rightarrow> bool" where
  "map_inv m \<longleftrightarrow>
     (\<exists>e<64. length (buckets m) = 2 ^ e) \<and>
     capacity m = of_nat (length (buckets m)) \<and>
     (\<forall>i<length (buckets m). state (buckets m ! i) = Occupied \<longrightarrow> reachable_key (buckets m) i) \<and>
     (\<forall>i<length (buckets m). \<forall>j<length (buckets m).
        holds (order_id (buckets m ! i)) (buckets m ! i) \<and>
        holds (order_id (buckets m ! i)) (buckets m ! j) \<longrightarrow> i = j)"

declare find_loop.simps [simp del] insert_loop.simps [simp del]

section \<open>Probe sequences\<close>

lemma next_location_mod:
  "bs \<noteq> [] \<Longrightarrow> next_location bs ((h + n) mod length bs) = (h + Suc n) mod length bs"
  by (simp add: next_location_def mod_Suc)

text \<open>The two loops, entered after \<open>n\<close> probes from the key's home bucket.\<close>

abbreviation find_from :: "Bucket list \<Rightarrow> u64 \<Rightarrow> nat \<Rightarrow> nat option option" where
  "find_from bs key n \<equiv> find_loop bs (length bs) key n ((home bs key + n) mod length bs)"

abbreviation insert_from :: "Bucket list \<Rightarrow> u64 \<Rightarrow> nat \<Rightarrow> (nat \<times> nat) option" where
  "insert_from bs key n \<equiv> insert_loop bs (length bs) key n ((home bs key + n) mod length bs)"

lemma find_from_done: "find_from bs key (length bs) = Some None"
  by (subst find_loop.simps) simp

lemma find_from_step:
  assumes "n < length bs"
  shows "find_from bs key n =
    (if state (probe bs key n) \<noteq> Empty then
       if holds key (probe bs key n) then Some (Some ((home bs key + n) mod length bs))
       else find_from bs key (Suc n)
     else Some None)"
proof -
  from assms have "bs \<noteq> []" by auto
  then show ?thesis using assms
    by (subst find_loop.simps) (simp add: probe_def next_location_mod holds_def conj_commute)
qed

lemma insert_from_done:
  "insert_from bs key (length bs) = Some (length bs, (home bs key + length bs) mod length bs)"
  by (subst insert_loop.simps) simp

lemma insert_from_step:
  assumes "n < length bs"
  shows "insert_from bs key n =
    (if state (probe bs key n) = Occupied \<and> order_id (probe bs key n) \<noteq> key
     then insert_from bs key (Suc n) else Some (n, (home bs key + n) mod length bs))"
proof -
  from assms have "bs \<noteq> []" by auto
  then show ?thesis using assms
    by (subst insert_loop.simps) (simp add: probe_def next_location_mod)
qed

lemma find_from_total: "n \<le> length bs \<Longrightarrow> \<exists>r. find_from bs key n = Some r"
  by (induction rule: inc_induct) (simp_all only: find_from_done find_from_step split: if_split, auto)

lemma find_from_found:
  "n \<le> length bs \<Longrightarrow> find_from bs key n = Some (Some i) \<Longrightarrow> i < length bs \<and> holds key (bs ! i)"
proof (induction rule: inc_induct)
  case base
  then show ?case unfolding find_from_done by simp
next
  case (step n)
  from step.hyps(2) have "bs \<noteq> []" by auto
  with step show ?case
    by (simp only: find_from_step) (auto simp: probe_def split: if_splits)
qed

lemma find_from_complete:
  "n \<le> k \<Longrightarrow> k < length bs \<Longrightarrow> holds key (probe bs key k) \<Longrightarrow>
   \<forall>j<k. n \<le> j \<longrightarrow> state (probe bs key j) \<noteq> Empty \<Longrightarrow> \<exists>i. find_from bs key n = Some (Some i)"
proof (induction rule: inc_induct)
  case base
  then show ?case by (simp only: find_from_step) (simp add: holds_def)
next
  case (step n)
  then have "state (probe bs key n) \<noteq> Empty" by simp
  moreover have "\<exists>i. find_from bs key (Suc n) = Some (Some i)" using step by simp
  moreover have "n < length bs" using step by simp
  ultimately show ?case by (simp only: find_from_step) auto
qed

lemma insert_from_spec:
  assumes "n \<le> length bs"
  shows "\<exists>n'. insert_from bs key n = Some (n', (home bs key + n') mod length bs) \<and>
           n \<le> n' \<and> n' \<le> length bs \<and>
           (\<forall>j<n'. n \<le> j \<longrightarrow> state (probe bs key j) = Occupied \<and> order_id (probe bs key j) \<noteq> key) \<and>
           (n' < length bs \<longrightarrow> state (probe bs key n') \<noteq> Occupied \<or> order_id (probe bs key n') = key)"
  using assms
proof (induction rule: inc_induct)
  case base
  show ?case by (intro exI [of _ "length bs"]) (simp only: insert_from_done, auto)
next
  case (step n)
  show ?case
  proof (cases "state (probe bs key n) = Occupied \<and> order_id (probe bs key n) \<noteq> key")
    case True
    with step.hyps(2) have e: "insert_from bs key n = insert_from bs key (Suc n)"
      by (simp only: insert_from_step) simp
    from step.IH obtain n' where n': "insert_from bs key (Suc n) = Some (n', (home bs key + n') mod length bs)"
      "Suc n \<le> n'" "n' \<le> length bs"
      "\<forall>j<n'. Suc n \<le> j \<longrightarrow> state (probe bs key j) = Occupied \<and> order_id (probe bs key j) \<noteq> key"
      "n' < length bs \<longrightarrow> state (probe bs key n') \<noteq> Occupied \<or> order_id (probe bs key n') = key"
      by blast
    have "state (probe bs key j) = Occupied \<and> order_id (probe bs key j) \<noteq> key" if "j < n'" "n \<le> j" for j
      using n'(4) True that by (cases "j = n") auto
    then show ?thesis unfolding e using n' by (intro exI [of _ n']) auto
  next
    case False
    with step.hyps(2) have "insert_from bs key n = Some (n, (home bs key + n) mod length bs)"
      by (simp only: insert_from_step) simp
    then show ?thesis using False step.hyps(2) by (intro exI [of _ n]) auto
  qed
qed

section \<open>The map behind the buckets\<close>

lemma home_mask:
  assumes "map_inv m"
  shows "unat (key AND (capacity m - 1)) = home (buckets m) key"
    "unat (capacity m) = length (buckets m)" "buckets m \<noteq> []"
proof -
  from assms obtain e where e: "e < 64" "length (buckets m) = 2 ^ e"
    and c: "capacity m = of_nat (length (buckets m))"
    by (auto simp: map_inv_def)
  have "capacity m - 1 = mask e" using c e by (simp add: mask_eq_exp_minus_1)
  then show "unat (key AND (capacity m - 1)) = home (buckets m) key"
    by (simp only: unat_and_mask home_def e(2))
  have "(2::nat) ^ e < 2 ^ 64" using e(1) by (intro power_strict_increasing) auto
  then show "unat (capacity m) = length (buckets m)"
    by (simp only: c e(2) unat_of_nat len_num0 len_num1) (simp add: take_bit_nat_eq_self)
  show "buckets m \<noteq> []" using e(2) by auto
qed

lemma map_inv_unique:
  assumes "map_inv m" "i < length (buckets m)" "j < length (buckets m)"
    "holds key (buckets m ! i)" "holds key (buckets m ! j)"
  shows "i = j"
proof -
  have "order_id (buckets m ! i) = key" using assms(4) by (simp add: holds_def)
  then show ?thesis using assms unfolding map_inv_def by simp
qed

lemma lookup_eq_Some:
  assumes "map_inv m"
  shows "lookup m key = Some v \<longleftrightarrow>
    (\<exists>i<length (buckets m). holds key (buckets m ! i) \<and> pool_idx (buckets m ! i) = v)"
proof
  assume "lookup m key = Some v"
  then show "\<exists>i<length (buckets m). holds key (buckets m ! i) \<and> pool_idx (buckets m ! i) = v"
    by (auto simp: lookup_def find_Some_iff)
next
  assume "\<exists>i<length (buckets m). holds key (buckets m ! i) \<and> pool_idx (buckets m ! i) = v"
  then obtain i where i: "i < length (buckets m)" "holds key (buckets m ! i)"
    "pool_idx (buckets m ! i) = v" by blast
  have "\<not> holds key (buckets m ! j)" if "j < i" for j
    using map_inv_unique [OF assms i(1) _ i(2), of j] i(1) that by auto
  then have "List.find (holds key) (buckets m) = Some (buckets m ! i)"
    using i by (auto simp: find_Some_iff)
  then show "lookup m key = Some v" using i(3) by (simp add: lookup_def)
qed

lemma lookup_eq_None:
  "lookup m key = None \<longleftrightarrow> (\<forall>i<length (buckets m). \<not> holds key (buckets m ! i))"
  by (auto simp: lookup_def find_None_iff in_set_conv_nth)

lemma find_bucket_spec:
  assumes inv: "map_inv m"
  shows "\<exists>r. find_bucket m key = Some r \<and> (r = None \<longleftrightarrow> lookup m key = None) \<and>
    (\<forall>i. r = Some i \<longrightarrow> i < length (buckets m) \<and> holds key (buckets m ! i) \<and>
       lookup m key = Some (pool_idx (buckets m ! i)))"
proof -
  note hm = home_mask [OF inv]
  have f: "find_bucket m key = find_from (buckets m) key 0"
    using hm by (simp add: find_bucket_def home_def)
  obtain r where r: "find_bucket m key = Some r"
    using find_from_total [of 0 "buckets m" key] f by auto
  have found: "i < length (buckets m) \<and> holds key (buckets m ! i)" if "r = Some i" for i
    using find_from_found [of 0 "buckets m" key i] f r that by simp
  have "\<exists>i. r = Some i" if "i < length (buckets m)" "holds key (buckets m ! i)" for i
  proof -
    have "reachable_key (buckets m) i" using inv that by (auto simp: map_inv_def holds_def)
    moreover have "order_id (buckets m ! i) = key" using that(2) by (simp add: holds_def)
    ultimately obtain k where k: "k < length (buckets m)" "i = (home (buckets m) key + k) mod length (buckets m)"
      "\<forall>j<k. state (probe (buckets m) key j) \<noteq> Empty"
      by (auto simp: reachable_key_def)
    then have "holds key (probe (buckets m) key k)" using that(2) by (simp add: probe_def)
    with k find_from_complete [of 0 k "buckets m" key] f r show ?thesis by auto
  qed
  then have "r = None \<longleftrightarrow> lookup m key = None"
    using found by (cases r) (auto simp: lookup_eq_None)
  with r found show ?thesis by (auto simp: lookup_eq_Some [OF inv])
qed

lemma same_lookup: "(\<And>v. f = Some v \<longleftrightarrow> g = Some v) \<Longrightarrow> f = g"
  by (cases f; cases g) auto

text \<open>Writing one bucket: who still reaches what.\<close>

lemma reachable_key_update:
  assumes "reachable_key bs i" "i < length bs" "p < length bs"
    and "i \<noteq> p \<or> order_id b = order_id (bs ! p)" "state b \<noteq> Empty"
  shows "reachable_key (bs[p := b]) i"
proof -
  have key: "order_id (bs[p := b] ! i) = order_id (bs ! i)"
    using assms(2,4) by (cases "i = p") simp_all
  have st: "state (probe (bs[p := b]) key' j) \<noteq> Empty" if "state (probe bs key' j) \<noteq> Empty" for key' j
    using that assms(3,5) by (simp add: probe_def home_def nth_list_update)
  from assms(1) show ?thesis unfolding reachable_key_def key using st
    by (auto simp: home_def)
qed

lemma map_inv_tombstone:
  assumes inv: "map_inv m" and p: "p < length (buckets m)"
  shows "map_inv (m\<lparr>buckets := (buckets m)[p := (buckets m ! p)\<lparr>state := Tombstone\<rparr>]\<rparr>)"
  using assms unfolding map_inv_def
  by (auto simp: nth_list_update holds_def intro!: reachable_key_update)

lemma map_inv_repoint:
  assumes inv: "map_inv m" and p: "p < length (buckets m)" "state (buckets m ! p) = Occupied"
  shows "map_inv (m\<lparr>buckets := (buckets m)[p := (buckets m ! p)\<lparr>pool_idx := v\<rparr>]\<rparr>)"
  using assms unfolding map_inv_def
  by (auto simp: nth_list_update holds_def intro!: reachable_key_update)

lemma map_inv_new_bucket:
  fixes v :: u32
  assumes inv: "map_inv m" and free: "lookup m key = None"
    and k: "k < length (buckets m)"
    and path: "\<forall>j<k. state (probe (buckets m) key j) = Occupied"
    and p: "p = (home (buckets m) key + k) mod length (buckets m)"
      "state (buckets m ! p) \<noteq> Occupied"
  defines "b \<equiv> \<lparr>order_id = key, pool_idx = v, state = Occupied\<rparr>"
  shows "map_inv (m\<lparr>buckets := (buckets m)[p := b]\<rparr>)"
    and "lookup (m\<lparr>buckets := (buckets m)[p := b]\<rparr>) = (lookup m)(key \<mapsto> v)"
proof -
  let ?bs = "buckets m" and ?m = "m\<lparr>buckets := (buckets m)[p := b]\<rparr>"
  have ne: "?bs \<noteq> []" using k by auto
  then have p': "p < length ?bs" by (simp add: p(1))
  have other: "\<not> holds key (?bs ! i)" if "i < length ?bs" for i
    using free that by (simp add: lookup_eq_None)
  have "reachable_key (?bs[p := b]) p"
    unfolding reachable_key_def
  proof (intro exI [of _ k] conjI allI impI)
    show "p = (home (?bs[p := b]) (order_id (?bs[p := b] ! p)) + k) mod length (?bs[p := b])"
      using p' by (simp add: b_def home_def) (simp add: p(1) home_def)
    show "state (probe (?bs[p := b]) (order_id (?bs[p := b] ! p)) j) \<noteq> Empty" if "j < k" for j
      using path that p' by (auto simp: b_def probe_def home_def nth_list_update)
  qed (use k in simp)
  moreover have "reachable_key (?bs[p := b]) i"
    if "i < length ?bs" "i \<noteq> p" "state (?bs ! i) = Occupied" for i
    using inv that p' by (intro reachable_key_update) (auto simp: map_inv_def b_def)
  ultimately have reach: "\<forall>i<length ?bs. state (?bs[p := b] ! i) = Occupied \<longrightarrow> reachable_key (?bs[p := b]) i"
    by (metis nth_list_update_neq)
  show "map_inv ?m"
    using inv reach other p' unfolding map_inv_def
    by (auto simp: nth_list_update holds_def b_def)
  then have *: "lookup ?m x = Some w \<longleftrightarrow>
    (\<exists>i<length ?bs. holds x (?bs[p := b] ! i) \<and> pool_idx (?bs[p := b] ! i) = w)" for x w
    by (subst lookup_eq_Some) auto
  show "lookup ?m = (lookup m)(key \<mapsto> v)"
  proof (rule ext, rule same_lookup)
    fix x w
    show "lookup ?m x = Some w \<longleftrightarrow> ((lookup m)(key \<mapsto> v)) x = Some w"
    proof (cases "x = key")
      case True
      then have "holds x (?bs[p := b] ! i) \<longleftrightarrow> i = p" if "i < length ?bs" for i
        using other that p' by (cases "i = p") (simp_all add: holds_def b_def)
      moreover have "pool_idx (?bs[p := b] ! p) = v" using p' by (simp add: b_def)
      ultimately have "lookup ?m x = Some w \<longleftrightarrow> v = w" unfolding * using p' by metis
      then show ?thesis using True by simp
    next
      case False
      then have "holds x (?bs[p := b] ! i) \<longleftrightarrow> holds x (?bs ! i)" if "i < length ?bs" for i
        using p(2) p' that by (cases "i = p") (simp_all add: holds_def b_def)
      moreover have "?bs[p := b] ! i = ?bs ! i" if "holds x (?bs ! i)" for i
        using p(2) that by (cases "i = p") (auto simp: holds_def)
      ultimately have "lookup ?m x = Some w \<longleftrightarrow> lookup m x = Some w"
        unfolding * lookup_eq_Some [OF inv] by metis
      then show ?thesis using False by simp
    qed
  qed
qed

lemma insert_bucket_spec:
  assumes inv: "map_inv m" and free: "lookup m key = None"
  shows "(\<exists>p m'. insert_bucket m key v = Some ((p, True), m') \<and> p < length (buckets m) \<and>
            map_inv m' \<and> lookup m' = (lookup m)(key \<mapsto> v) \<and>
            length (buckets m') = length (buckets m) \<and> holds key (buckets m' ! p)) \<or>
         (insert_bucket m key v = Some ((length (buckets m), False), m) \<and>
            (\<forall>i<length (buckets m). state (buckets m ! i) = Occupied))"
proof -
  let ?bs = "buckets m" and ?h = "home (buckets m) key"
  note hm = home_mask [OF inv]
  from insert_from_spec [of 0 ?bs key] obtain n where
    n: "insert_from ?bs key 0 = Some (n, (?h + n) mod length ?bs)" "n \<le> length ?bs"
      "\<forall>j<n. state (probe ?bs key j) = Occupied \<and> order_id (probe ?bs key j) \<noteq> key"
      "n < length ?bs \<longrightarrow> state (probe ?bs key n) \<noteq> Occupied \<or> order_id (probe ?bs key n) = key"
    by auto
  have l: "insert_loop ?bs (unat (capacity m)) key 0 (unat (key AND (capacity m - 1)))
      = Some (n, (?h + n) mod length ?bs)"
    using n(1) hm by (simp add: home_def)
  let ?p = "(?h + n) mod length ?bs"
  have p: "?p < length ?bs" using hm(3) by simp
  show ?thesis
  proof (cases "n < length ?bs")
    case True
    have "\<not> holds key (?bs ! ?p)" using free p by (simp add: lookup_eq_None)
    with n(4) True have s: "state (?bs ! ?p) \<noteq> Occupied" by (auto simp: holds_def probe_def)
    have "insert_bucket m key v = Some ((?p, True),
        m\<lparr>buckets := ?bs[?p := \<lparr>order_id = key, pool_idx = v, state = Occupied\<rparr>]\<rparr>)"
      unfolding insert_bucket_def l using True hm(2) p by simp
    moreover note map_inv_new_bucket [OF inv free True _ refl s, of v]
    ultimately show ?thesis using n(3) p by (auto simp: holds_def)
  next
    case False
    then have nl: "n = length ?bs" using n(2) by simp
    have "state (?bs ! i) = Occupied" if i: "i < length ?bs" for i
    proof -
      let ?j = "(i + (length ?bs - ?h)) mod length ?bs"
      have h: "?h < length ?bs" using hm(3) by (simp add: home_def)
      have "(?h + ?j) mod length ?bs = (?h + (i + (length ?bs - ?h))) mod length ?bs"
        by (rule mod_add_right_eq)
      also have "\<dots> = (i + length ?bs) mod length ?bs" using h by (simp add: algebra_simps)
      finally have "(?h + ?j) mod length ?bs = i" using i by simp
      moreover have "?j < n" using nl hm(3) by simp
      ultimately show ?thesis using n(3) by (metis probe_def)
    qed
    then show ?thesis unfolding insert_bucket_def l using False hm(2) by simp
  qed
qed

section \<open>The number of live keys\<close>

lemma dom_lookup:
  "dom (lookup m) = (\<lambda>i. order_id (buckets m ! i)) ` {i. i < length (buckets m) \<and> state (buckets m ! i) = Occupied}"
  unfolding dom_def mem_Collect_eq lookup_eq_None holds_def by auto

lemma card_dom_lookup:
  assumes "map_inv m"
  shows "card (dom (lookup m)) = card {i. i < length (buckets m) \<and> state (buckets m ! i) = Occupied}"
  unfolding dom_lookup using map_inv_unique [OF assms]
  by (intro card_image inj_onI) (auto simp: holds_def)

lemma finite_dom_lookup [simp]: "finite (dom (lookup m))"
  unfolding dom_lookup by auto

lemma card_dom_lookup_le: "map_inv m \<Longrightarrow> card (dom (lookup m)) \<le> length (buckets m)"
  using card_mono [of "{..<length (buckets m)}" "{i. i < length (buckets m) \<and> state (buckets m ! i) = Occupied}"]
  by (auto simp: card_dom_lookup)

lemma full_iff:
  assumes "map_inv m"
  shows "card (dom (lookup m)) = length (buckets m) \<longleftrightarrow>
    (\<forall>i<length (buckets m). state (buckets m ! i) = Occupied)"
proof -
  let ?O = "{i. i < length (buckets m) \<and> state (buckets m ! i) = Occupied}"
  have "card ?O = card {..<length (buckets m)} \<longleftrightarrow> ?O = {..<length (buckets m)}"
    by (intro iffI card_subset_eq) auto
  then show ?thesis using card_dom_lookup [OF assms] by auto
qed

section \<open>The operations implement a finite map\<close>

lemma map_inv_new:
  assumes "StaticOrderMap ok page (2 ^ e) = Inr m" "e < 64"
  shows "map_inv m" "lookup m = Map.empty" "length (buckets m) = 2 ^ e"
  using assms by (auto simp: StaticOrderMap_def map_inv_def lookup_eq_None holds_def Let_def
      split: if_splits intro!: ext)

lemma lookup_repoint:
  assumes inv: "map_inv m" and p: "p < length (buckets m)" "holds key (buckets m ! p)"
  shows "lookup (m\<lparr>buckets := (buckets m)[p := (buckets m ! p)\<lparr>pool_idx := v\<rparr>]\<rparr>) = (lookup m)(key \<mapsto> v)"
proof (rule ext, rule same_lookup)
  fix x w
  let ?m = "m\<lparr>buckets := (buckets m)[p := (buckets m ! p)\<lparr>pool_idx := v\<rparr>]\<rparr>"
  have inv': "map_inv ?m" using p(2) by (intro map_inv_repoint [OF inv p(1)]) (simp add: holds_def)
  show "lookup ?m x = Some w \<longleftrightarrow> ((lookup m)(key \<mapsto> v)) x = Some w"
  proof (cases "x = key")
    case True
    have "lookup ?m key = Some v"
      unfolding lookup_eq_Some [OF inv'] using p by (intro exI [of _ p]) (simp add: holds_def)
    with True show ?thesis by simp
  next
    case False
    then have "holds x (buckets ?m ! i) = holds x (buckets m ! i)" if "i < length (buckets m)" for i
      using p that by (cases "i = p") (simp_all add: holds_def)
    moreover have "buckets ?m ! i = buckets m ! i" if "holds x (buckets m ! i)" for i
      using p that False by (cases "i = p") (simp_all add: holds_def)
    moreover have "length (buckets ?m) = length (buckets m)" by simp
    ultimately have "lookup ?m x = Some w \<longleftrightarrow> lookup m x = Some w"
      unfolding lookup_eq_Some [OF inv'] lookup_eq_Some [OF inv] by metis
    then show ?thesis using False by simp
  qed
qed

lemma lookup_tombstone:
  assumes inv: "map_inv m" and p: "p < length (buckets m)" "holds key (buckets m ! p)"
  shows "lookup (m\<lparr>buckets := (buckets m)[p := (buckets m ! p)\<lparr>state := Tombstone\<rparr>]\<rparr>) = (lookup m)(key := None)"
proof (rule ext, rule same_lookup)
  fix x w
  let ?m = "m\<lparr>buckets := (buckets m)[p := (buckets m ! p)\<lparr>state := Tombstone\<rparr>]\<rparr>"
  note inv' = map_inv_tombstone [OF inv p(1)]
  have h: "holds x (buckets ?m ! i) \<longleftrightarrow> x \<noteq> key \<and> holds x (buckets m ! i)" if "i < length (buckets m)" for i
  proof (cases "i = p")
    case True
    then show ?thesis using p by (auto simp: holds_def)
  next
    case False
    then have "\<not> holds key (buckets m ! i)" using map_inv_unique [OF inv that p(1) _ p(2)] by blast
    with False show ?thesis by auto
  qed
  moreover have "buckets ?m ! i = buckets m ! i" if "holds x (buckets m ! i)" "x \<noteq> key" for i
    using p that by (cases "i = p") (simp_all add: holds_def)
  moreover have "length (buckets ?m) = length (buckets m)" by simp
  ultimately have "lookup ?m x = Some w \<longleftrightarrow> x \<noteq> key \<and> lookup m x = Some w"
    unfolding lookup_eq_Some [OF inv'] lookup_eq_Some [OF inv] by metis
  then show "lookup ?m x = Some w \<longleftrightarrow> ((lookup m)(key := None)) x = Some w" by simp
qed

lemma assign_bucket_spec:
  assumes inv: "map_inv m" and room: "lookup m key \<noteq> None \<or> card (dom (lookup m)) < length (buckets m)"
  shows "\<exists>m'. assign_bucket m key v = Some (Inr (), m') \<and> map_inv m' \<and>
    lookup m' = (lookup m)(key \<mapsto> v) \<and> length (buckets m') = length (buckets m)"
proof -
  have store: "\<exists>m'. (do { b \<leftarrow> arr_get (buckets m1) p; bs \<leftarrow> arr_set (buckets m1) p (b\<lparr>pool_idx := v\<rparr>);
        Some (Inr () :: error + unit, m1\<lparr>buckets := bs\<rparr>) }) = Some (Inr (), m') \<and> map_inv m' \<and>
      lookup m' = (lookup m1)(key \<mapsto> v) \<and> length (buckets m') = length (buckets m1)"
    if "map_inv m1" "p < length (buckets m1)" "holds key (buckets m1 ! p)" for m1 p
    using that map_inv_repoint [OF that(1,2)] lookup_repoint [OF that] by (simp add: holds_def)
  obtain r where r: "find_bucket m key = Some r" "r = None \<longleftrightarrow> lookup m key = None"
    "\<forall>i. r = Some i \<longrightarrow> i < length (buckets m) \<and> holds key (buckets m ! i)"
    using find_bucket_spec [OF inv] by blast
  show ?thesis
  proof (cases r)
    case None
    with r(2) have free: "lookup m key = None" by simp
    with room full_iff [OF inv] obtain p m1 where p: "insert_bucket m key 0 = Some ((p, True), m1)"
      "p < length (buckets m)" "map_inv m1" "lookup m1 = (lookup m)(key \<mapsto> 0)"
      "length (buckets m1) = length (buckets m)" "holds key (buckets m1 ! p)"
      using insert_bucket_spec [OF inv free, of 0] by auto
    with store [of m1 p] None r(1) show ?thesis
      by (auto simp: assign_bucket_def index_bucket_def)
  next
    case (Some p)
    with store [OF inv, of p] r show ?thesis by (simp add: assign_bucket_def index_bucket_def)
  qed
qed

lemma assign_bucket_full:
  assumes inv: "map_inv m" and free: "lookup m key = None"
    and full: "card (dom (lookup m)) = length (buckets m)"
  shows "assign_bucket m key v = Some (Inl Map_full, m)"
proof -
  have "find_bucket m key = Some None" using find_bucket_spec [OF inv, of key] free by auto
  moreover have "insert_bucket m key 0 = Some ((length (buckets m), False), m)"
  proof -
    have "\<not> (\<exists>p m'. insert_bucket m key 0 = Some ((p, True), m') \<and> map_inv m' \<and>
      lookup m' = (lookup m)(key \<mapsto> 0) \<and> length (buckets m') = length (buckets m))"
    proof
      assume "\<exists>p m'. insert_bucket m key 0 = Some ((p, True), m') \<and> map_inv m' \<and>
        lookup m' = (lookup m)(key \<mapsto> 0) \<and> length (buckets m') = length (buckets m)"
      then obtain m' where m': "map_inv m'" "lookup m' = (lookup m)(key \<mapsto> 0)"
        "length (buckets m') = length (buckets m)" by blast
      have "card (dom (lookup m')) = Suc (card (dom (lookup m)))"
        using free m'(2) by (simp add: domIff)
      with card_dom_lookup_le [OF m'(1)] m'(3) full show False by simp
    qed
    with insert_bucket_spec [OF inv free, of 0] show ?thesis by blast
  qed
  ultimately show ?thesis by (simp add: assign_bucket_def index_bucket_def)
qed

lemma erase_key_spec:
  assumes inv: "map_inv m"
  shows "\<exists>m'. erase_key m key = Some m' \<and> map_inv m' \<and>
    lookup m' = (lookup m)(key := None) \<and> length (buckets m') = length (buckets m)"
proof -
  obtain r where r: "find_bucket m key = Some r" "r = None \<longleftrightarrow> lookup m key = None"
    "\<forall>i. r = Some i \<longrightarrow> i < length (buckets m) \<and> holds key (buckets m ! i)"
    using find_bucket_spec [OF inv] by blast
  show ?thesis
  proof (cases r)
    case None
    with r inv show ?thesis by (auto simp: erase_key_def)
  next
    case (Some p)
    with r map_inv_tombstone [OF inv, of p] lookup_tombstone [OF inv, of p key] show ?thesis
      by (simp add: erase_key_def)
  qed
qed

lemma find_deref_spec:
  assumes "map_inv m"
  shows "\<exists>r. find_bucket m key = Some r \<and>
    (case r of None \<Rightarrow> lookup m key = None
     | Some p \<Rightarrow> \<exists>v. bucket_pool_idx m p = Some v \<and> lookup m key = Some v)"
  using find_bucket_spec [OF assms, of key] by (auto simp: bucket_pool_idx_def split: option.splits)

section \<open>The interface the order book relies on\<close>

locale order_index =
  fixes invar :: "'m \<Rightarrow> bool"
    and look :: "'m \<Rightarrow> u64 \<Rightarrow> u32 option"
    and cap :: "'m \<Rightarrow> nat"
    and find :: "'m \<Rightarrow> u64 \<Rightarrow> 'p option option"
    and deref :: "'m \<Rightarrow> 'p \<Rightarrow> u32 option"
    and assign :: "'m \<Rightarrow> u64 \<Rightarrow> u32 \<Rightarrow> ((error + unit) \<times> 'm) option"
    and erase :: "'m \<Rightarrow> u64 \<Rightarrow> 'm option"
  assumes find_ok: "invar m \<Longrightarrow> \<exists>r. find m key = Some r \<and>
      (case r of None \<Rightarrow> look m key = None | Some p \<Rightarrow> \<exists>v. deref m p = Some v \<and> look m key = Some v)"
    and assign_ok: "invar m \<Longrightarrow> look m key \<noteq> None \<or> card (dom (look m)) < cap m \<Longrightarrow>
      \<exists>m'. assign m key v = Some (Inr (), m') \<and> invar m' \<and> look m' = (look m)(key \<mapsto> v) \<and> cap m' = cap m"
    and assign_full: "invar m \<Longrightarrow> look m key = None \<Longrightarrow> card (dom (look m)) = cap m \<Longrightarrow>
      assign m key v = Some (Inl Map_full, m)"
    and erase_ok: "invar m \<Longrightarrow>
      \<exists>m'. erase m key = Some m' \<and> invar m' \<and> look m' = (look m)(key := None) \<and> cap m' = cap m"
    and finite_dom: "finite (dom (look m))"
    and card_le: "invar m \<Longrightarrow> card (dom (look m)) \<le> cap m"
begin

lemma find_None: "invar m \<Longrightarrow> look m key = None \<Longrightarrow> find m key = Some None"
  using find_ok [of m key] by (auto split: option.splits)

lemma find_Some:
  assumes "invar m" "look m key = Some v"
  shows "\<exists>p. find m key = Some (Some p) \<and> deref m p = Some v"
  using find_ok [OF assms(1), of key] assms(2) by (auto split: option.splits)

lemma assign_E:
  assumes "invar m" "look m key \<noteq> None \<or> card (dom (look m)) < cap m"
  obtains m' where "assign m key v = Some (Inr (), m')" "invar m'"
    "look m' = (look m)(key \<mapsto> v)" "cap m' = cap m"
  using assign_ok [OF assms] by blast

lemma erase_E:
  assumes "invar m"
  obtains m' where "erase m key = Some m'" "invar m'" "look m' = (look m)(key := None)" "cap m' = cap m"
  using erase_ok [OF assms] by blast

lemma room_for: "card (dom ((look m)(key \<mapsto> v))) \<le> n \<Longrightarrow> look m key \<noteq> None \<or> card (dom (look m)) < n"
  by (cases "look m key") (simp_all add: card_insert_if finite_dom domIff)

lemma run_ok:
  "invar m \<Longrightarrow> fits (cap m) ops (look m) \<Longrightarrow>
   \<exists>m'. run_map assign erase ops m = Some (Inr (), m') \<and> invar m' \<and> look m' = ref_map ops (look m)"
proof (induction ops arbitrary: m)
  case (Cons op ops)
  show ?case
  proof (cases op)
    case (Put key v)
    then have "look m key \<noteq> None \<or> card (dom (look m)) < cap m"
      using Cons.prems(2) by (intro room_for [of _ _ v]) simp
    with Cons.prems(1) obtain m' where "assign m key v = Some (Inr (), m')" "invar m'"
      "look m' = (look m)(key \<mapsto> v)" "cap m' = cap m" by (rule assign_E)
    with Cons.IH [of m'] Cons.prems(2) Put show ?thesis by (simp del: fun_upd_apply)
  next
    case (Del key)
    with Cons.prems obtain m' where "erase m key = Some m'" "invar m'"
      "look m' = (look m)(key := None)" "cap m' = cap m" by (auto elim: erase_E)
    with Cons.IH [of m'] Cons.prems(2) Del show ?thesis by (simp del: fun_upd_apply)
  qed
qed simp

end

interpretation om: order_index map_inv lookup "\<lambda>m. length (buckets m)"
  find_bucket bucket_pool_idx assign_bucket erase_key
  by unfold_locales
    (fact find_deref_spec assign_bucket_spec assign_bucket_full erase_key_spec
      finite_dom_lookup card_dom_lookup_le)+

section \<open>Properties\<close>

text \<open>
  C12. Starting from the constructor, any sequence of assignments \<open>map[key] = v\<close> and erasures
  in which at most \<open>Capacity\<close> keys are live at a time runs without an exception and without
  touching memory outside the table, and afterwards \<open>find\<close> returns, for every key, exactly
  what the finite map built by the same operations holds: the stored pool index, or a null
  pointer for an absent key, whatever tombstones the erasures left.
\<close>

theorem order_map_implements_map:
  assumes "StaticOrderMap ok page (2 ^ e) = Inr m" "e < 64" "fits (2 ^ e) ops Map.empty"
  shows "\<exists>m'. run_map assign_bucket erase_key ops m = Some (Inr (), m') \<and>
    (\<forall>key. case ref_map ops Map.empty key of
       None \<Rightarrow> find_bucket m' key = Some None
     | Some v \<Rightarrow> \<exists>p. find_bucket m' key = Some (Some p) \<and> bucket_pool_idx m' p = Some v)"
proof -
  note new = map_inv_new [OF assms(1,2)]
  obtain m' where m': "run_map assign_bucket erase_key ops m = Some (Inr (), m')" "map_inv m'"
    "lookup m' = ref_map ops Map.empty"
    using om.run_ok [OF new(1), of ops] assms(3) new by auto
  then show ?thesis
    by (auto split: option.splits intro: om.find_None [OF m'(2)] om.find_Some [OF m'(2)])
qed

theorem order_map_implements_map_witness:
  "case StaticOrderMap True 4096 4 of
     Inl _ \<Rightarrow> False
   | Inr m \<Rightarrow>
     (\<exists>m'. run_map assign_bucket erase_key [Put 1 10, Put 5 11, Del 1, Put 9 12, Put 5 13] m = Some (Inr (), m') \<and>
        find_bucket m' 1 = Some None \<and>
        (\<exists>p. find_bucket m' 5 = Some (Some p) \<and> bucket_pool_idx m' p = Some 13))"
proof -
  let ?ops = "[Put 1 10, Put 5 11, Del 1, Put 9 12, Put 5 13]"
  obtain m where m: "StaticOrderMap True 4096 4 = Inr m" by (simp add: StaticOrderMap_def Let_def)
  have f: "fits (2 ^ 2) ?ops Map.empty" by (simp add: card_insert_if insert_Diff_if)
  have r: "ref_map ?ops Map.empty 1 = None" "ref_map ?ops Map.empty 5 = Some 13" by simp_all
  obtain m' where m': "run_map assign_bucket erase_key ?ops m = Some (Inr (), m')"
    "\<forall>key. case ref_map ?ops Map.empty key of None \<Rightarrow> find_bucket m' key = Some None
     | Some v \<Rightarrow> \<exists>p. find_bucket m' key = Some (Some p) \<and> bucket_pool_idx m' p = Some v"
    using order_map_implements_map [of True 4096 2 m ?ops] m f by auto
  from m'(2) [rule_format, of 1] m'(2) [rule_format, of 5] r m'(1) m show ?thesis by simp
qed

text \<open>
  C23. \<open>operator[]\<close> throws exactly when the table is full of other keys: with \<open>Capacity\<close>
  live keys and a new one, it throws \<open>Map_full\<close> and leaves the table as it was; in every
  other case the assignment succeeds and changes the value of that key only.
\<close>

theorem order_map_throws_iff_full:
  assumes "map_inv m"
  shows "(if lookup m key = None \<and> card (dom (lookup m)) = length (buckets m)
          then assign_bucket m key v = Some (Inl Map_full, m)
          else \<exists>m'. assign_bucket m key v = Some (Inr (), m') \<and> map_inv m' \<and>
                 lookup m' = (lookup m)(key \<mapsto> v))"
  using om.assign_full [OF assms, of key v] om.assign_ok [OF assms, of key v] om.card_le [OF assms]
  by auto

theorem order_map_throws_iff_full_witness:
  "let b = (\<lambda>k. \<lparr>order_id = k, pool_idx = 7, state = Occupied\<rparr>);
       m = \<lparr>buckets = [b 0, b 1], capacity = 2, mapped_bytes = 4096\<rparr> in
   map_inv m \<and> assign_bucket m 2 9 = Some (Inl Map_full, m)"
proof -
  define m where "m = \<lparr>buckets = [\<lparr>order_id = 0, pool_idx = 7, state = Occupied\<rparr>,
    \<lparr>order_id = 1, pool_idx = 7, state = Occupied\<rparr>], capacity = 2, mapped_bytes = 4096\<rparr>"
  have inv: "map_inv m"
    unfolding map_inv_def m_def
    by (auto simp: reachable_key_def home_def holds_def less_Suc_eq numeral_2_eq_2 intro: exI [of _ "Suc 0"])
  have "lookup m 2 = None" by (simp add: lookup_def m_def holds_def)
  moreover have "card (dom (lookup m)) = length (buckets m)"
    unfolding full_iff [OF inv] by (simp add: m_def less_Suc_eq numeral_2_eq_2)
  ultimately show ?thesis
    using order_map_throws_iff_full [OF inv, of 2 9] inv by (simp add: m_def Let_def)
qed

end
