(* ===== verification/Limit_Order_Book.thy ===== *)
theory Limit_Order_Book
  imports Itch_Types Hierarchical_Bitset Static_Order_Map
begin

text \<open>
  The order book of \<^verbatim>\<open>src/book/LimitOrderBook.{h,cpp}\<close>: a pool of order nodes, an intrusive
  doubly linked list of nodes per side and price level, a free list threaded through the same
  nodes, the hash map from order reference numbers to tagged pool indices, and one bitset per
  side. Index pointers are 32-bit words with \<open>NULL_INDEX\<close> for null; every dereference goes
  through \<open>arr_get\<close>, so a result \<open>Some\<close> says that no access left its array.
\<close>

section \<open>The code\<close>

datatype Side = Buy | Sell

record Order =
  ord_ref :: u64
  ord_shares :: u32
  ord_price :: u32
  ord_next :: u32
  ord_prev :: u32

record PriceLevel =
  pl_head :: u32
  pl_tail :: u32

record lob =
  pool :: "Order list"
  bids :: "PriceLevel list"
  asks :: "PriceLevel list"
  orders :: order_map
  bids_bitset :: bitset
  asks_bitset :: bitset
  next_free_index :: u32

definition NULL_INDEX :: u32 where
  "NULL_INDEX = 0xFFFFFFFF"

definition MAX_TICKS :: nat where
  "MAX_TICKS = 100000"

definition SIDE_MASK :: u32 where
  "SIDE_MASK = push_bit 31 1"

definition INDEX_MASK :: u32 where
  "INDEX_MASK = NOT SIDE_MASK"

definition ORDER_MAP_SIZE :: nat where
  "ORDER_MAP_SIZE = 2 * 2 ^ 21"

text \<open>
  The constructor. \<open>ticks\<close> and \<open>map_size\<close> are the constants \<open>MAX_TICKS\<close> and
  \<open>ORDER_MAP_SIZE\<close> of the class; \<open>map_ok\<close>, \<open>pool_ok\<close> and \<open>page_size\<close> are the
  answers of the system. The members are built first, so a failing \<open>StaticOrderMap\<close> throws
  before the check of \<open>max_orders\<close>. The free list is threaded by a loop over the pool, whose
  nodes must lie inside the mapping.
\<close>

definition zero_order :: Order where
  "zero_order = \<lparr>ord_ref = 0, ord_shares = 0, ord_price = 0, ord_next = 0, ord_prev = 0\<rparr>"

fun thread_free_list :: "nat list \<Rightarrow> Order list \<Rightarrow> Order list option" where
  "thread_free_list [] p = Some p"
| "thread_free_list (i # is) p = do {
     o1 \<leftarrow> arr_get p (i - 1);
     thread_free_list is (p[i - 1 := o1\<lparr>ord_next := of_nat i\<rparr>])
   }"

definition LimitOrderBook ::
  "nat \<Rightarrow> nat \<Rightarrow> bool \<Rightarrow> bool \<Rightarrow> u64 \<Rightarrow> u64 \<Rightarrow> (error + lob) option" where
  "LimitOrderBook ticks map_size map_ok pool_ok page_size max_orders =
     (case StaticOrderMap map_ok page_size map_size of
        Inl e \<Rightarrow> Some (Inl e)
      | Inr om \<Rightarrow>
          if max_orders = 0 then Some (Inl Max_orders_zero)
          else
            let bytes_needed = max_orders * 32;
                page_aligned_bytes_needed = page_align page_size bytes_needed
            in if \<not> pool_ok then Some (Inl Mmap_failed)
               else do {
                 let p0 = replicate (unat page_aligned_bytes_needed div 32) zero_order;
                 p1 \<leftarrow> thread_free_list [1..<unat max_orders] p0;
                 o1 \<leftarrow> arr_get p1 (unat (max_orders - 1));
                 let p2 = p1[unat (max_orders - 1) := o1\<lparr>ord_next := NULL_INDEX\<rparr>];
                 Some (Inr \<lparr>pool = take (unat max_orders) p2,
                   bids = replicate ticks \<lparr>pl_head = NULL_INDEX, pl_tail = NULL_INDEX\<rparr>,
                   asks = replicate ticks \<lparr>pl_head = NULL_INDEX, pl_tail = NULL_INDEX\<rparr>,
                   orders = om,
                   bids_bitset = HierarchicalBitset ticks,
                   asks_bitset = HierarchicalBitset ticks,
                   next_free_index = 0\<rparr>)
               })"

text \<open>
  The members a \<^verbatim>\<open>Side\<close> template parameter selects by \<^verbatim>\<open>if constexpr\<close>, and the order side
  bit of a map value.
\<close>

fun side_levels :: "Side \<Rightarrow> lob \<Rightarrow> PriceLevel list" where
  "side_levels Buy s = bids s"
| "side_levels Sell s = asks s"

fun put_levels :: "Side \<Rightarrow> PriceLevel list \<Rightarrow> lob \<Rightarrow> lob" where
  "put_levels Buy ls s = s\<lparr>bids := ls\<rparr>"
| "put_levels Sell ls s = s\<lparr>asks := ls\<rparr>"

fun side_bitset :: "Side \<Rightarrow> lob \<Rightarrow> bitset" where
  "side_bitset Buy s = bids_bitset s"
| "side_bitset Sell s = asks_bitset s"

fun put_bitset :: "Side \<Rightarrow> bitset \<Rightarrow> lob \<Rightarrow> lob" where
  "put_bitset Buy b s = s\<lparr>bids_bitset := b\<rparr>"
| "put_bitset Sell b s = s\<lparr>asks_bitset := b\<rparr>"

fun side_tag :: "Side \<Rightarrow> u32" where
  "side_tag Buy = 0"
| "side_tag Sell = push_bit 31 1"

text \<open>\<^verbatim>\<open>price_level\<close> and \<^verbatim>\<open>new_order\<close> are references: the level and the pool are returned.\<close>

definition add_update_price_level ::
  "Order list \<Rightarrow> PriceLevel \<Rightarrow> u32 \<Rightarrow> (Order list \<times> PriceLevel) option" where
  "add_update_price_level p0 level new_order_idx = do {
     new_order \<leftarrow> arr_get p0 (unat new_order_idx);
     let p1 = p0[unat new_order_idx := new_order\<lparr>ord_prev := NULL_INDEX, ord_next := NULL_INDEX\<rparr>];
     let level1 = (if pl_head level = NULL_INDEX then level\<lparr>pl_head := new_order_idx\<rparr> else level);
     p2 \<leftarrow> (if pl_tail level1 \<noteq> NULL_INDEX then do {
              t \<leftarrow> arr_get p1 (unat (pl_tail level1));
              let p1' = p1[unat (pl_tail level1) := t\<lparr>ord_next := new_order_idx\<rparr>];
              o1 \<leftarrow> arr_get p1' (unat new_order_idx);
              Some (p1'[unat new_order_idx := o1\<lparr>ord_prev := pl_tail level1\<rparr>])
            } else Some p1);
     Some (p2, level1\<lparr>pl_tail := new_order_idx\<rparr>)
   }"

definition execute_update_price_level :: "PriceLevel \<Rightarrow> Order \<Rightarrow> u32 \<Rightarrow> PriceLevel" where
  "execute_update_price_level level order order_idx =
     (let level1 = (if pl_head level = order_idx then level\<lparr>pl_head := ord_next order\<rparr> else level)
      in if pl_tail level1 = order_idx then level1\<lparr>pl_tail := ord_prev order\<rparr> else level1)"

definition add_order_impl ::
  "Side \<Rightarrow> lob \<Rightarrow> NormalizedAddOrder \<Rightarrow> ((error + unit) \<times> lob) option" where
  "add_order_impl side s order = do {
     let new_order_idx = next_free_index s;
     free_order \<leftarrow> arr_get (pool s) (unat (next_free_index s));
     let s1 = s\<lparr>next_free_index := ord_next free_order\<rparr>;
     let new_order = free_order\<lparr>ord_ref := na_order_reference_number order,
                                ord_price := na_price order, ord_shares := na_shares order\<rparr>;
     let s2 = s1\<lparr>pool := (pool s1)[unat new_order_idx := new_order]\<rparr>;
     (r, om) \<leftarrow> assign_bucket (orders s2) (ord_ref new_order) (side_tag side OR new_order_idx);
     let s3 = s2\<lparr>orders := om\<rparr>;
     case r of
       Inl e \<Rightarrow> Some (Inl e, s3)
     | Inr _ \<Rightarrow> do {
         level \<leftarrow> arr_get (side_levels side s3) (unat (ord_price new_order));
         (p, level') \<leftarrow> add_update_price_level (pool s3) level new_order_idx;
         let s4 = put_levels side ((side_levels side s3)[unat (ord_price new_order) := level'])
                    (s3\<lparr>pool := p\<rparr>);
         b \<leftarrow> set_price_level (side_bitset side s4) (ucast (ord_price new_order));
         Some (Inr (), put_bitset side b s4)
       }
   }"

text \<open>\<open>MAX_TICKS\<close> is the extent of the arrays \<open>bids\<close> and \<open>asks\<close>.\<close>

definition add_order :: "lob \<Rightarrow> NormalizedAddOrder \<Rightarrow> ((error + unit) \<times> lob) option" where
  "add_order s parsed_order =
     (if length (bids s) \<le> unat (na_price parsed_order) then Some (Inr (), s)
      else if next_free_index s = NULL_INDEX then Some (Inr (), s)
      else if na_indicator parsed_order = 0x42 then add_order_impl Buy s parsed_order
      else add_order_impl Sell s parsed_order)"

text \<open>\<^verbatim>\<open>unlink_neighbours\<close> is the first block of \<^verbatim>\<open>release_order_to_pool\<close>.\<close>

definition unlink_neighbours :: "Order list \<Rightarrow> u32 \<Rightarrow> Order list option" where
  "unlink_neighbours p0 order_idx = do {
     order \<leftarrow> arr_get p0 (unat order_idx);
     p1 \<leftarrow> (if ord_prev order \<noteq> NULL_INDEX then do {
              o1 \<leftarrow> arr_get p0 (unat (ord_prev order));
              Some (p0[unat (ord_prev order) := o1\<lparr>ord_next := ord_next order\<rparr>])
            } else Some p0);
     order1 \<leftarrow> arr_get p1 (unat order_idx);
     if ord_next order1 \<noteq> NULL_INDEX then do {
       o2 \<leftarrow> arr_get p1 (unat (ord_next order1));
       Some (p1[unat (ord_next order1) := o2\<lparr>ord_prev := ord_prev order1\<rparr>])
     } else Some p1
   }"

definition release_order_to_pool :: "Side \<Rightarrow> lob \<Rightarrow> u32 \<Rightarrow> lob option" where
  "release_order_to_pool side s order_idx = do {
     p \<leftarrow> unlink_neighbours (pool s) order_idx;
     order \<leftarrow> arr_get p (unat order_idx);
     level \<leftarrow> arr_get (side_levels side s) (unat (ord_price order));
     let level' = execute_update_price_level level order order_idx;
     let s1 = put_levels side ((side_levels side s)[unat (ord_price order) := level'])
                (s\<lparr>pool := p\<rparr>);
     s2 \<leftarrow> (if pl_head level' = NULL_INDEX then do {
              b \<leftarrow> clear_price_level (side_bitset side s1) (ucast (ord_price order));
              Some (put_bitset side b s1)
            } else Some s1);
     om \<leftarrow> erase_key (orders s2) (ord_ref order);
     let s3 = s2\<lparr>orders := om,
                 pool := (pool s2)[unat order_idx := order\<lparr>ord_next := next_free_index s2\<rparr>]\<rparr>;
     Some (s3\<lparr>next_free_index := order_idx\<rparr>)
   }"

definition cancel_order :: "lob \<Rightarrow> u64 \<Rightarrow> lob option" where
  "cancel_order s key = do {
     it \<leftarrow> find_bucket (orders s) key;
     case it of
       None \<Rightarrow> Some s
     | Some pos \<Rightarrow> do {
         tagged_order_idx \<leftarrow> bucket_pool_idx (orders s) pos;
         let order_idx = tagged_order_idx AND INDEX_MASK;
         let is_sell = (tagged_order_idx AND SIDE_MASK \<noteq> 0);
         if is_sell then release_order_to_pool Sell s order_idx
         else release_order_to_pool Buy s order_idx
       }
   }"

definition execute_order :: "lob \<Rightarrow> NormalizedOrderExecuted \<Rightarrow> ((error + unit) \<times> lob) option" where
  "execute_order s order = do {
     it \<leftarrow> find_bucket (orders s) (ne_order_reference_number order);
     case it of
       None \<Rightarrow> Some (Inr (), s)
     | Some pos \<Rightarrow> do {
         tagged_order_idx \<leftarrow> bucket_pool_idx (orders s) pos;
         let order_idx = tagged_order_idx AND INDEX_MASK;
         let is_sell = (tagged_order_idx AND SIDE_MASK \<noteq> 0);
         curr_order \<leftarrow> arr_get (pool s) (unat order_idx);
         if ord_shares curr_order < ne_shares order then Some (Inl Not_enough_shares, s)
         else do {
           let curr_order' = curr_order\<lparr>ord_shares := ord_shares curr_order - ne_shares order\<rparr>;
           let s1 = s\<lparr>pool := (pool s)[unat order_idx := curr_order']\<rparr>;
           if ord_shares curr_order' = 0 then do {
             s2 \<leftarrow> (if is_sell then release_order_to_pool Sell s1 order_idx
                   else release_order_to_pool Buy s1 order_idx);
             Some (Inr (), s2)
           } else Some (Inr (), s1)
         }
       }
   }"

definition lob_best_bid :: "lob \<Rightarrow> u64 option" where
  "lob_best_bid s = get_best_bid (bids_bitset s)"

definition lob_best_offer :: "lob \<Rightarrow> u64 option" where
  "lob_best_offer s = get_best_offer (asks_bitset s)"

text \<open>
  The dispatch table of the consumer thread in \<^verbatim>\<open>src/main.cpp\<close>, and its loop over the orders
  popped from the queue; an exception ends the thread.
\<close>

fun dispatch :: "lob \<Rightarrow> NormalizedOrder \<Rightarrow> ((error + unit) \<times> lob) option" where
  "dispatch s (AddOrder r) = add_order s r"
| "dispatch s (ExecuteOrder r) = execute_order s r"
| "dispatch s (CancelOrder r) = do {
     s' \<leftarrow> cancel_order s (nc_order_reference_number r);
     Some (Inr (), s')
   }"

fun consume_orders :: "NormalizedOrder list \<Rightarrow> lob \<Rightarrow> ((error + unit) \<times> lob) option" where
  "consume_orders [] s = Some (Inr (), s)"
| "consume_orders (r # rs) s = do {
     (res, s') \<leftarrow> dispatch s r;
     case res of Inl e \<Rightarrow> Some (Inl e, s') | Inr _ \<Rightarrow> consume_orders rs s'
   }"

end
