(* ===== verification/Book_Invariant.thy ===== *)
theory Book_Invariant
  imports Limit_Order_Book
begin

text \<open>
  The representation invariant of the order book and its preservation. Every node of the pool
  is on exactly one list: the free list or the queue of one side and price. The queues are
  doubly linked from head to tail, the map points from reference numbers to queued nodes, and
  a bitset level is set exactly when its queue is not empty.
\<close>

section \<open>Linked lists in the pool\<close>

text \<open>
  \<open>first_ptr\<close> and \<open>last_ptr\<close> are the pointers to the ends of a list of nodes;
  \<open>dseg\<close> is a doubly linked segment between the outer pointers \<open>p\<close> and \<open>n\<close>;
  \<open>free_chain\<close> is a singly linked list that ends in \<open>NULL_INDEX\<close>.
\<close>

fun first_ptr :: "nat list \<Rightarrow> u32 \<Rightarrow> u32" where
  "first_ptr [] n = n"
| "first_ptr (x # xs) n = of_nat x"

definition last_ptr :: "u32 \<Rightarrow> nat list \<Rightarrow> u32" where
  "last_ptr p xs = (if xs = [] then p else of_nat (last xs))"

fun dseg :: "Order list \<Rightarrow> u32 \<Rightarrow> nat list \<Rightarrow> u32 \<Rightarrow> bool" where
  "dseg h p [] n = True"
| "dseg h p (x # xs) n =
     (ord_prev (h ! x) = p \<and> ord_next (h ! x) = first_ptr xs n \<and> dseg h (of_nat x) xs n)"

fun free_chain :: "Order list \<Rightarrow> u32 \<Rightarrow> nat list \<Rightarrow> bool" where
  "free_chain h p [] = (p = NULL_INDEX)"
| "free_chain h p (x # xs) = (p = of_nat x \<and> free_chain h (ord_next (h ! x)) xs)"

lemma last_ptr_simps [simp]: "last_ptr p [] = p" "last_ptr p (xs @ [x]) = of_nat x"
  "last_ptr p (x # xs) = last_ptr (of_nat x) xs"
  by (simp_all add: last_ptr_def)

lemma first_ptr_append: "first_ptr (xs @ ys) n = first_ptr xs (first_ptr ys n)"
  by (cases xs) simp_all

lemma dseg_append:
  "dseg h p (xs @ ys) n \<longleftrightarrow> dseg h p xs (first_ptr ys n) \<and> dseg h (last_ptr p xs) ys n"
  by (induction xs arbitrary: p) (simp_all add: first_ptr_append)

text \<open>Moving the ends of a segment: only the outer links of its first and last node change.\<close>

lemma dseg_relink:
  assumes "dseg h p xs n" "distinct xs"
    and "\<And>x. x \<in> set xs \<Longrightarrow> ord_prev (h' ! x) = (if x = hd xs then p' else ord_prev (h ! x))"
    and "\<And>x. x \<in> set xs \<Longrightarrow> ord_next (h' ! x) = (if x = last xs then n' else ord_next (h ! x))"
  shows "dseg h' p' xs n'"
  using assms
proof (induction xs arbitrary: p p')
  case (Cons x xs)
  have tail: "dseg h' (of_nat x) xs n'"
  proof (rule Cons.IH)
    show "dseg h (of_nat x) xs n" "distinct xs" using Cons.prems(1,2) by auto
    fix y assume y: "y \<in> set xs"
    then have "y \<noteq> x" using Cons.prems(2) by auto
    moreover have "ord_prev (h ! hd xs) = of_nat x" using y Cons.prems(1) by (cases xs) auto
    ultimately show "ord_prev (h' ! y) = (if y = hd xs then of_nat x else ord_prev (h ! y))"
      using Cons.prems(3) [of y] y by auto
    show "ord_next (h' ! y) = (if y = last xs then n' else ord_next (h ! y))"
      using Cons.prems(4) [of y] y by auto
  qed
  show ?case
  proof (cases xs)
    case Nil
    then show ?thesis using Cons.prems(3,4) [of x] by simp
  next
    case (Cons y ys)
    then have "x \<noteq> last xs" using \<open>distinct (x # xs)\<close> by (metis distinct.simps(2) last_in_set list.discI)
    then show ?thesis using Cons Cons.prems(1) Cons.prems(3,4) [of x] tail by auto
  qed
qed simp

lemma dseg_cong:
  assumes "dseg h p xs n"
    and "\<And>x. x \<in> set xs \<Longrightarrow> ord_prev (h' ! x) = ord_prev (h ! x) \<and> ord_next (h' ! x) = ord_next (h ! x)"
  shows "dseg h' p xs n"
  using assms by (induction xs arbitrary: p) auto

lemma free_chain_cong:
  assumes "free_chain h p xs" "\<And>x. x \<in> set xs \<Longrightarrow> ord_next (h' ! x) = ord_next (h ! x)"
  shows "free_chain h' p xs"
  using assms by (induction xs arbitrary: p) auto

section \<open>Index pointers\<close>

lemma unat_ptr: "i < 2 ^ 31 \<Longrightarrow> unat (of_nat i :: u32) = i"
  by (simp add: unat_of_nat take_bit_nat_eq_self)

lemma ptr_not_null: "i < 2 ^ 31 \<Longrightarrow> (of_nat i :: u32) \<noteq> NULL_INDEX"
  using unat_ptr [of i] by (auto simp: NULL_INDEX_def)

lemma ptr_inj: "i < 2 ^ 31 \<Longrightarrow> j < 2 ^ 31 \<Longrightarrow> (of_nat i :: u32) = of_nat j \<longleftrightarrow> i = j"
  by (metis unat_ptr)

lemma bit_31_ptr:
  assumes "i < 2 ^ 31"
  shows "\<not> bit (of_nat i :: u32) 31"
proof -
  have "bit (unat (of_nat i :: u32)) 31 \<longleftrightarrow> bit (of_nat i :: u32) 31" by (simp add: bit_unsigned_iff)
  then show ?thesis using assms by (simp only: unat_ptr [OF assms]) (simp add: bit_iff_odd)
qed

text \<open>The side bit and the index of a map value are recovered by the two masks.\<close>

lemma bit_side_mask: "bit SIDE_MASK n \<longleftrightarrow> n = 31"
  by (simp only: SIDE_MASK_def bit_push_bit_iff) (auto simp: bit_1_iff)

lemma side_tag_mask: "side_tag sd = (if sd = Sell then SIDE_MASK else 0)"
  by (cases sd) (simp_all add: SIDE_MASK_def)

lemma untag_index:
  assumes "i < 2 ^ 31"
  shows "(side_tag sd OR of_nat i) AND INDEX_MASK = of_nat i"
  using bit_31_ptr [OF assms]
  by (intro bit_word_eqI) (auto simp: side_tag_mask INDEX_MASK_def bit_side_mask bit_simps)

lemma untag_side:
  assumes "i < 2 ^ 31"
  shows "(side_tag sd OR of_nat i) AND SIDE_MASK \<noteq> 0 \<longleftrightarrow> sd = Sell"
proof -
  have "w AND SIDE_MASK = (if bit w 31 then SIDE_MASK else 0)" for w :: u32
    by (intro bit_word_eqI) (auto simp: bit_side_mask bit_simps)
  moreover have "SIDE_MASK \<noteq> 0" by (simp add: SIDE_MASK_def)
  ultimately show ?thesis using bit_31_ptr [OF assms]
    by (auto simp: side_tag_mask bit_side_mask bit_or_iff)
qed

section \<open>The invariant\<close>

text \<open>
  Ghost state: \<open>q\<close> gives the nodes queued at a side and price, \<open>fl\<close> the free nodes and
  \<open>loc\<close> the queue a node is on. \<open>lists_inv\<close> is about the pool, the level arrays and the free
  list; \<open>index_inv\<close> about the map; \<open>bits_inv\<close> about the bitsets.
\<close>

type_synonym queues = "Side \<Rightarrow> nat \<Rightarrow> nat list"
type_synonym location = "nat \<Rightarrow> (Side \<times> nat) option"

definition lists_inv ::
  "Order list \<Rightarrow> (Side \<Rightarrow> PriceLevel list) \<Rightarrow> nat \<Rightarrow> u32 \<Rightarrow> queues \<Rightarrow> nat list \<Rightarrow> location \<Rightarrow> bool" where
  "lists_inv h lv ticks free q fl loc \<longleftrightarrow>
     length h \<le> 2 ^ 31 \<and>
     (\<forall>sd. length (lv sd) = ticks) \<and>
     (\<forall>sd p. distinct (q sd p)) \<and> distinct fl \<and>
     (\<forall>sd p i. i \<in> set (q sd p) \<longleftrightarrow> i < length h \<and> loc i = Some (sd, p)) \<and>
     (\<forall>i. i \<in> set fl \<longleftrightarrow> i < length h \<and> loc i = None) \<and>
     (\<forall>i sd p. i < length h \<longrightarrow> loc i = Some (sd, p) \<longrightarrow> p < ticks \<and> unat (ord_price (h ! i)) = p) \<and>
     (\<forall>sd p. p < ticks \<longrightarrow>
        pl_head (lv sd ! p) = first_ptr (q sd p) NULL_INDEX \<and>
        pl_tail (lv sd ! p) = last_ptr NULL_INDEX (q sd p) \<and>
        dseg h NULL_INDEX (q sd p) NULL_INDEX) \<and>
     free_chain h free fl"

definition index_inv :: "Order list \<Rightarrow> (u64 \<rightharpoonup> u32) \<Rightarrow> location \<Rightarrow> bool" where
  "index_inv h f loc \<longleftrightarrow>
     (\<forall>key v. f key = Some v \<longrightarrow>
        (\<exists>i sd p. i < length h \<and> loc i = Some (sd, p) \<and> ord_ref (h ! i) = key \<and>
           v = side_tag sd OR of_nat i))"

definition bits_inv :: "(Side \<Rightarrow> bitset) \<Rightarrow> nat \<Rightarrow> queues \<Rightarrow> bool" where
  "bits_inv b ticks q \<longleftrightarrow>
     (\<forall>sd. bitset_inv ticks (b sd) \<and> levels (b sd) = {p. p < ticks \<and> q sd p \<noteq> []})"

definition book_rel :: "lob \<Rightarrow> queues \<Rightarrow> nat list \<Rightarrow> location \<Rightarrow> bool" where
  "book_rel s q fl loc \<longleftrightarrow>
     lists_inv (pool s) (\<lambda>sd. side_levels sd s) (length (bids s)) (next_free_index s) q fl loc \<and>
     map_inv (orders s) \<and> length (pool s) \<le> length (buckets (orders s)) \<and>
     index_inv (pool s) (lookup (orders s)) loc \<and>
     bits_inv (\<lambda>sd. side_bitset sd s) (length (bids s)) q"

definition book_inv :: "lob \<Rightarrow> bool" where
  "book_inv s \<longleftrightarrow> (\<exists>q fl loc. book_rel s q fl loc)"

section \<open>Appending a node to a queue\<close>

text \<open>What a node carries besides its links.\<close>

definition node_data :: "Order \<Rightarrow> u64 \<times> u32 \<times> u32" where
  "node_data r = (ord_ref r, ord_shares r, ord_price r)"

lemma add_update_price_level_effect:
  assumes n: "length h \<le> 2 ^ 31" and i: "i < length h" "i \<notin> set xs" and xs: "set xs \<subseteq> {..<length h}"
    and lev: "pl_head level = first_ptr xs NULL_INDEX" "pl_tail level = last_ptr NULL_INDEX xs"
  shows "\<exists>h'. add_update_price_level h level (of_nat i) =
      Some (h', \<lparr>pl_head = first_ptr (xs @ [i]) NULL_INDEX, pl_tail = of_nat i\<rparr>) \<and>
    length h' = length h \<and>
    (\<forall>x<length h. node_data (h' ! x) = node_data (h ! x) \<and>
       ord_next (h' ! x) = (if x = i then NULL_INDEX else if xs \<noteq> [] \<and> x = last xs then of_nat i
                            else ord_next (h ! x)) \<and>
       ord_prev (h' ! x) = (if x = i then last_ptr NULL_INDEX xs else ord_prev (h ! x)))"
proof -
  have small: "x < 2 ^ 31" if "x < length h" for x using that n by linarith
  note ui = unat_ptr [OF small [OF i(1)]]
  show ?thesis
  proof (cases xs rule: rev_cases)
    case Nil
    then show ?thesis using i lev ui
      by (cases level) (simp add: add_update_price_level_def node_data_def nth_list_update)
  next
    case (snoc ys t)
    then have t: "t < length h" "t \<noteq> i" using i xs by auto
    note ut = unat_ptr [OF small [OF t(1)]] and pt = ptr_not_null [OF small [OF t(1)]]
    have hd: "first_ptr xs NULL_INDEX \<noteq> NULL_INDEX"
      using snoc xs ptr_not_null [OF small] by (cases ys) auto
    have "first_ptr (xs @ [i]) NULL_INDEX = first_ptr xs NULL_INDEX" using snoc by (cases ys) auto
    moreover have "last_ptr NULL_INDEX xs = of_nat t" using snoc by simp
    ultimately show ?thesis using i lev ui ut pt t hd snoc
      by (cases level) (auto simp: add_update_price_level_def node_data_def nth_list_update Let_def)
  qed
qed

lemma lists_invD:
  assumes "lists_inv h lv ticks free q fl loc"
  shows "length h \<le> 2 ^ 31" "length (lv sd) = ticks" "distinct (q sd p)"
    "i \<in> set (q sd p) \<longleftrightarrow> i < length h \<and> loc i = Some (sd, p)"
    "distinct fl" "i \<in> set fl \<longleftrightarrow> i < length h \<and> loc i = None" "free_chain h free fl"
    "i < length h \<Longrightarrow> loc i = Some (sd, p) \<Longrightarrow> p < ticks \<and> unat (ord_price (h ! i)) = p"
    "p < ticks \<Longrightarrow> pl_head (lv sd ! p) = first_ptr (q sd p) NULL_INDEX"
    "p < ticks \<Longrightarrow> pl_tail (lv sd ! p) = last_ptr NULL_INDEX (q sd p)"
    "p < ticks \<Longrightarrow> dseg h NULL_INDEX (q sd p) NULL_INDEX"
  using assms unfolding lists_inv_def by auto

lemma lists_inv_append:
  assumes inv: "lists_inv h lv ticks free q (i # fl) loc" and p: "p < ticks"
    and len: "length h' = length h"
    and data: "\<And>x. x < length h \<Longrightarrow> x \<noteq> i \<Longrightarrow> ord_price (h' ! x) = ord_price (h ! x)"
    and price: "unat (ord_price (h' ! i)) = p"
    and nxt: "\<And>x. x < length h \<Longrightarrow> ord_next (h' ! x) = (if x = i then NULL_INDEX
        else if q sd p \<noteq> [] \<and> x = last (q sd p) then of_nat i else ord_next (h ! x))"
    and prv: "\<And>x. x < length h \<Longrightarrow> ord_prev (h' ! x) = (if x = i then last_ptr NULL_INDEX (q sd p)
        else ord_prev (h ! x))"
    and level: "level = \<lparr>pl_head = first_ptr (q sd p @ [i]) NULL_INDEX, pl_tail = of_nat i\<rparr>"
  shows "lists_inv h' (lv(sd := (lv sd)[p := level])) ticks (ord_next (h ! i))
      (q(sd := (q sd)(p := q sd p @ [i]))) fl (loc(i := Some (sd, p)))"
proof -
  let ?q = "q(sd := (q sd)(p := q sd p @ [i]))" and ?loc = "loc(i := Some (sd, p))"
  let ?lv = "lv(sd := (lv sd)[p := level])"
  note I = lists_invD [OF inv]
  have i: "i < length h" "loc i = None" "i \<notin> set fl" using I(5) I(6) [of i] by auto
  have iq: "i \<notin> set (q sd' p')" for sd' p' using i(2) by (simp add: I(4))
  have lastq: "last (q sd p) < length h \<and> loc (last (q sd p)) = Some (sd, p)" if "q sd p \<noteq> []"
    using last_in_set [OF that] by (simp only: I(4))
  have other: "dseg h' NULL_INDEX (q sd' p') NULL_INDEX" if "p' < ticks" "(sd', p') \<noteq> (sd, p)" for sd' p'
  proof (rule dseg_cong [OF I(11) [OF that(1)]])
    fix x assume "x \<in> set (q sd' p')"
    then have x: "x < length h" "loc x = Some (sd', p')" by (simp_all only: I(4))
    then have "x \<noteq> i" "q sd p \<noteq> [] \<Longrightarrow> x \<noteq> last (q sd p)" using i(2) lastq that(2) by auto
    then show "ord_prev (h' ! x) = ord_prev (h ! x) \<and> ord_next (h' ! x) = ord_next (h ! x)"
      using nxt [OF x(1)] prv [OF x(1)] by auto
  qed
  have "dseg h' NULL_INDEX (q sd p) (of_nat i)"
  proof (rule dseg_relink [OF I(11) [OF p] I(3)])
    fix x assume xq: "x \<in> set (q sd p)"
    then have x: "x < length h" "x \<noteq> i" "q sd p \<noteq> []" using iq I(4) [of x sd p] by force+
    have "ord_prev (h ! hd (q sd p)) = NULL_INDEX" using I(11) [OF p, of sd] x(3) by (cases "q sd p") auto
    then show "ord_prev (h' ! x) = (if x = hd (q sd p) then NULL_INDEX else ord_prev (h ! x))"
      using prv [OF x(1)] x(2) by auto
    show "ord_next (h' ! x) = (if x = last (q sd p) then of_nat i else ord_next (h ! x))"
      using nxt [OF x(1)] x by auto
  qed
  then have appended: "dseg h' NULL_INDEX (q sd p @ [i]) NULL_INDEX"
    using nxt [OF i(1)] prv [OF i(1)] by (simp add: dseg_append)
  have free: "free_chain h' (ord_next (h ! i)) fl"
  proof (rule free_chain_cong)
    show "free_chain h (ord_next (h ! i)) fl" using I(7) by simp
    fix x assume "x \<in> set fl"
    then have "x < length h" "x \<noteq> i" "loc x = None" using I(6) [of x] i(3) by auto
    then show "ord_next (h' ! x) = ord_next (h ! x)" using nxt [of x] lastq by auto
  qed
  show ?thesis unfolding lists_inv_def len
  proof (intro conjI allI impI)
    show "length h \<le> 2 ^ 31" by (rule I(1))
    show "length (?lv sd') = ticks" for sd' using I(2) by simp
    show "distinct (?q sd' p')" for sd' p' using I(3) [of sd' p'] iq by auto
    show "distinct fl" using I(5) by simp
    show "x \<in> set (?q sd' p') \<longleftrightarrow> x < length h \<and> ?loc x = Some (sd', p')" for sd' p' x
      using I(4) [of x sd' p'] i by auto
    show "x \<in> set fl \<longleftrightarrow> x < length h \<and> ?loc x = None" for x using I(6) [of x] i by auto
    show "p' < ticks" "unat (ord_price (h' ! x)) = p'" if "x < length h" "?loc x = Some (sd', p')" for x sd' p'
      using I(8) [of x sd' p'] data price p that by (auto split: if_splits)
    show "free_chain h' (ord_next (h ! i)) fl" by (rule free)
    fix sd' p' assume p': "p' < ticks"
    show "pl_head (?lv sd' ! p') = first_ptr (?q sd' p') NULL_INDEX"
      using I(2) [of sd] I(9) [OF p', of sd'] p level by (auto simp: nth_list_update)
    show "pl_tail (?lv sd' ! p') = last_ptr NULL_INDEX (?q sd' p')"
      using I(2) [of sd] I(10) [OF p', of sd'] p level by (auto simp: nth_list_update)
    show "dseg h' NULL_INDEX (?q sd' p') NULL_INDEX"
      using other [OF p', of sd'] appended by auto
  qed
qed

section \<open>Selecting by side\<close>

lemma side_put [simp]:
  "side_levels sd' (put_levels sd ls s) = (if sd' = sd then ls else side_levels sd' s)"
  "side_bitset sd' (put_bitset sd b s) = (if sd' = sd then b else side_bitset sd' s)"
  "side_levels sd' (put_bitset sd b s) = side_levels sd' s"
  "side_bitset sd' (put_levels sd ls s) = side_bitset sd' s"
  "bids (put_bitset sd b s) = bids s"
  "length (bids (put_levels sd ls s)) = (if sd = Buy then length ls else length (bids s))"
  by (cases sd; cases sd'; simp)+

lemma side_put_rest [simp]:
  "pool (put_levels sd ls s) = pool s" "orders (put_levels sd ls s) = orders s"
  "next_free_index (put_levels sd ls s) = next_free_index s"
  "pool (put_bitset sd b s) = pool s" "orders (put_bitset sd b s) = orders s"
  "next_free_index (put_bitset sd b s) = next_free_index s"
  by (cases sd; simp)+

lemma side_other_fields [simp]:
  "side_levels sd (s\<lparr>pool := h\<rparr>) = side_levels sd s" "side_bitset sd (s\<lparr>pool := h\<rparr>) = side_bitset sd s"
  "side_levels sd (s\<lparr>orders := m\<rparr>) = side_levels sd s" "side_bitset sd (s\<lparr>orders := m\<rparr>) = side_bitset sd s"
  "side_levels sd (s\<lparr>next_free_index := n\<rparr>) = side_levels sd s"
  "side_bitset sd (s\<lparr>next_free_index := n\<rparr>) = side_bitset sd s"
  by (cases sd; simp)+

lemma ucast_price: "(ucast (w :: u32) :: u64) = of_nat (unat w)"
  by transfer simp

text \<open>The sizes no operation changes.\<close>

definition same_sizes :: "lob \<Rightarrow> lob \<Rightarrow> bool" where
  "same_sizes s s' \<longleftrightarrow> length (pool s') = length (pool s) \<and> length (bids s') = length (bids s) \<and>
     length (buckets (orders s')) = length (buckets (orders s))"

section \<open>Adding an order\<close>

lemma index_invE:
  assumes "index_inv h f loc" "f key = Some v"
  obtains i sd p where "i < length h" "loc i = Some (sd, p)" "ord_ref (h ! i) = key"
    "v = side_tag sd OR of_nat i"
  using assms unfolding index_inv_def by blast

lemma card_index:
  assumes ix: "index_inv h f loc" and i: "i < length h" "loc i = None"
  shows "card (dom f) < length h"
proof -
  have sub: "dom f \<subseteq> (\<lambda>x. ord_ref (h ! x)) ` ({..<length h} - {i})"
  proof
    fix key assume "key \<in> dom f"
    then obtain v where "f key = Some v" by auto
    then obtain x sd p where "x < length h" "loc x = Some (sd, p)" "ord_ref (h ! x) = key"
      by (rule index_invE [OF ix])
    then show "key \<in> (\<lambda>x. ord_ref (h ! x)) ` ({..<length h} - {i})" using i by force
  qed
  have "card (dom f) \<le> card ({..<length h} - {i})"
    by (rule order_trans [OF card_mono [OF _ sub] card_image_le]) auto
  also have "\<dots> < length h" using i by simp
  finally show ?thesis .
qed

lemma index_inv_add:
  assumes ix: "index_inv h f loc" and len: "length h' = length h" and i: "i < length h" "loc i = None"
    and data: "\<And>x. x < length h \<Longrightarrow> ord_ref (h' ! x) = (if x = i then key else ord_ref (h ! x))"
  shows "index_inv h' (f(key \<mapsto> side_tag sd OR of_nat i)) (loc(i := Some (sd, p)))"
  unfolding index_inv_def
proof (intro allI impI)
  fix k v assume f: "(f(key \<mapsto> side_tag sd OR of_nat i)) k = Some v"
  show "\<exists>j sd' p'. j < length h' \<and> (loc(i := Some (sd, p))) j = Some (sd', p') \<and>
    ord_ref (h' ! j) = k \<and> v = side_tag sd' OR of_nat j"
  proof (cases "k = key")
    case True
    then show ?thesis using f i data [of i] len by auto
  next
    case False
    then have "f k = Some v" using f by simp
    then obtain j sd' p' where j: "j < length h" "loc j = Some (sd', p')" "ord_ref (h ! j) = k"
      "v = side_tag sd' OR of_nat j" by (rule index_invE [OF ix])
    then have "j \<noteq> i" using i by auto
    then show ?thesis using j data [of j] len by auto
  qed
qed

lemma bits_inv_set:
  assumes bits: "bits_inv b ticks q" and p: "p < ticks"
    and b': "bitset_inv ticks b'" "levels b' = insert p (levels (b sd))"
  shows "bits_inv (b(sd := b')) ticks (q(sd := (q sd)(p := q sd p @ [i])))"
  using assms unfolding bits_inv_def by auto

lemma book_relD:
  assumes "book_rel s q fl loc"
  shows "lists_inv (pool s) (\<lambda>sd. side_levels sd s) (length (bids s)) (next_free_index s) q fl loc"
    "map_inv (orders s)" "length (pool s) \<le> length (buckets (orders s))"
    "index_inv (pool s) (lookup (orders s)) loc"
    "bits_inv (\<lambda>sd. side_bitset sd s) (length (bids s)) q"
  using assms unfolding book_rel_def by blast+

lemma bits_invD:
  assumes "bits_inv b ticks q"
  shows "bitset_inv ticks (b sd)" "levels (b sd) = {p. p < ticks \<and> q sd p \<noteq> []}"
  using assms unfolding bits_inv_def by blast+

lemma add_order_impl_rel:
  assumes rel: "book_rel s q (i # fl) loc" and p: "unat (na_price r) < length (bids s)"
  defines "p \<equiv> unat (na_price r)"
  shows "\<exists>s'. add_order_impl sd s r = Some (Inr (), s') \<and> same_sizes s s' \<and>
    book_rel s' (q(sd := (q sd)(p := q sd p @ [i]))) fl (loc(i := Some (sd, p))) \<and>
    lookup (orders s') = (lookup (orders s))(na_order_reference_number r \<mapsto> side_tag sd OR of_nat i) \<and>
    (\<forall>x<length (pool s). node_data (pool s' ! x) =
       (if x = i then (na_order_reference_number r, na_shares r, na_price r) else node_data (pool s ! x)))"
proof -
  note R = book_relD [OF rel] and I = lists_invD [OF R(1)]
  let ?n = "length (pool s)" and ?key = "na_order_reference_number r" and ?ticks = "length (bids s)"
  let ?node = "(pool s ! i)\<lparr>ord_ref := ?key, ord_price := na_price r, ord_shares := na_shares r\<rparr>"
  let ?h1 = "(pool s)[i := ?node]" and ?q = "q(sd := (q sd)(p := q sd p @ [i]))"
  have i: "i < ?n" "loc i = None" using I(6) [of i] by auto
  have free: "next_free_index s = of_nat i" using I(7) by simp
  have ui: "unat (of_nat i :: u32) = i" using unat_ptr i I(1) by simp
  have pt: "p < ?ticks" using p p_def by simp
  have iq: "i \<notin> set (q sd p)" using I(4) [of i sd p] i by simp
  have qs: "set (q sd p) \<subseteq> {..<?n}" using I(4) by auto
  obtain m' where m': "assign_bucket (orders s) ?key (side_tag sd OR of_nat i) = Some (Inr (), m')"
    "map_inv m'" "lookup m' = (lookup (orders s))(?key \<mapsto> side_tag sd OR of_nat i)"
    "length (buckets m') = length (buckets (orders s))"
    using om.assign_E [OF R(2) disjI2 [OF order_less_le_trans [OF card_index [OF R(4) i] R(3)]]] by blast
  let ?level = "\<lparr>pl_head = first_ptr (q sd p @ [i]) NULL_INDEX, pl_tail = of_nat i\<rparr>"
  obtain h' where h': "add_update_price_level ?h1 (side_levels sd s ! p) (of_nat i) = Some (h', ?level)"
    "length h' = ?n" and links: "\<forall>x<?n. node_data (h' ! x) = node_data (?h1 ! x) \<and>
       ord_next (h' ! x) = (if x = i then NULL_INDEX else if q sd p \<noteq> [] \<and> x = last (q sd p)
         then of_nat i else ord_next (?h1 ! x)) \<and>
       ord_prev (h' ! x) = (if x = i then last_ptr NULL_INDEX (q sd p) else ord_prev (?h1 ! x))"
    using add_update_price_level_effect [of ?h1 i "q sd p" "side_levels sd s ! p"] I(1) i(1) iq qs
      I(9,10) [OF pt, of sd] by (simp only: length_list_update) blast
  obtain b' where b': "set_price_level (side_bitset sd s) (of_nat p) = Some b'" "bitset_inv ?ticks b'"
    "levels b' = insert p (levels (side_bitset sd s))"
    using bs.set_E [OF bits_invD(1) [OF R(5)] pt] by blast
  have data: "node_data (h' ! x) = (if x = i then (?key, na_shares r, na_price r) else node_data (pool s ! x))"
    if "x < ?n" for x using conjunct1 [OF links [rule_format, OF that]] that i
    by (cases "x = i") (simp_all add: node_data_def)
  define s' where "s' = put_bitset sd b' (put_levels sd ((side_levels sd s)[p := ?level])
    (s\<lparr>next_free_index := ord_next (pool s ! i), orders := m', pool := h'\<rparr>))"
  have run: "add_order_impl sd s r = Some (Inr (), s')"
    using i(1) m'(1) h'(1) b'(1) pt I(2) [of sd] unfolding add_order_impl_def s'_def p_def
    by (simp add: free ui Let_def)
  have "lists_inv h' ((\<lambda>sd. side_levels sd s)(sd := (side_levels sd s)[p := ?level])) ?ticks
    (ord_next (pool s ! i)) ?q fl (loc(i := Some (sd, p)))"
  proof (rule lists_inv_append [OF R(1) pt h'(2)])
    show "ord_price (h' ! x) = ord_price (pool s ! x)" if "x < ?n" "x \<noteq> i" for x
      using data [of x] that by (simp add: node_data_def)
    show "unat (ord_price (h' ! i)) = p" using data [of i] i by (simp add: node_data_def p_def)
    fix x assume x: "x < ?n"
    show "ord_next (h' ! x) = (if x = i then NULL_INDEX else if q sd p \<noteq> [] \<and> x = last (q sd p)
        then of_nat i else ord_next (pool s ! x))"
      "ord_prev (h' ! x) = (if x = i then last_ptr NULL_INDEX (q sd p) else ord_prev (pool s ! x))"
      using links [rule_format, OF x] by (simp_all add: nth_list_update)
  qed (rule refl)
  moreover have "index_inv h' (lookup m') (loc(i := Some (sd, p)))" unfolding m'(3)
  proof (rule index_inv_add [OF R(4) h'(2) i])
    show "ord_ref (h' ! x) = (if x = i then ?key else ord_ref (pool s ! x))" if "x < ?n" for x
      using data [OF that] by (auto simp: node_data_def split: if_splits)
  qed
  moreover have "bits_inv ((\<lambda>sd. side_bitset sd s)(sd := b')) ?ticks ?q"
    using bits_inv_set [OF R(5) pt b'(2,3)] .
  moreover have "(\<lambda>sd. side_levels sd s') = (\<lambda>sd. side_levels sd s)(sd := (side_levels sd s)[p := ?level])"
    "(\<lambda>sd. side_bitset sd s') = (\<lambda>sd. side_bitset sd s)(sd := b')" "length (bids s') = ?ticks"
    using I(2) by (auto simp: s'_def)
  ultimately have "book_rel s' ?q fl (loc(i := Some (sd, p)))"
    using m'(2,4) R(3) h'(2) by (simp add: book_rel_def) (simp add: s'_def)
  then show ?thesis using run m'(3,4) h'(2) data I(2) [of Buy]
    by (intro exI [of _ s']) (auto simp: s'_def same_sizes_def)
qed

section \<open>Taking a node out of a queue\<close>

lemma dseg_mid:
  assumes "dseg h NULL_INDEX (xs @ i # ys) NULL_INDEX"
  shows "ord_prev (h ! i) = last_ptr NULL_INDEX xs" "ord_next (h ! i) = first_ptr ys NULL_INDEX"
  using assms by (simp_all add: dseg_append)

lemma unlink_neighbours_effect:
  assumes n: "length h \<le> 2 ^ 31" and xs: "distinct (xs @ i # ys)" "set (xs @ i # ys) \<subseteq> {..<length h}"
    and seg: "dseg h NULL_INDEX (xs @ i # ys) NULL_INDEX"
  shows "\<exists>h'. unlink_neighbours h (of_nat i) = Some h' \<and> length h' = length h \<and>
    (\<forall>x<length h. node_data (h' ! x) = node_data (h ! x) \<and>
       ord_next (h' ! x) = (if xs \<noteq> [] \<and> x = last xs then first_ptr ys NULL_INDEX else ord_next (h ! x)) \<and>
       ord_prev (h' ! x) = (if ys \<noteq> [] \<and> x = hd ys then last_ptr NULL_INDEX xs else ord_prev (h ! x)))"
proof -
  have small: "unat (of_nat x :: u32) = x \<and> (of_nat x :: u32) \<noteq> NULL_INDEX" if "x < length h" for x
    using that n unat_ptr [of x] ptr_not_null [of x] by auto
  have i: "i < length h" using xs by auto
  note mid = dseg_mid [OF seg] and si = small [OF i]
  let ?h1 = "if xs \<noteq> [] then h[last xs := (h ! last xs)\<lparr>ord_next := first_ptr ys NULL_INDEX\<rparr>] else h"
  let ?h2 = "if ys \<noteq> [] then ?h1[hd ys := (?h1 ! hd ys)\<lparr>ord_prev := last_ptr NULL_INDEX xs\<rparr>] else ?h1"
  have l: "last xs < length h \<and> last xs \<noteq> i \<and> last xs \<notin> set ys" if "xs \<noteq> []"
    using that xs by (cases xs rule: rev_cases) auto
  have f: "hd ys < length h \<and> hd ys \<noteq> i" if "ys \<noteq> []" using that xs by (cases ys) auto
  have p: "last_ptr NULL_INDEX xs = (if xs = [] then NULL_INDEX else of_nat (last xs))" by (simp add: last_ptr_def)
  have nx: "first_ptr ys NULL_INDEX = (if ys = [] then NULL_INDEX else of_nat (hd ys))" by (cases ys) auto
  have "unlink_neighbours h (of_nat i) = Some ?h2"
    using i si mid l f small [of "last xs"] small [of "hd ys"]
    by (simp add: unlink_neighbours_def p nx)
  moreover have "length ?h2 = length h" by simp
  moreover have "node_data (?h2 ! x) = node_data (h ! x) \<and>
       ord_next (?h2 ! x) = (if xs \<noteq> [] \<and> x = last xs then first_ptr ys NULL_INDEX else ord_next (h ! x)) \<and>
       ord_prev (?h2 ! x) = (if ys \<noteq> [] \<and> x = hd ys then last_ptr NULL_INDEX xs else ord_prev (h ! x))"
    if "x < length h" for x
    using that l f by (cases "xs = []"; cases "ys = []") (simp_all add: nth_list_update node_data_def)
  ultimately show ?thesis by blast
qed

lemma execute_update_price_level_effect:
  assumes small: "set (xs @ i # ys) \<subseteq> {..<2 ^ 31}" and dist: "distinct (xs @ i # ys)"
    and lev: "pl_head level = first_ptr (xs @ i # ys) NULL_INDEX" "pl_tail level = last_ptr NULL_INDEX (xs @ i # ys)"
    and ord: "ord_prev r = last_ptr NULL_INDEX xs" "ord_next r = first_ptr ys NULL_INDEX"
  shows "execute_update_price_level level r (of_nat i) =
    \<lparr>pl_head = first_ptr (xs @ ys) NULL_INDEX, pl_tail = last_ptr NULL_INDEX (xs @ ys)\<rparr>"
proof -
  have hd: "pl_head level = of_nat i \<longleftrightarrow> xs = []"
    using lev(1) small dist by (cases xs) (auto simp: ptr_inj)
  have tl: "pl_tail level = of_nat i \<longleftrightarrow> ys = []"
    using lev(2) small dist by (cases ys rule: rev_cases) (auto simp: last_ptr_def ptr_inj)
  have "first_ptr (xs @ ys) NULL_INDEX = (if xs = [] then first_ptr ys NULL_INDEX else pl_head level)"
    using lev by (cases xs) auto
  moreover have "last_ptr NULL_INDEX (xs @ ys) = (if ys = [] then last_ptr NULL_INDEX xs else pl_tail level)"
    using lev by (auto simp: last_ptr_def)
  ultimately show ?thesis using hd tl ord by (cases level) (auto simp: execute_update_price_level_def Let_def)
qed

lemma dseg_remove:
  assumes seg: "dseg h NULL_INDEX (xs @ i # ys) NULL_INDEX" and dist: "distinct (xs @ i # ys)"
    and nxt: "\<And>x. x \<in> set (xs @ ys) \<Longrightarrow> ord_next (h' ! x) =
      (if xs \<noteq> [] \<and> x = last xs then first_ptr ys NULL_INDEX else ord_next (h ! x))"
    and prv: "\<And>x. x \<in> set (xs @ ys) \<Longrightarrow> ord_prev (h' ! x) =
      (if ys \<noteq> [] \<and> x = hd ys then last_ptr NULL_INDEX xs else ord_prev (h ! x))"
  shows "dseg h' NULL_INDEX (xs @ ys) NULL_INDEX"
proof -
  have "dseg h NULL_INDEX xs (of_nat i)" "dseg h (of_nat i) ys NULL_INDEX"
    using seg by (simp_all add: dseg_append)
  note segs = this
  have "dseg h' NULL_INDEX xs (first_ptr ys NULL_INDEX)"
  proof (rule dseg_relink [OF segs(1)])
    show "distinct xs" using dist by simp
    fix x assume x: "x \<in> set xs"
    have "x \<notin> set ys" "ord_prev (h ! hd xs) = NULL_INDEX" using x dist segs(1) by (auto, cases xs, auto)
    then show "ord_prev (h' ! x) = (if x = hd xs then NULL_INDEX else ord_prev (h ! x))"
      using prv [of x] x by (cases ys) auto
    show "ord_next (h' ! x) = (if x = last xs then first_ptr ys NULL_INDEX else ord_next (h ! x))"
      using nxt [of x] x by (cases xs) auto
  qed
  moreover have "dseg h' (last_ptr NULL_INDEX xs) ys NULL_INDEX"
  proof (rule dseg_relink [OF segs(2)])
    show "distinct ys" using dist by simp
    fix x assume x: "x \<in> set ys"
    have "x \<notin> set xs" "ord_next (h ! last ys) = NULL_INDEX"
      using x dist segs(2) by (auto, cases ys rule: rev_cases, auto simp: dseg_append)
    then show "ord_next (h' ! x) = (if x = last ys then NULL_INDEX else ord_next (h ! x))"
      using nxt [of x] x by (cases xs rule: rev_cases) auto
    show "ord_prev (h' ! x) = (if x = hd ys then last_ptr NULL_INDEX xs else ord_prev (h ! x))"
      using prv [of x] x by (cases ys) auto
  qed
  ultimately show ?thesis by (simp add: dseg_append)
qed

lemma lists_inv_remove:
  assumes inv: "lists_inv h lv ticks free q fl loc" and p: "p < ticks"
    and qp: "q sd p = xs @ i # ys" and len: "length h' = length h"
    and data: "\<And>x. x < length h \<Longrightarrow> ord_price (h' ! x) = ord_price (h ! x)"
    and nxt: "\<And>x. x < length h \<Longrightarrow> ord_next (h' ! x) = (if x = i then free
        else if xs \<noteq> [] \<and> x = last xs then first_ptr ys NULL_INDEX else ord_next (h ! x))"
    and prv: "\<And>x. x < length h \<Longrightarrow> ord_prev (h' ! x) =
        (if ys \<noteq> [] \<and> x = hd ys then last_ptr NULL_INDEX xs else ord_prev (h ! x))"
    and level: "level = \<lparr>pl_head = first_ptr (xs @ ys) NULL_INDEX, pl_tail = last_ptr NULL_INDEX (xs @ ys)\<rparr>"
  shows "lists_inv h' (lv(sd := (lv sd)[p := level])) ticks (of_nat i)
      (q(sd := (q sd)(p := xs @ ys))) (i # fl) (loc(i := None))"
proof -
  let ?q = "q(sd := (q sd)(p := xs @ ys))" and ?loc = "loc(i := None)"
  let ?lv = "lv(sd := (lv sd)[p := level])"
  note I = lists_invD [OF inv]
  have on_q: "x < length h \<and> loc x = Some (sd, p)" if "x \<in> set (xs @ i # ys)" for x
    using I(4) [of x sd p] that by (simp only: qp)
  have dist: "distinct (xs @ i # ys)" using I(3) [of sd p] by (simp only: qp)
  have i: "i < length h" "loc i = Some (sd, p)" using on_q [of i] by auto
  have ends: "xs \<noteq> [] \<Longrightarrow> loc (last xs) = Some (sd, p)" "ys \<noteq> [] \<Longrightarrow> loc (hd ys) = Some (sd, p)"
    using on_q by auto
  have other: "dseg h' NULL_INDEX (q sd' p') NULL_INDEX" if "p' < ticks" "(sd', p') \<noteq> (sd, p)" for sd' p'
  proof (rule dseg_cong [OF I(11) [OF that(1)]])
    fix x assume "x \<in> set (q sd' p')"
    then have x: "x < length h" "loc x = Some (sd', p')" by (simp_all only: I(4))
    then show "ord_prev (h' ! x) = ord_prev (h ! x) \<and> ord_next (h' ! x) = ord_next (h ! x)"
      using nxt [OF x(1)] prv [OF x(1)] i(2) ends that(2) by auto
  qed
  have removed: "dseg h' NULL_INDEX (xs @ ys) NULL_INDEX"
  proof (rule dseg_remove [OF _ dist])
    show "dseg h NULL_INDEX (xs @ i # ys) NULL_INDEX" using I(11) [OF p, of sd] by (simp only: qp)
    fix x assume x: "x \<in> set (xs @ ys)"
    then have "x < length h" "x \<noteq> i" using on_q [of x] dist by auto
    then show "ord_next (h' ! x) = (if xs \<noteq> [] \<and> x = last xs then first_ptr ys NULL_INDEX else ord_next (h ! x))"
      "ord_prev (h' ! x) = (if ys \<noteq> [] \<and> x = hd ys then last_ptr NULL_INDEX xs else ord_prev (h ! x))"
      using nxt [of x] prv [of x] by auto
  qed
  have "free_chain h' free fl"
  proof (rule free_chain_cong [OF I(7)])
    fix x assume "x \<in> set fl"
    then have "x < length h" "loc x = None" using I(6) [of x] by auto
    then show "ord_next (h' ! x) = ord_next (h ! x)" using nxt [of x] ends i(2) by auto
  qed
  then have free: "free_chain h' (of_nat i) (i # fl)" using nxt [OF i(1)] by simp
  show ?thesis unfolding lists_inv_def len
  proof (intro conjI allI impI)
    show "length h \<le> 2 ^ 31" by (rule I(1))
    show "length (?lv sd') = ticks" for sd' using I(2) by simp
    show "distinct (?q sd' p')" for sd' p' using I(3) [of sd' p'] dist by auto
    show "distinct (i # fl)" using I(5) I(6) [of i] i by simp
    show "x \<in> set (?q sd' p') \<longleftrightarrow> x < length h \<and> ?loc x = Some (sd', p')" for sd' p' x
      using I(4) [of x sd' p'] i dist qp by auto
    show "x \<in> set (i # fl) \<longleftrightarrow> x < length h \<and> ?loc x = None" for x using I(6) [of x] i by auto
    show "p' < ticks" "unat (ord_price (h' ! x)) = p'" if "x < length h" "?loc x = Some (sd', p')" for x sd' p'
      using I(8) [of x sd' p'] data [of x] that by (auto split: if_splits)
    show "free_chain h' (of_nat i) (i # fl)" by (rule free)
    fix sd' p' assume p': "p' < ticks"
    show "pl_head (?lv sd' ! p') = first_ptr (?q sd' p') NULL_INDEX"
      using I(2) [of sd] I(9) [OF p', of sd'] p level by (auto simp: nth_list_update)
    show "pl_tail (?lv sd' ! p') = last_ptr NULL_INDEX (?q sd' p')"
      using I(2) [of sd] I(10) [OF p', of sd'] p level by (auto simp: nth_list_update)
    show "dseg h' NULL_INDEX (?q sd' p') NULL_INDEX"
      using other [OF p', of sd'] removed by auto
  qed
qed

section \<open>Releasing, cancelling and executing an order\<close>

lemma index_inv_remove:
  assumes ix: "index_inv h f loc" and len: "length h' = length h"
    and data: "\<And>x. x < length h \<Longrightarrow> ord_ref (h' ! x) = ord_ref (h ! x)"
  shows "index_inv h' (f(ord_ref (h ! i) := None)) (loc(i := None))"
  unfolding index_inv_def
proof (intro allI impI)
  fix k v assume f: "(f(ord_ref (h ! i) := None)) k = Some v"
  then have "f k = Some v" "k \<noteq> ord_ref (h ! i)" by (auto split: if_splits)
  then obtain j sd p where j: "j < length h" "loc j = Some (sd, p)" "ord_ref (h ! j) = k"
    "v = side_tag sd OR of_nat j" using index_invE [OF ix] by metis
  moreover have "j \<noteq> i" using j(3) \<open>k \<noteq> _\<close> by auto
  ultimately show "\<exists>j sd p. j < length h' \<and> (loc(i := None)) j = Some (sd, p) \<and>
    ord_ref (h' ! j) = k \<and> v = side_tag sd OR of_nat j" using data [of j] len by auto
qed

lemma bits_inv_clear:
  assumes bits: "bits_inv b ticks q" and p: "p < ticks"
    and b': "bitset_inv ticks b'" "levels b' = (if zs = [] then levels (b sd) - {p} else levels (b sd))"
    and ne: "q sd p \<noteq> []"
  shows "bits_inv (b(sd := b')) ticks (q(sd := (q sd)(p := zs)))"
  using assms unfolding bits_inv_def by auto

lemma clear_if:
  assumes "bitset_inv n b" "p < n"
  shows "\<exists>b'. (if e then clear_price_level b (of_nat p) else Some b) = Some b' \<and> bitset_inv n b' \<and>
    levels b' = (if e then levels b - {p} else levels b)"
  using bs.clear_ok [OF assms] assms by auto

lemma put_commute:
  "(put_levels sd ls s)\<lparr>orders := m\<rparr> = put_levels sd ls (s\<lparr>orders := m\<rparr>)"
  "(put_levels sd ls s)\<lparr>pool := h\<rparr> = put_levels sd ls (s\<lparr>pool := h\<rparr>)"
  "(put_levels sd ls s)\<lparr>next_free_index := n\<rparr> = put_levels sd ls (s\<lparr>next_free_index := n\<rparr>)"
  "(put_bitset sd b s)\<lparr>orders := m\<rparr> = put_bitset sd b (s\<lparr>orders := m\<rparr>)"
  "(put_bitset sd b s)\<lparr>pool := h\<rparr> = put_bitset sd b (s\<lparr>pool := h\<rparr>)"
  "(put_bitset sd b s)\<lparr>next_free_index := n\<rparr> = put_bitset sd b (s\<lparr>next_free_index := n\<rparr>)"
  by (cases sd; simp)+

lemma put_bitset_same: "side_bitset sd s = b \<Longrightarrow> put_bitset sd b s = s"
  by (cases sd) auto

lemma release_order_to_pool_rel:
  assumes rel: "book_rel s q fl loc" and i: "i < length (pool s)" "loc i = Some (sd, p)"
  shows "\<exists>s'. release_order_to_pool sd s (of_nat i) = Some s' \<and> same_sizes s s' \<and>
    book_rel s' (q(sd := (q sd)(p := remove1 i (q sd p)))) (i # fl) (loc(i := None)) \<and>
    lookup (orders s') = (lookup (orders s))(ord_ref (pool s ! i) := None) \<and>
    (\<forall>x<length (pool s). node_data (pool s' ! x) = node_data (pool s ! x))"
proof -
  note R = book_relD [OF rel] and I = lists_invD [OF R(1)]
  let ?n = "length (pool s)" and ?ticks = "length (bids s)" and ?key = "ord_ref (pool s ! i)"
  have ui: "unat (of_nat i :: u32) = i" using unat_ptr i I(1) by simp
  have pt: "p < ?ticks" "unat (ord_price (pool s ! i)) = p" using I(8) [OF i] by auto
  have uc: "ucast (ord_price (pool s ! i)) = (of_nat p :: u64)" by (simp only: ucast_price pt(2))
  have "i \<in> set (q sd p)" using I(4) [of i sd p] i by simp
  then obtain xs ys where qp: "q sd p = xs @ i # ys" by (meson split_list)
  have dist: "distinct (xs @ i # ys)" using I(3) [of sd p] by (simp only: qp)
  have sub: "set (xs @ i # ys) \<subseteq> {..<?n}" using I(4) [of _ sd p] unfolding qp by auto
  have rem: "remove1 i (q sd p) = xs @ ys" using dist qp by (simp add: remove1_append)
  have seg: "dseg (pool s) NULL_INDEX (xs @ i # ys) NULL_INDEX" using I(11) [OF pt(1), of sd] by (simp only: qp)
  obtain h' where h': "unlink_neighbours (pool s) (of_nat i) = Some h'" "length h' = ?n"
    and links: "\<forall>x<?n. node_data (h' ! x) = node_data (pool s ! x) \<and>
       ord_next (h' ! x) = (if xs \<noteq> [] \<and> x = last xs then first_ptr ys NULL_INDEX else ord_next (pool s ! x)) \<and>
       ord_prev (h' ! x) = (if ys \<noteq> [] \<and> x = hd ys then last_ptr NULL_INDEX xs else ord_prev (pool s ! x))"
    using unlink_neighbours_effect [OF I(1) dist sub seg] by blast
  have hi: "ord_ref (h' ! i) = ?key" "ord_price (h' ! i) = ord_price (pool s ! i)"
    "ord_prev (h' ! i) = last_ptr NULL_INDEX xs" "ord_next (h' ! i) = first_ptr ys NULL_INDEX"
    using links [rule_format, OF i(1)] dseg_mid [OF seg] dist by (auto simp: node_data_def)
  let ?level = "\<lparr>pl_head = first_ptr (xs @ ys) NULL_INDEX, pl_tail = last_ptr NULL_INDEX (xs @ ys)\<rparr>"
  have lev: "execute_update_price_level (side_levels sd s ! p) (h' ! i) (of_nat i) = ?level"
    using I(1) sub I(9,10) [OF pt(1), of sd] hi(3,4) qp
    by (intro execute_update_price_level_effect [OF _ dist]) auto
  define e where "e \<longleftrightarrow> xs @ ys = []"
  have empty: "first_ptr (xs @ ys) NULL_INDEX = NULL_INDEX \<longleftrightarrow> e"
  proof (cases "xs @ ys")
    case (Cons a zs)
    then have "a \<in> set (xs @ i # ys)" by (auto simp: append_eq_Cons_conv)
    then have "a < 2 ^ 31" using sub I(1) by fastforce
    then show ?thesis using Cons ptr_not_null by (simp add: e_def)
  qed (simp add: e_def)
  obtain b' where b': "(if e then clear_price_level (side_bitset sd s) (of_nat p)
      else Some (side_bitset sd s)) = Some b'" "bitset_inv ?ticks b'"
    "levels b' = (if e then levels (side_bitset sd s) - {p} else levels (side_bitset sd s))"
    using clear_if [OF bits_invD(1) [OF R(5), of sd] pt(1)] by blast
  obtain m' where m': "erase_key (orders s) ?key = Some m'" "map_inv m'"
    "lookup m' = (lookup (orders s))(?key := None)" "length (buckets m') = length (buckets (orders s))"
    using om.erase_E [OF R(2)] by blast
  define h2 where "h2 = h'[i := (h' ! i)\<lparr>ord_next := next_free_index s\<rparr>]"
  define s' where "s' = put_bitset sd b' (put_levels sd ((side_levels sd s)[p := ?level])
    (s\<lparr>orders := m', pool := h2, next_free_index := of_nat i\<rparr>))"
  have run: "release_order_to_pool sd s (of_nat i) = Some s'"
    using i(1) h' lev m'(1) b'(1) hi(1,2) pt uc I(2) [of sd] empty
    unfolding release_order_to_pool_def s'_def h2_def
    by (cases e) (simp_all add: ui Let_def put_commute put_bitset_same)
  have data: "node_data (h2 ! x) = node_data (pool s ! x)" if "x < ?n" for x
    using conjunct1 [OF links [rule_format, OF that]] that h'(2)
    by (cases "x = i") (simp_all add: h2_def node_data_def)
  have "lists_inv h2 ((\<lambda>sd. side_levels sd s)(sd := (side_levels sd s)[p := ?level])) ?ticks (of_nat i)
      (q(sd := (q sd)(p := xs @ ys))) (i # fl) (loc(i := None))"
  proof (rule lists_inv_remove [OF R(1) pt(1) qp])
    show "length h2 = ?n" using h'(2) by (simp add: h2_def)
    fix x assume x: "x < ?n"
    show "ord_price (h2 ! x) = ord_price (pool s ! x)" using data [OF x] by (simp add: node_data_def)
    show "ord_next (h2 ! x) = (if x = i then next_free_index s else if xs \<noteq> [] \<and> x = last xs
        then first_ptr ys NULL_INDEX else ord_next (pool s ! x))"
      "ord_prev (h2 ! x) = (if ys \<noteq> [] \<and> x = hd ys then last_ptr NULL_INDEX xs else ord_prev (pool s ! x))"
      using links [rule_format, OF x] i(1) h'(2) by (cases "x = i"; simp add: h2_def)+
  qed (rule refl)
  moreover have "index_inv h2 (lookup m') (loc(i := None))" unfolding m'(3)
    using data h'(2) by (intro index_inv_remove [OF R(4)]) (auto simp: h2_def node_data_def)
  moreover have "bits_inv ((\<lambda>sd. side_bitset sd s)(sd := b')) ?ticks (q(sd := (q sd)(p := xs @ ys)))"
    using bits_inv_clear [OF R(5) pt(1) b'(2) b'(3) [unfolded e_def]] qp by simp
  moreover have "(\<lambda>sd. side_levels sd s') = (\<lambda>sd. side_levels sd s)(sd := (side_levels sd s)[p := ?level])"
    "(\<lambda>sd. side_bitset sd s') = (\<lambda>sd. side_bitset sd s)(sd := b')" "length (bids s') = ?ticks"
    using I(2) by (auto simp: s'_def)
  ultimately have "book_rel s' (q(sd := (q sd)(p := xs @ ys))) (i # fl) (loc(i := None))"
    using m'(2,4) R(3) h'(2) by (simp add: book_rel_def) (simp add: s'_def h2_def)
  then show ?thesis using run m'(3,4) h'(2) data I(2) [of Buy] unfolding rem
    by (intro exI [of _ s']) (auto simp: s'_def same_sizes_def h2_def)
qed

lemma free_empty_iff:
  assumes "book_rel s q fl loc"
  shows "next_free_index s = NULL_INDEX \<longleftrightarrow> fl = []"
proof -
  note I = lists_invD [OF book_relD(1) [OF assms]]
  show ?thesis
  proof (cases fl)
    case (Cons i fl')
    then have "i < 2 ^ 31" using I(1) I(6) [of i] by simp
    then show ?thesis using Cons I(7) ptr_not_null by simp
  qed (use I(7) in simp)
qed

definition order_side :: "NormalizedAddOrder \<Rightarrow> Side" where
  "order_side r = (if na_indicator r = 0x42 then Buy else Sell)"

lemma add_order_skip:
  assumes "book_rel s q fl loc" "length (bids s) \<le> unat (na_price r) \<or> fl = []"
  shows "add_order s r = Some (Inr (), s)"
  using assms free_empty_iff [OF assms(1)] by (auto simp: add_order_def)

lemma add_order_rel:
  assumes rel: "book_rel s q (i # fl) loc" and p: "unat (na_price r) < length (bids s)"
  defines "p \<equiv> unat (na_price r)" and "sd \<equiv> order_side r"
  shows "\<exists>s'. add_order s r = Some (Inr (), s') \<and> same_sizes s s' \<and>
    book_rel s' (q(sd := (q sd)(p := q sd p @ [i]))) fl (loc(i := Some (sd, p))) \<and>
    lookup (orders s') = (lookup (orders s))(na_order_reference_number r \<mapsto> side_tag sd OR of_nat i) \<and>
    (\<forall>x<length (pool s). node_data (pool s' ! x) =
       (if x = i then (na_order_reference_number r, na_shares r, na_price r) else node_data (pool s ! x)))"
proof -
  have "add_order s r = add_order_impl sd s r"
    using p free_empty_iff [OF rel] by (simp add: add_order_def sd_def order_side_def)
  then show ?thesis using add_order_impl_rel [OF rel p, of sd] unfolding p_def by simp
qed

text \<open>The map leads to a queued node, and the masks recover its index and side.\<close>

lemma find_order:
  assumes rel: "book_rel s q fl loc" and key: "lookup (orders s) key = Some v"
  obtains pos i sd p where "find_bucket (orders s) key = Some (Some pos)"
    "bucket_pool_idx (orders s) pos = Some v" "i < length (pool s)" "loc i = Some (sd, p)"
    "ord_ref (pool s ! i) = key" "v AND INDEX_MASK = of_nat i" "unat (of_nat i :: u32) = i"
    "v AND SIDE_MASK \<noteq> 0 \<longleftrightarrow> sd = Sell" "v = side_tag sd OR of_nat i"
proof -
  note R = book_relD [OF rel] and I = lists_invD [OF R(1)]
  obtain pos where pos: "find_bucket (orders s) key = Some (Some pos)"
    "bucket_pool_idx (orders s) pos = Some v" using om.find_Some [OF R(2) key] by blast
  obtain i sd p where i: "i < length (pool s)" "loc i = Some (sd, p)" "ord_ref (pool s ! i) = key"
    "v = side_tag sd OR of_nat i" using index_invE [OF R(4) key] by blast
  have "i < 2 ^ 31" using i(1) I(1) by linarith
  then show ?thesis using that [OF pos i(1-3)] i(4) untag_index untag_side unat_ptr by blast
qed

lemma cancel_order_missing:
  assumes "book_rel s q fl loc" "lookup (orders s) key = None"
  shows "cancel_order s key = Some s"
  using om.find_None [OF book_relD(2) [OF assms(1)] assms(2)] by (simp add: cancel_order_def)

lemma cancel_order_rel:
  assumes rel: "book_rel s q fl loc" and key: "lookup (orders s) key = Some v"
  obtains i sd p s' where "v = side_tag sd OR of_nat i" "i < length (pool s)" "loc i = Some (sd, p)"
    "ord_ref (pool s ! i) = key" "cancel_order s key = Some s'" "same_sizes s s'"
    "book_rel s' (q(sd := (q sd)(p := remove1 i (q sd p)))) (i # fl) (loc(i := None))"
    "lookup (orders s') = (lookup (orders s))(key := None)"
    "\<forall>x<length (pool s). node_data (pool s' ! x) = node_data (pool s ! x)"
proof -
  obtain pos i sd p where f: "find_bucket (orders s) key = Some (Some pos)"
    "bucket_pool_idx (orders s) pos = Some v" "i < length (pool s)" "loc i = Some (sd, p)"
    "ord_ref (pool s ! i) = key" "v AND INDEX_MASK = of_nat i" "unat (of_nat i :: u32) = i"
    "v AND SIDE_MASK \<noteq> 0 \<longleftrightarrow> sd = Sell" "v = side_tag sd OR of_nat i"
    by (rule find_order [OF rel key])
  have "cancel_order s key = release_order_to_pool sd s (of_nat i)"
    using f(1,2,6,8) by (cases sd) (simp_all add: cancel_order_def Let_def)
  then show ?thesis using release_order_to_pool_rel [OF rel f(3,4)] that [OF f(9,3-5)] f(5) by auto
qed

lemma nth_list_update_if: "xs[i := v] ! x = (if x = i \<and> i < length xs then v else xs ! x)"
  by (cases "i < length xs") (auto simp: nth_list_update list_update_beyond not_less)

lemma book_rel_shares:
  assumes rel: "book_rel s q fl loc"
  shows "book_rel (s\<lparr>pool := (pool s)[i := (pool s ! i)\<lparr>ord_shares := n\<rparr>]\<rparr>) q fl loc"
proof -
  note R = book_relD [OF rel]
  let ?h = "(pool s)[i := (pool s ! i)\<lparr>ord_shares := n\<rparr>]"
  have same: "ord_next (?h ! x) = ord_next (pool s ! x)" "ord_prev (?h ! x) = ord_prev (pool s ! x)"
    "ord_price (?h ! x) = ord_price (pool s ! x)" "ord_ref (?h ! x) = ord_ref (pool s ! x)" for x
    unfolding nth_list_update_if by auto
  have "dseg ?h a xs b \<longleftrightarrow> dseg (pool s) a xs b" for a b xs
    by (induction xs arbitrary: a) (simp_all only: dseg.simps same)
  moreover have "free_chain ?h a xs \<longleftrightarrow> free_chain (pool s) a xs" for a xs
    by (induction xs arbitrary: a) (simp_all only: free_chain.simps same)
  ultimately have "lists_inv ?h (\<lambda>sd. side_levels sd s) (length (bids s)) (next_free_index s) q fl loc"
    using R(1) unfolding lists_inv_def length_list_update same by blast
  moreover have "index_inv ?h (lookup (orders s)) loc"
    using R(4) unfolding index_inv_def length_list_update same by blast
  ultimately show ?thesis using R unfolding book_rel_def by simp
qed

lemma execute_order_missing:
  assumes "book_rel s q fl loc" "lookup (orders s) (ne_order_reference_number r) = None"
  shows "execute_order s r = Some (Inr (), s)"
  using om.find_None [OF book_relD(2) [OF assms(1)] assms(2)] by (simp add: execute_order_def)

text \<open>
  The three outcomes of executing a live order: too few shares, a partial fill, and a fill
  that releases the node.
\<close>

lemma execute_order_rel:
  assumes rel: "book_rel s q fl loc" and key: "lookup (orders s) (ne_order_reference_number r) = Some v"
  obtains i sd p where "v = side_tag sd OR of_nat i" "i < length (pool s)" "loc i = Some (sd, p)"
    "ord_ref (pool s ! i) = ne_order_reference_number r"
    "ord_shares (pool s ! i) < ne_shares r \<longrightarrow> execute_order s r = Some (Inl Not_enough_shares, s)"
    "ne_shares r < ord_shares (pool s ! i) \<longrightarrow>
       execute_order s r = Some (Inr (), s\<lparr>pool := (pool s)[i := (pool s ! i)
         \<lparr>ord_shares := ord_shares (pool s ! i) - ne_shares r\<rparr>]\<rparr>)"
    "ne_shares r = ord_shares (pool s ! i) \<longrightarrow>
       (\<exists>s'. execute_order s r = Some (Inr (), s') \<and> same_sizes s s' \<and>
         book_rel s' (q(sd := (q sd)(p := remove1 i (q sd p)))) (i # fl) (loc(i := None)) \<and>
         lookup (orders s') = (lookup (orders s))(ne_order_reference_number r := None) \<and>
         (\<forall>x<length (pool s). x \<noteq> i \<longrightarrow> node_data (pool s' ! x) = node_data (pool s ! x)))"
proof -
  obtain pos i sd p where f: "find_bucket (orders s) (ne_order_reference_number r) = Some (Some pos)"
    "bucket_pool_idx (orders s) pos = Some v" "i < length (pool s)" "loc i = Some (sd, p)"
    "ord_ref (pool s ! i) = ne_order_reference_number r" "v AND INDEX_MASK = of_nat i"
    "unat (of_nat i :: u32) = i" "v AND SIDE_MASK \<noteq> 0 \<longleftrightarrow> sd = Sell" "v = side_tag sd OR of_nat i"
    by (rule find_order [OF rel key])
  let ?rest = "ord_shares (pool s ! i) - ne_shares r"
  let ?s1 = "s\<lparr>pool := (pool s)[i := (pool s ! i)\<lparr>ord_shares := ?rest\<rparr>]\<rparr>"
  have run: "execute_order s r = (if ord_shares (pool s ! i) < ne_shares r then Some (Inl Not_enough_shares, s)
      else if ?rest = 0 then release_order_to_pool sd ?s1 (of_nat i) \<bind> (\<lambda>s2. Some (Inr (), s2))
      else Some (Inr (), ?s1))"
    using f(1-3,6-8) by (cases sd) (simp_all add: execute_order_def Let_def)
  have ref: "ord_ref (pool ?s1 ! i) = ne_order_reference_number r" using f(3,5) by simp
  obtain s' where s': "release_order_to_pool sd ?s1 (of_nat i) = Some s'" "same_sizes ?s1 s'"
    "book_rel s' (q(sd := (q sd)(p := remove1 i (q sd p)))) (i # fl) (loc(i := None))"
    "lookup (orders s') = (lookup (orders ?s1))(ord_ref (pool ?s1 ! i) := None)"
    "\<forall>x<length (pool ?s1). node_data (pool s' ! x) = node_data (pool ?s1 ! x)"
    using release_order_to_pool_rel [OF book_rel_shares [OF rel, of i ?rest], of i sd p] f(3,4) by auto
  show ?thesis
  proof (rule that [OF f(9,3-5)])
    show "ord_shares (pool s ! i) < ne_shares r \<longrightarrow> execute_order s r = Some (Inl Not_enough_shares, s)"
      by (simp add: run)
    show "ne_shares r < ord_shares (pool s ! i) \<longrightarrow> execute_order s r = Some (Inr (), ?s1)"
      by (auto simp: run)
    have data: "\<forall>x<length (pool s). x \<noteq> i \<longrightarrow> node_data (pool s' ! x) = node_data (pool s ! x)"
      using s'(5) by simp
    have sizes: "same_sizes s s'" using s'(2) by (simp add: same_sizes_def)
    have erased: "lookup (orders s') = (lookup (orders s))(ne_order_reference_number r := None)"
      using s'(4) ref by simp
    have "execute_order s r = Some (Inr (), s')" if "ne_shares r = ord_shares (pool s ! i)"
      using s'(1) that by (simp add: run)
    then show "ne_shares r = ord_shares (pool s ! i) \<longrightarrow>
       (\<exists>s'. execute_order s r = Some (Inr (), s') \<and> same_sizes s s' \<and>
         book_rel s' (q(sd := (q sd)(p := remove1 i (q sd p)))) (i # fl) (loc(i := None)) \<and>
         lookup (orders s') = (lookup (orders s))(ne_order_reference_number r := None) \<and>
         (\<forall>x<length (pool s). x \<noteq> i \<longrightarrow> node_data (pool s' ! x) = node_data (pool s ! x)))"
      using sizes s'(3) erased data by blast
  qed
qed

section \<open>A new book\<close>

lemma thread_free_list_ok:
  "1 \<le> j \<Longrightarrow> j \<le> n \<Longrightarrow> n \<le> length h \<Longrightarrow>
   \<exists>h'. thread_free_list [j..<n] h = Some h' \<and> length h' = length h \<and>
     (\<forall>x<length h. h' ! x = (if j \<le> Suc x \<and> Suc x < n then (h ! x)\<lparr>ord_next := of_nat (Suc x)\<rparr> else h ! x))"
proof (induction "n - j" arbitrary: j h)
  case (Suc k)
  then have j: "[j..<n] = j # [Suc j..<n]" "j - 1 < length h" by (simp_all add: upt_rec)
  let ?h = "h[j - 1 := (h ! (j - 1))\<lparr>ord_next := of_nat j\<rparr>]"
  obtain h' where h': "thread_free_list [Suc j..<n] ?h = Some h'" "length h' = length h"
    "\<forall>x<length h. h' ! x = (if Suc j \<le> Suc x \<and> Suc x < n then (?h ! x)\<lparr>ord_next := of_nat (Suc x)\<rparr> else ?h ! x)"
  proof -
    have "k = n - Suc j" "1 \<le> Suc j" "Suc j \<le> n" "n \<le> length ?h" using Suc.hyps(2) Suc.prems by auto
    from Suc.hyps(1) [OF this] show ?thesis using that by (simp only: length_list_update) blast
  qed
  have "h' ! x = (if j \<le> Suc x \<and> Suc x < n then (h ! x)\<lparr>ord_next := of_nat (Suc x)\<rparr> else h ! x)"
    if "x < length h" for x
    using h'(3) that Suc.hyps(2) Suc.prems(1) by (cases "x = j - 1") auto
  then show ?case using h'(1,2) j by auto
qed auto

lemma free_chain_upt:
  assumes "\<And>x. j \<le> x \<Longrightarrow> x < n \<Longrightarrow> ord_next (h ! x) = (if Suc x < n then of_nat (Suc x) else NULL_INDEX)"
    "j < n"
  shows "free_chain h (of_nat j) [j..<n]"
  using assms
proof (induction "n - j" arbitrary: j)
  case (Suc k)
  then have "[j..<n] = j # [Suc j..<n]" by (simp add: upt_rec)
  moreover have "free_chain h (of_nat (Suc j)) [Suc j..<n]" if "Suc j < n"
    using Suc.hyps(1) [of "Suc j"] Suc.hyps(2) Suc.prems(1) that by auto
  ultimately show ?case using Suc.prems by (cases "Suc j < n") simp_all
qed simp


lemma LimitOrderBook_new:
  assumes n: "n \<noteq> 0" "unat n \<le> 2 ^ e" "e \<le> 31" and k: "k < 64" and ticks: "ticks \<le> 262144"
  shows "\<exists>s. LimitOrderBook ticks (2 ^ e) True True (2 ^ k) n = Some (Inr s) \<and>
    book_rel s (\<lambda>_ _. []) [0..<unat n] (\<lambda>_. None) \<and> lookup (orders s) = Map.empty \<and>
    length (bids s) = ticks \<and> length (pool s) = unat n"
proof -
  obtain m where m: "StaticOrderMap True (2 ^ k) (2 ^ e) = Inr m" by (simp add: StaticOrderMap_def Let_def)
  note M = map_inv_new [OF m]
  have small: "unat n \<le> 2 ^ 31" using n(2,3) power_increasing [of e 31 "2::nat"] by simp
  have "unat (n * 32) = unat n * 32" using small by (simp add: unat_word_ariths)
  moreover have "unat n * 32 + 2 ^ k \<le> (2::nat) ^ 64" using small k power_increasing [of k 63 "2::nat"] by simp
  ultimately have bytes: "unat n * 32 \<le> unat (page_align (2 ^ k) (n * 32))" using page_align_ge [OF k, of "n * 32"] by simp
  define h0 where "h0 = replicate (unat (page_align (2 ^ k) (n * 32)) div 32) zero_order"
  have len: "unat n \<le> length h0" using bytes by (simp add: h0_def)
  have pos: "0 < unat n" using n(1) by (simp add: unat_gt_0)
  have un: "unat (n - 1) = unat n - 1" using n(1) by (rule unat_minus_one)
  obtain h1 where h1: "thread_free_list [1..<unat n] h0 = Some h1" "length h1 = length h0"
    "\<forall>x<length h0. h1 ! x = (if 1 \<le> Suc x \<and> Suc x < unat n then (h0 ! x)\<lparr>ord_next := of_nat (Suc x)\<rparr> else h0 ! x)"
    using thread_free_list_ok [of 1 "unat n" h0] pos len by auto
  define h2 where "h2 = take (unat n) (h1[unat n - 1 := (h1 ! (unat n - 1))\<lparr>ord_next := NULL_INDEX\<rparr>])"
  let ?lv = "replicate ticks \<lparr>pl_head = NULL_INDEX, pl_tail = NULL_INDEX\<rparr>"
  define s where "s = \<lparr>pool = h2, bids = ?lv, asks = ?lv, orders = m, bids_bitset = HierarchicalBitset ticks,
    asks_bitset = HierarchicalBitset ticks, next_free_index = 0\<rparr>"
  have h2: "length h2 = unat n" using len h1(2) by (simp add: h2_def)
  have nxt: "ord_next (h2 ! x) = (if Suc x < unat n then of_nat (Suc x) else NULL_INDEX)" if "x < unat n" for x
  proof (cases "Suc x < unat n")
    case True
    then show ?thesis using len h1(2,3) by (simp add: h2_def)
  next
    case False
    then have "x = unat n - 1" using that by linarith
    then show ?thesis using len h1(2) pos by (simp add: h2_def)
  qed
  have run: "LimitOrderBook ticks (2 ^ e) True True (2 ^ k) n = Some (Inr s)"
    using m n(1) h1(1,2) un len pos unfolding LimitOrderBook_def
    by (simp add: s_def h2_def h0_def Let_def)
  have sides: "side_levels sd s = ?lv" "side_bitset sd s = HierarchicalBitset ticks" for sd
    by (cases sd; simp add: s_def)+
  have "free_chain h2 0 [0..<unat n]" using free_chain_upt [of 0 "unat n" h2] nxt pos by simp
  then have "book_rel s (\<lambda>_ _. []) [0..<unat n] (\<lambda>_. None)"
    using M n(3) h2 small n(2) ticks bs.new_ok bs.lv_new unfolding book_rel_def lists_inv_def index_inv_def bits_inv_def sides
    by (simp add: s_def)
  then show ?thesis using run M n(3) h2 by (intro exI [of _ s]) (simp add: s_def)
qed

end
