(* ===== verification/Book_Safety.thy ===== *)
theory Book_Safety
  imports Book_Invariant
begin

text \<open>
  What holds of the order book for every stream of orders, well formed or not: no memory error,
  the invariant at every point, the only exception that can escape, and the meaning of the best
  bid and offer.
\<close>

section \<open>Every operation keeps the invariant\<close>

lemma add_order_inv:
  assumes "book_inv s"
  shows "\<exists>s'. add_order s r = Some (Inr (), s') \<and> book_inv s' \<and> same_sizes s s'"
proof -
  obtain q fl loc where rel: "book_rel s q fl loc" using assms by (auto simp: book_inv_def)
  show ?thesis
  proof (cases "length (bids s) \<le> unat (na_price r) \<or> fl = []")
    case True
    then show ?thesis using add_order_skip [OF rel] assms by (simp add: same_sizes_def)
  next
    case False
    then obtain i fl' where "fl = i # fl'" "unat (na_price r) < length (bids s)" by (cases fl) auto
    then show ?thesis using add_order_rel rel unfolding book_inv_def by blast
  qed
qed

lemma cancel_order_inv:
  assumes "book_inv s"
  shows "\<exists>s'. cancel_order s key = Some s' \<and> book_inv s' \<and> same_sizes s s'"
proof -
  obtain q fl loc where rel: "book_rel s q fl loc" using assms by (auto simp: book_inv_def)
  show ?thesis
  proof (cases "lookup (orders s) key")
    case None
    then show ?thesis using cancel_order_missing [OF rel] assms by (simp add: same_sizes_def)
  next
    case (Some v)
    show ?thesis by (rule cancel_order_rel [OF rel Some]) (auto simp: book_inv_def)
  qed
qed

lemma book_inv_shares:
  "book_inv s \<Longrightarrow> book_inv (s\<lparr>pool := (pool s)[i := (pool s ! i)\<lparr>ord_shares := n\<rparr>]\<rparr>)"
  using book_rel_shares unfolding book_inv_def by blast

lemma execute_order_inv:
  assumes "book_inv s"
  shows "\<exists>res s'. execute_order s r = Some (res, s') \<and> book_inv s' \<and> same_sizes s s' \<and>
    (res = Inr () \<or> res = Inl Not_enough_shares \<and> s' = s)"
proof -
  obtain q fl loc where rel: "book_rel s q fl loc" using assms by (auto simp: book_inv_def)
  show ?thesis
  proof (cases "lookup (orders s) (ne_order_reference_number r)")
    case None
    then show ?thesis using execute_order_missing [OF rel] assms by (simp add: same_sizes_def)
  next
    case (Some v)
    show ?thesis
    proof (rule execute_order_rel [OF rel Some])
      fix i sd p
      let ?n = "ord_shares (pool s ! i)"
      assume few: "?n < ne_shares r \<longrightarrow> execute_order s r = Some (Inl Not_enough_shares, s)"
        and part: "ne_shares r < ?n \<longrightarrow> execute_order s r = Some (Inr (), s\<lparr>pool := (pool s)[i := (pool s ! i)
          \<lparr>ord_shares := ?n - ne_shares r\<rparr>]\<rparr>)"
        and full: "ne_shares r = ?n \<longrightarrow> (\<exists>s'. execute_order s r = Some (Inr (), s') \<and> same_sizes s s' \<and>
          book_rel s' (q(sd := (q sd)(p := remove1 i (q sd p)))) (i # fl) (loc(i := None)) \<and>
          lookup (orders s') = (lookup (orders s))(ne_order_reference_number r := None) \<and>
          (\<forall>x<length (pool s). x \<noteq> i \<longrightarrow> node_data (pool s' ! x) = node_data (pool s ! x)))"
      show ?thesis
      proof (cases "ne_shares r" ?n rule: linorder_cases)
        case less
        then show ?thesis using part book_inv_shares [OF assms] by (auto simp: same_sizes_def)
      next
        case equal
        then show ?thesis using full unfolding book_inv_def by blast
      next
        case greater
        then show ?thesis using few assms by (simp add: same_sizes_def)
      qed
    qed
  qed
qed

lemma dispatch_inv:
  assumes "book_inv s"
  shows "\<exists>res s'. dispatch s r = Some (res, s') \<and> book_inv s' \<and> same_sizes s s' \<and>
    (res = Inr () \<or> res = Inl Not_enough_shares \<and> s' = s)"
proof (cases r)
  case (AddOrder a)
  then show ?thesis using add_order_inv [OF assms, of a] by auto
next
  case (ExecuteOrder a)
  then show ?thesis using execute_order_inv [OF assms, of a] by auto
next
  case (CancelOrder a)
  then show ?thesis using cancel_order_inv [OF assms, of "nc_order_reference_number a"] by auto
qed

lemma consume_orders_inv:
  "book_inv s \<Longrightarrow> \<exists>res s'. consume_orders rs s = Some (res, s') \<and> book_inv s' \<and> same_sizes s s' \<and>
     (res = Inr () \<or> res = Inl Not_enough_shares)"
proof (induction rs arbitrary: s)
  case (Cons r rs)
  obtain res s1 where s1: "dispatch s r = Some (res, s1)" "book_inv s1" "same_sizes s s1"
    "res = Inr () \<or> res = Inl Not_enough_shares \<and> s1 = s" using dispatch_inv [OF Cons.prems] by blast
  show ?case
  proof (cases res)
    case (Inl e)
    then show ?thesis using s1 by auto
  next
    case (Inr u)
    then show ?thesis using Cons.IH [OF s1(2)] s1(1,3) by (auto simp: same_sizes_def)
  qed
qed (simp add: same_sizes_def)

section \<open>Best bid and offer\<close>

text \<open>The ticks of a side whose level has a head.\<close>

definition live_ticks :: "PriceLevel list \<Rightarrow> nat set" where
  "live_ticks ls = {p. p < length ls \<and> pl_head (ls ! p) \<noteq> NULL_INDEX}"

lemma live_ticks_levels:
  assumes "book_rel s q fl loc"
  shows "live_ticks (side_levels sd s) = levels (side_bitset sd s)"
    "live_ticks (side_levels sd s) = {p. p < length (bids s) \<and> q sd p \<noteq> []}"
proof -
  note R = book_relD [OF assms] and I = lists_invD [OF R(1)]
  have "pl_head (side_levels sd s ! p) \<noteq> NULL_INDEX \<longleftrightarrow> q sd p \<noteq> []" if "p < length (bids s)" for p
  proof (cases "q sd p")
    case (Cons i xs)
    then have "i < length (pool s)" using I(4) [of i sd p] by simp
    then show ?thesis using Cons I(1) I(9) [OF that, of sd] ptr_not_null [of i] by simp
  qed (use I(9) [OF that, of sd] in simp)
  then show live: "live_ticks (side_levels sd s) = {p. p < length (bids s) \<and> q sd p \<noteq> []}"
    using I(2) [of sd] by (auto simp: live_ticks_def)
  show "live_ticks (side_levels sd s) = levels (side_bitset sd s)"
    using live bits_invD(2) [OF R(5), of sd] by simp
qed

lemma best_prices:
  assumes "book_inv s"
  shows "lob_best_bid s = Some (if live_ticks (bids s) = {} then - 1 else of_nat (Max (live_ticks (bids s))))"
    "lob_best_offer s = Some (if live_ticks (asks s) = {} then - 1 else of_nat (Min (live_ticks (asks s))))"
proof -
  obtain q fl loc where rel: "book_rel s q fl loc" using assms by (auto simp: book_inv_def)
  note b = bits_invD(1) [OF book_relD(5) [OF rel]]
  show "lob_best_bid s = Some (if live_ticks (bids s) = {} then - 1 else of_nat (Max (live_ticks (bids s))))"
    using bs.best_bid_ok [OF b [of Buy]] live_ticks_levels(1) [OF rel, of Buy] by (simp add: lob_best_bid_def)
  show "lob_best_offer s = Some (if live_ticks (asks s) = {} then - 1 else of_nat (Min (live_ticks (asks s))))"
    using bs.best_offer_ok [OF b [of Sell]] live_ticks_levels(1) [OF rel, of Sell] by (simp add: lob_best_offer_def)
qed

lemma new_book_inv:
  assumes "n \<noteq> 0" "unat n \<le> 2 ^ e" "e \<le> 31" "k < 64" "ticks \<le> 262144"
  obtains s where "LimitOrderBook ticks (2 ^ e) True True (2 ^ k) n = Some (Inr s)" "book_inv s"
    "length (bids s) = ticks" "length (pool s) = unat n" "lookup (orders s) = Map.empty"
  using LimitOrderBook_new [OF assms] unfolding book_inv_def by blast

section \<open>The live orders\<close>

text \<open>
  The shares of the order the map finds under a reference number, and how one message is meant
  to change them. An add is accepted when its price has a level and the pool has a free node.
\<close>

definition live_shares :: "lob \<Rightarrow> u64 \<rightharpoonup> u32" where
  "live_shares s key =
     map_option (\<lambda>v. ord_shares (pool s ! unat (v AND INDEX_MASK))) (lookup (orders s) key)"

definition accepts :: "lob \<Rightarrow> NormalizedAddOrder \<Rightarrow> bool" where
  "accepts s r \<longleftrightarrow> unat (na_price r) < length (bids s) \<and> next_free_index s \<noteq> NULL_INDEX"

fun ref_shares :: "bool \<Rightarrow> NormalizedOrder \<Rightarrow> (u64 \<rightharpoonup> u32) \<Rightarrow> (error + unit) \<times> (u64 \<rightharpoonup> u32)" where
  "ref_shares ok (AddOrder r) f =
     (Inr (), if ok then f(na_order_reference_number r \<mapsto> na_shares r) else f)"
| "ref_shares ok (CancelOrder r) f = (Inr (), f(nc_order_reference_number r := None))"
| "ref_shares ok (ExecuteOrder r) f =
     (case f (ne_order_reference_number r) of
        None \<Rightarrow> (Inr (), f)
      | Some n \<Rightarrow>
          if n < ne_shares r then (Inl Not_enough_shares, f)
          else (Inr (), f(ne_order_reference_number r :=
                   (if n = ne_shares r then None else Some (n - ne_shares r)))))"

lemma live_shares_rel:
  assumes rel: "book_rel s q fl loc"
  shows "live_shares s key = Some n \<longleftrightarrow>
    (\<exists>i sd p. i < length (pool s) \<and> loc i = Some (sd, p) \<and> ord_ref (pool s ! i) = key \<and>
       lookup (orders s) key = Some (side_tag sd OR of_nat i) \<and> ord_shares (pool s ! i) = n)"
    (is "_ \<longleftrightarrow> ?r")
proof (cases "lookup (orders s) key")
  case None
  then show ?thesis by (simp add: live_shares_def)
next
  case (Some v)
  obtain pos i sd p where f: "i < length (pool s)" "loc i = Some (sd, p)" "ord_ref (pool s ! i) = key"
    "v AND INDEX_MASK = of_nat i" "unat (of_nat i :: u32) = i" "v = side_tag sd OR of_nat i"
    by (rule find_order [OF rel Some])
  have "j = i" if "j < length (pool s)" "v = side_tag sd' OR of_nat j" for j sd'
  proof -
    have "j < 2 ^ 31" using that(1) lists_invD(1) [OF book_relD(1) [OF rel]] by linarith
    then have "unat (of_nat j :: u32) = j" "of_nat j = (of_nat i :: u32)"
      using unat_ptr [of j] untag_index [of j sd'] that(2) f(4) by simp_all
    then show ?thesis using f(5) by simp
  qed
  then have "?r \<longleftrightarrow> ord_shares (pool s ! i) = n" using Some f by auto
  then show ?thesis using Some f(4,5) by (simp add: live_shares_def)
qed

lemma live_shares_None: "live_shares s key = None \<longleftrightarrow> lookup (orders s) key = None"
  by (simp add: live_shares_def)

lemma live_shares_step:
  assumes rel: "book_rel s q fl loc" and i: "loc i = None \<or> ord_ref (pool s ! i) = key"
    and lk: "lookup (orders s') = (lookup (orders s))(key := w)"
    and data: "\<And>x. x < length (pool s) \<Longrightarrow> x \<noteq> i \<Longrightarrow> ord_shares (pool s' ! x) = ord_shares (pool s ! x)"
  shows "live_shares s' =
    (live_shares s)(key := map_option (\<lambda>v. ord_shares (pool s' ! unat (v AND INDEX_MASK))) w)"
proof
  fix k
  show "live_shares s' k =
    ((live_shares s)(key := map_option (\<lambda>v. ord_shares (pool s' ! unat (v AND INDEX_MASK))) w)) k"
  proof (cases "k = key")
    case True
    then show ?thesis using lk by (simp add: live_shares_def)
  next
    case False
    then have k: "lookup (orders s') k = lookup (orders s) k" using lk by simp
    show ?thesis
    proof (cases "lookup (orders s) k")
      case None
      then show ?thesis using k False by (simp add: live_shares_def)
    next
      case (Some v)
      obtain pos j sd p where f: "j < length (pool s)" "loc j = Some (sd, p)" "ord_ref (pool s ! j) = k"
        "v AND INDEX_MASK = of_nat j" "unat (of_nat j :: u32) = j" by (rule find_order [OF rel Some])
      have "j \<noteq> i" using f(2,3) i False by auto
      then show ?thesis using Some k False f data [of j] by (simp add: live_shares_def)
    qed
  qed
qed

lemma live_node:
  assumes "book_rel s q fl loc" "i < length (pool s)" "v = side_tag sd OR of_nat i"
  shows "unat (v AND INDEX_MASK) = i"
proof -
  have "i < 2 ^ 31" using assms(2) lists_invD(1) [OF book_relD(1) [OF assms(1)]] by linarith
  then show ?thesis using assms(3) untag_index unat_ptr by simp
qed

lemma add_order_shares:
  assumes inv: "book_inv s"
  shows "\<exists>s'. add_order s r = Some (fst (ref_shares (accepts s r) (AddOrder r) (live_shares s)), s') \<and>
    live_shares s' = snd (ref_shares (accepts s r) (AddOrder r) (live_shares s))"
proof -
  obtain q fl loc where rel: "book_rel s q fl loc" using inv by (auto simp: book_inv_def)
  show ?thesis
  proof (cases "accepts s r")
    case False
    then show ?thesis using add_order_skip [OF rel, of r] free_empty_iff [OF rel] by (auto simp: accepts_def)
  next
    case True
    then obtain i fl' where fl: "fl = i # fl'" and p: "unat (na_price r) < length (bids s)"
      using free_empty_iff [OF rel] by (cases fl) (auto simp: accepts_def)
    let ?sd = "order_side r" and ?key = "na_order_reference_number r"
    from add_order_rel [OF rel [unfolded fl] p] obtain s' q' loc' where s': "add_order s r = Some (Inr (), s')"
      "lookup (orders s') = (lookup (orders s))(?key := Some (side_tag ?sd OR of_nat i))"
      "\<forall>x<length (pool s). node_data (pool s' ! x) =
         (if x = i then (?key, na_shares r, na_price r) else node_data (pool s ! x))" by blast
    have i: "i < length (pool s)" "loc i = None"
      using lists_invD(6) [OF book_relD(1) [OF rel], of i] fl by auto
    have "live_shares s' = (live_shares s)(?key := map_option
      (\<lambda>v. ord_shares (pool s' ! unat (v AND INDEX_MASK))) (Some (side_tag ?sd OR of_nat i)))"
      using s'(3) i(2) by (intro live_shares_step [OF rel _ s'(2), of i]) (auto simp: node_data_def)
    moreover have "ord_shares (pool s' ! i) = na_shares r"
      using s'(3) [rule_format, OF i(1)] by (simp add: node_data_def)
    ultimately show ?thesis using s'(1) True live_node [OF rel i(1) refl] by simp
  qed
qed

lemma cancel_order_shares:
  assumes inv: "book_inv s"
  shows "\<exists>s'. cancel_order s key = Some s' \<and> live_shares s' = (live_shares s)(key := None)"
proof -
  obtain q fl loc where rel: "book_rel s q fl loc" using inv by (auto simp: book_inv_def)
  show ?thesis
  proof (cases "lookup (orders s) key")
    case None
    then show ?thesis using cancel_order_missing [OF rel] live_shares_None by (metis fun_upd_triv)
  next
    case (Some v)
    show ?thesis
    proof (rule cancel_order_rel [OF rel Some])
      fix i s' assume s': "ord_ref (pool s ! i) = key" "cancel_order s key = Some s'"
        "lookup (orders s') = (lookup (orders s))(key := None)"
        "\<forall>x<length (pool s). node_data (pool s' ! x) = node_data (pool s ! x)"
      then show ?thesis using live_shares_step [OF rel _ s'(3), of i] by (simp add: node_data_def)
    qed
  qed
qed

lemma execute_order_shares:
  assumes inv: "book_inv s"
  shows "\<exists>s'. execute_order s r = Some (fst (ref_shares ok (ExecuteOrder r) (live_shares s)), s') \<and>
    live_shares s' = snd (ref_shares ok (ExecuteOrder r) (live_shares s))"
proof -
  obtain q fl loc where rel: "book_rel s q fl loc" using inv by (auto simp: book_inv_def)
  let ?key = "ne_order_reference_number r"
  show ?thesis
  proof (cases "lookup (orders s) ?key")
    case None
    then show ?thesis using execute_order_missing [OF rel] live_shares_None [of s ?key] by simp
  next
    case (Some v)
    show ?thesis
    proof (rule execute_order_rel [OF rel Some])
      fix i sd p
      let ?n = "ord_shares (pool s ! i)"
      let ?h = "(pool s)[i := (pool s ! i)\<lparr>ord_shares := ?n - ne_shares r\<rparr>]"
      assume i: "v = side_tag sd OR of_nat i" "i < length (pool s)" "ord_ref (pool s ! i) = ?key"
        and few: "?n < ne_shares r \<longrightarrow> execute_order s r = Some (Inl Not_enough_shares, s)"
        and part: "ne_shares r < ?n \<longrightarrow> execute_order s r = Some (Inr (), s\<lparr>pool := ?h\<rparr>)"
        and full: "ne_shares r = ?n \<longrightarrow> (\<exists>s'. execute_order s r = Some (Inr (), s') \<and> same_sizes s s' \<and>
          book_rel s' (q(sd := (q sd)(p := remove1 i (q sd p)))) (i # fl) (loc(i := None)) \<and>
          lookup (orders s') = (lookup (orders s))(?key := None) \<and>
          (\<forall>x<length (pool s). x \<noteq> i \<longrightarrow> node_data (pool s' ! x) = node_data (pool s ! x)))"
      have node: "unat (v AND INDEX_MASK) = i" using live_node [OF rel i(2,1)] .
      have live: "live_shares s ?key = Some ?n" using Some node by (simp add: live_shares_def)
      show ?thesis
      proof (cases "ne_shares r" ?n rule: linorder_cases)
        case less
        have "live_shares (s\<lparr>pool := ?h\<rparr>) = (live_shares s)(?key := map_option
          (\<lambda>v. ord_shares (?h ! unat (v AND INDEX_MASK))) (Some v))"
          using live_shares_step [OF rel disjI2 [OF i(3)], of "s\<lparr>pool := ?h\<rparr>" "Some v"] Some by (simp add: fun_upd_idem)
        then show ?thesis using part less live node i(2) by auto
      next
        case equal
        then obtain s' where s': "execute_order s r = Some (Inr (), s')"
          "lookup (orders s') = (lookup (orders s))(?key := None)"
          "\<forall>x<length (pool s). x \<noteq> i \<longrightarrow> node_data (pool s' ! x) = node_data (pool s ! x)" using full by blast
        then show ?thesis using live_shares_step [OF rel disjI2 [OF i(3)] s'(2)] equal live
          by (simp add: node_data_def)
      next
        case greater
        then show ?thesis using few live by simp
      qed
    qed
  qed
qed

text \<open>A book with four orders and 64 price levels.\<close>

lemma small_book:
  obtains s where "LimitOrderBook 64 4 True True (2 ^ 12) 4 = Some (Inr s)" "book_inv s"
proof -
  obtain s where "LimitOrderBook 64 (2 ^ 2) True True (2 ^ 12) 4 = Some (Inr s)" "book_inv s"
    by (rule new_book_inv [of 4 2 12 64]) auto
  then show ?thesis using that by simp
qed

section \<open>Properties\<close>

text \<open>A buy order used in the examples.\<close>

definition sample_add :: NormalizedAddOrder where
  "sample_add = \<lparr>na_timestamp = 0, na_order_reference_number = 7, na_shares = 100, na_price = 25,
     na_stock_locate = 0, na_tracking_number = 0, na_stock = replicate 8 32, na_indicator = 0x42\<rparr>"

text \<open>
  C6. A book of \<open>max_orders\<close> nodes, at most the capacity of its order map,
  survives every stream of orders: with any prices, sides and share counts, unknown or repeated
  reference numbers, and an exhausted pool, no access leaves its array, the list, map and bitset
  invariants hold at the end, and the only exception that can stop the consumer is
  the one for an execution of more shares than the order has; in particular the map never fills up.
\<close>

theorem book_survives_any_stream:
  assumes "max_orders \<noteq> 0" "unat max_orders \<le> ORDER_MAP_SIZE" "k < 64"
  shows "\<exists>s res s'. LimitOrderBook MAX_TICKS ORDER_MAP_SIZE True True (2 ^ k) max_orders = Some (Inr s) \<and>
    consume_orders rs s = Some (res, s') \<and> book_inv s' \<and> (res = Inr () \<or> res = Inl Not_enough_shares)"
proof -
  have size: "ORDER_MAP_SIZE = 2 ^ 22" by (simp add: ORDER_MAP_SIZE_def)
  obtain s where s: "LimitOrderBook MAX_TICKS ORDER_MAP_SIZE True True (2 ^ k) max_orders = Some (Inr s)" "book_inv s"
    unfolding size using new_book_inv [of max_orders 22 k MAX_TICKS] assms size by (auto simp: MAX_TICKS_def)
  then show ?thesis using consume_orders_inv [OF s(2), of rs] by blast
qed

theorem book_survives_any_stream_witness:
  "\<exists>s res s'. LimitOrderBook MAX_TICKS ORDER_MAP_SIZE True True (2 ^ 12) 1000 = Some (Inr s) \<and>
    consume_orders [CancelOrder \<lparr>nc_timestamp = 0, nc_order_reference_number = 7, nc_shares = 0,
      nc_stock_locate = 0, nc_tracking_number = 0\<rparr>] s = Some (res, s') \<and> book_inv s' \<and>
      (res = Inr () \<or> res = Inl Not_enough_shares)"
proof -
  have "(1000 :: u64) \<noteq> 0" "unat (1000 :: u64) \<le> ORDER_MAP_SIZE" "12 < (64 :: nat)"
    by (simp_all add: ORDER_MAP_SIZE_def)
  then show ?thesis by (rule book_survives_any_stream)
qed

text \<open>
  C7. After any stream of orders the best bid is the highest price whose bid level
  has a head node, the best offer the lowest price whose ask level has one, and each is \<open>-1\<close> as
  \<^verbatim>\<open>size_t\<close> exactly when its side has no such level.
\<close>

theorem best_prices_exact:
  assumes "max_orders \<noteq> 0" "unat max_orders \<le> ORDER_MAP_SIZE" "k < 64"
    and "LimitOrderBook MAX_TICKS ORDER_MAP_SIZE True True (2 ^ k) max_orders = Some (Inr s)"
    and "consume_orders rs s = Some (res, s')"
  shows "lob_best_bid s' = Some (if live_ticks (bids s') = {} then - 1 else of_nat (Max (live_ticks (bids s')))) \<and>
    lob_best_offer s' = Some (if live_ticks (asks s') = {} then - 1 else of_nat (Min (live_ticks (asks s'))))"
proof -
  have size: "ORDER_MAP_SIZE = 2 ^ 22" by (simp add: ORDER_MAP_SIZE_def)
  have "book_inv s" using new_book_inv [of max_orders 22 k MAX_TICKS] assms(1-4) size
    by (auto simp: MAX_TICKS_def)
  then have "book_inv s'" using consume_orders_inv [of s rs] assms(5) by auto
  then show ?thesis using best_prices by blast
qed

theorem best_prices_exact_witness:
  "\<exists>s res s'. LimitOrderBook MAX_TICKS ORDER_MAP_SIZE True True (2 ^ 12) 1000 = Some (Inr s) \<and>
    consume_orders [AddOrder sample_add] s = Some (res, s') \<and>
    lob_best_bid s' = Some (if live_ticks (bids s') = {} then - 1 else of_nat (Max (live_ticks (bids s'))))"
proof -
  have c: "(1000 :: u64) \<noteq> 0" "unat (1000 :: u64) \<le> ORDER_MAP_SIZE" "12 < (64 :: nat)"
    by (simp_all add: ORDER_MAP_SIZE_def)
  obtain s where s: "LimitOrderBook MAX_TICKS ORDER_MAP_SIZE True True (2 ^ 12) 1000 = Some (Inr s)" "book_inv s"
    using new_book_inv [of 1000 22 12 MAX_TICKS] by (auto simp: MAX_TICKS_def ORDER_MAP_SIZE_def)
  obtain res s' where s': "consume_orders [AddOrder sample_add] s = Some (res, s')"
    using consume_orders_inv [OF s(2), of "[AddOrder sample_add]"] by blast
  from best_prices_exact [OF c s(1) s'] s(1) s' show ?thesis by blast
qed

text \<open>
  C8. One message changes the live orders as it should, on every branch:
  an accepted add records its shares, also for a repeated reference number, and a rejected
  one changes nothing; a cancel removes exactly its order; an execution subtracts its shares,
  removes the order when none are left, ignores an unknown order, and throws, changing nothing,
  when it asks for more shares than the order has.
\<close>

theorem dispatch_updates_live_orders:
  assumes "book_inv s"
  shows "\<exists>s'. dispatch s r = Some (fst (ref_shares (case r of AddOrder a \<Rightarrow> accepts s a | _ \<Rightarrow> False) r (live_shares s)), s') \<and>
    live_shares s' = snd (ref_shares (case r of AddOrder a \<Rightarrow> accepts s a | _ \<Rightarrow> False) r (live_shares s))"
proof (cases r)
  case (AddOrder a)
  then show ?thesis using add_order_shares [OF assms, of a] by (simp del: ref_shares.simps)
next
  case (ExecuteOrder a)
  then show ?thesis using execute_order_shares [OF assms, of a False] by (simp del: ref_shares.simps)
next
  case (CancelOrder a)
  then show ?thesis using cancel_order_shares [OF assms, of "nc_order_reference_number a"] by auto
qed

theorem dispatch_updates_live_orders_witness:
  "\<exists>s s'. LimitOrderBook 64 4 True True (2 ^ 12) 4 = Some (Inr s) \<and>
    dispatch s (AddOrder sample_add) = Some (Inr (), s') \<and> live_shares s' 7 = Some 100"
proof -
  obtain s where s: "LimitOrderBook 64 (2 ^ 2) True True (2 ^ 12) 4 = Some (Inr s)" "book_inv s"
    "length (bids s) = 64" "length (pool s) = 4" by (rule new_book_inv [of 4 2 12 64]) auto
  have "next_free_index s = 0"
    using s(1) by (auto simp: LimitOrderBook_def Let_def split: sum.splits if_splits bind_splits)
  then have "accepts s sample_add" using s(3) by (simp add: accepts_def sample_add_def NULL_INDEX_def)
  then show ?thesis using dispatch_updates_live_orders [OF s(2), of "AddOrder sample_add"] s(1)
    by (auto simp: sample_add_def)
qed

end
