(* ===== verification/Book_Refinement.thy ===== *)
theory Book_Refinement
  imports Book_Safety "HOL-Library.AList"
begin

text \<open>
  The reference order book of \<^verbatim>\<open>tests/test_limit_order_book.cpp\<close> and the proof that the pooled,
  linked and indexed book refines it. The reference keeps a list of reference numbers per price
  in an ordered map and the orders in a hash map; both are association lists here.
\<close>

section \<open>The reference book\<close>

record MockOrder =
  mo_ref :: u64
  mo_shares :: u32
  mo_price :: u32
  mo_side :: Side

record MockOrderBook =
  mb_bids :: "(u32 \<times> u64 list) list"
  mb_asks :: "(u32 \<times> u64 list) list"
  mb_orders :: "(u64 \<times> MockOrder) list"

definition empty_mock :: MockOrderBook where
  "empty_mock = \<lparr>mb_bids = [], mb_asks = [], mb_orders = []\<rparr>"

fun mb_side :: "Side \<Rightarrow> MockOrderBook \<Rightarrow> (u32 \<times> u64 list) list" where
  "mb_side Buy m = mb_bids m"
| "mb_side Sell m = mb_asks m"

fun put_side :: "Side \<Rightarrow> (u32 \<times> u64 list) list \<Rightarrow> MockOrderBook \<Rightarrow> MockOrderBook" where
  "put_side Buy ls m = m\<lparr>mb_bids := ls\<rparr>"
| "put_side Sell ls m = m\<lparr>mb_asks := ls\<rparr>"

text \<open>\<^verbatim>\<open>operator[]\<close> of \<^verbatim>\<open>std::map\<close> yields an empty list for a missing price.\<close>

definition price_list :: "(u32 \<times> u64 list) list \<Rightarrow> u32 \<Rightarrow> u64 list" where
  "price_list ls p = (case map_of ls p of None \<Rightarrow> [] | Some l \<Rightarrow> l)"

definition mock_add_order :: "MockOrderBook \<Rightarrow> MockOrder \<Rightarrow> MockOrderBook" where
  "mock_add_order m r =
     (let m1 = m\<lparr>mb_orders := AList.update (mo_ref r) r (mb_orders m)\<rparr>;
          ls = mb_side (mo_side r) m1
      in put_side (mo_side r) (AList.update (mo_price r) (price_list ls (mo_price r) @ [mo_ref r]) ls) m1)"

definition mock_cancel_order :: "MockOrderBook \<Rightarrow> u64 \<Rightarrow> MockOrderBook" where
  "mock_cancel_order m key =
     (case map_of (mb_orders m) key of
        None \<Rightarrow> m
      | Some r \<Rightarrow>
          let ls = mb_side (mo_side r) m;
              l = removeAll key (price_list ls (mo_price r));
              ls' = (if l = [] then AList.delete (mo_price r) ls else AList.update (mo_price r) l ls);
              m1 = put_side (mo_side r) ls' m
          in m1\<lparr>mb_orders := AList.delete key (mb_orders m1)\<rparr>)"

definition mock_execute_order :: "MockOrderBook \<Rightarrow> u64 \<Rightarrow> u32 \<Rightarrow> MockOrderBook" where
  "mock_execute_order m key n =
     (case map_of (mb_orders m) key of
        None \<Rightarrow> m
      | Some r \<Rightarrow>
          let r' = r\<lparr>mo_shares := mo_shares r - n\<rparr>;
              m1 = m\<lparr>mb_orders := AList.update key r' (mb_orders m)\<rparr>
          in if mo_shares r' = 0 then mock_cancel_order m1 key else m1)"

text \<open>\<^verbatim>\<open>rbegin()->first\<close> and \<^verbatim>\<open>begin()->first\<close> of an ordered map are its largest and smallest key.\<close>

definition mock_best_bid :: "MockOrderBook \<Rightarrow> u64" where
  "mock_best_bid m = (if mb_bids m = [] then - 1 else ucast (Max (fst ` set (mb_bids m))))"

definition mock_best_offer :: "MockOrderBook \<Rightarrow> u64" where
  "mock_best_offer m = (if mb_asks m = [] then - 1 else ucast (Min (fst ` set (mb_asks m))))"

text \<open>
  The steps the test drives both books with, and the streams it generates: reference
  numbers that are not live, prices below the tick limit, no more live orders than nodes, and
  executions of at most the shares that are left.
\<close>

definition mock_of :: "NormalizedAddOrder \<Rightarrow> MockOrder" where
  "mock_of r = \<lparr>mo_ref = na_order_reference_number r, mo_shares = na_shares r, mo_price = na_price r,
     mo_side = order_side r\<rparr>"

fun mock_dispatch :: "MockOrderBook \<Rightarrow> NormalizedOrder \<Rightarrow> MockOrderBook" where
  "mock_dispatch m (AddOrder r) = mock_add_order m (mock_of r)"
| "mock_dispatch m (ExecuteOrder r) = mock_execute_order m (ne_order_reference_number r) (ne_shares r)"
| "mock_dispatch m (CancelOrder r) = mock_cancel_order m (nc_order_reference_number r)"

fun valid_order :: "nat \<Rightarrow> nat \<Rightarrow> MockOrderBook \<Rightarrow> NormalizedOrder \<Rightarrow> bool" where
  "valid_order ticks n m (AddOrder r) =
     (unat (na_price r) < ticks \<and> map_of (mb_orders m) (na_order_reference_number r) = None \<and>
      length (mb_orders m) < n)"
| "valid_order ticks n m (ExecuteOrder r) =
     (case map_of (mb_orders m) (ne_order_reference_number r) of
        None \<Rightarrow> True
      | Some o1 \<Rightarrow> ne_shares r \<le> mo_shares o1)"
| "valid_order ticks n m (CancelOrder r) = True"

fun valid_orders :: "nat \<Rightarrow> nat \<Rightarrow> NormalizedOrder list \<Rightarrow> MockOrderBook \<Rightarrow> bool" where
  "valid_orders ticks n [] m = True"
| "valid_orders ticks n (r # rs) m =
     (valid_order ticks n m r \<and> valid_orders ticks n rs (mock_dispatch m r))"

fun mock_run :: "NormalizedOrder list \<Rightarrow> MockOrderBook \<Rightarrow> MockOrderBook" where
  "mock_run [] m = m"
| "mock_run (r # rs) m = mock_run rs (mock_dispatch m r)"

section \<open>Reading a level of the book\<close>

text \<open>The reference numbers on a level, in the order its links give them.\<close>

fun walk :: "nat \<Rightarrow> Order list \<Rightarrow> u32 \<Rightarrow> u64 list option" where
  "walk 0 h i = None"
| "walk (Suc fuel) h i =
     (if i = NULL_INDEX then Some []
      else do {
        r \<leftarrow> arr_get h (unat i);
        rest \<leftarrow> walk fuel h (ord_next r);
        Some (ord_ref r # rest)
      })"

definition level_refs :: "lob \<Rightarrow> Side \<Rightarrow> nat \<Rightarrow> u64 list option" where
  "level_refs s sd p = do {
     l \<leftarrow> arr_get (side_levels sd s) p;
     walk (Suc (length (pool s))) (pool s) (pl_head l)
   }"

lemma walk_dseg:
  assumes "dseg h a xs NULL_INDEX" "set xs \<subseteq> {..<length h}" "length h \<le> 2 ^ 31" "length xs < fuel"
  shows "walk fuel h (first_ptr xs NULL_INDEX) = Some (map (\<lambda>i. ord_ref (h ! i)) xs)"
  using assms
proof (induction xs arbitrary: a fuel)
  case (Cons x xs)
  then obtain f where f: "fuel = Suc f" by (cases fuel) auto
  have x: "x < 2 ^ 31" "x < length h" using Cons.prems by auto
  then show ?case using f Cons.IH [of "of_nat x" f] Cons.prems unat_ptr [OF x(1)] ptr_not_null [OF x(1)]
    by simp
next
  case Nil
  then show ?case by (cases fuel) auto
qed

lemma level_refs_rel:
  assumes rel: "book_rel s q fl loc" and p: "p < length (bids s)"
  shows "level_refs s sd p = Some (map (\<lambda>i. ord_ref (pool s ! i)) (q sd p))"
proof -
  note I = lists_invD [OF book_relD(1) [OF rel]]
  have sub: "set (q sd p) \<subseteq> {..<length (pool s)}" using I(4) by auto
  then have "length (q sd p) \<le> length (pool s)"
    using card_mono [OF _ sub] distinct_card [OF I(3) [of sd p]] by simp
  then show ?thesis
    using walk_dseg [OF I(11) [OF p] sub I(1), of "Suc (length (pool s))"] I(2) [of sd] I(9) [OF p, of sd] p
    by (simp add: level_refs_def del: walk.simps)
qed

section \<open>The simulation relation\<close>

lemma mock_side_put [simp]:
  "mb_side sd' (put_side sd ls m) = (if sd' = sd then ls else mb_side sd' m)"
  "mb_orders (put_side sd ls m) = mb_orders m"
  "mb_side sd (m\<lparr>mb_orders := os\<rparr>) = mb_side sd m"
  by (cases sd; cases sd'; simp) (cases sd; simp)+

definition node_order :: "Side \<Rightarrow> Order \<Rightarrow> MockOrder" where
  "node_order sd r = \<lparr>mo_ref = ord_ref r, mo_shares = ord_shares r, mo_price = ord_price r, mo_side = sd\<rparr>"

definition indexed :: "lob \<Rightarrow> location \<Rightarrow> bool" where
  "indexed s loc \<longleftrightarrow> (\<forall>i<length (pool s). \<forall>sd p. loc i = Some (sd, p) \<longrightarrow>
     lookup (orders s) (ord_ref (pool s ! i)) = Some (side_tag sd OR of_nat i))"

definition queues_agree :: "lob \<Rightarrow> queues \<Rightarrow> MockOrderBook \<Rightarrow> bool" where
  "queues_agree s q m \<longleftrightarrow> (\<forall>sd. distinct (map fst (mb_side sd m)) \<and>
     (\<forall>p. map_of (mb_side sd m) p = (if q sd (unat p) = [] then None
        else Some (map (\<lambda>i. ord_ref (pool s ! i)) (q sd (unat p))))))"

definition orders_agree :: "lob \<Rightarrow> location \<Rightarrow> MockOrderBook \<Rightarrow> bool" where
  "orders_agree s loc m \<longleftrightarrow> distinct (map fst (mb_orders m)) \<and>
     (\<forall>key r. map_of (mb_orders m) key = Some r \<longleftrightarrow>
        (\<exists>i sd p. i < length (pool s) \<and> loc i = Some (sd, p) \<and> ord_ref (pool s ! i) = key \<and>
           r = node_order sd (pool s ! i)))"

definition mock_rel :: "lob \<Rightarrow> MockOrderBook \<Rightarrow> queues \<Rightarrow> nat list \<Rightarrow> location \<Rightarrow> bool" where
  "mock_rel s m q fl loc \<longleftrightarrow> book_rel s q fl loc \<and> indexed s loc \<and> queues_agree s q m \<and> orders_agree s loc m"

lemma indexedD:
  "indexed s loc \<Longrightarrow> i < length (pool s) \<Longrightarrow> loc i = Some (sd, p) \<Longrightarrow>
   lookup (orders s) (ord_ref (pool s ! i)) = Some (side_tag sd OR of_nat i)"
  unfolding indexed_def by blast

lemma indexed_inj:
  assumes rel: "book_rel s q fl loc" and ix: "indexed s loc" and ij: "i < length (pool s)" "j < length (pool s)"
    "loc i = Some a" "loc j = Some b" "ord_ref (pool s ! i) = ord_ref (pool s ! j)"
  shows "i = j"
proof -
  obtain sd p sd' p' where a: "a = (sd, p)" "b = (sd', p')" by (cases a; cases b) auto
  have "side_tag sd OR of_nat i = side_tag sd' OR (of_nat j :: u32)"
    using indexedD [OF ix ij(1) ij(3) [unfolded a]] indexedD [OF ix ij(2) ij(4) [unfolded a]] ij(5) by simp
  then show ?thesis using live_node [OF rel ij(1) refl, of sd] live_node [OF rel ij(2) refl, of sd'] by simp
qed

lemma orders_agree_live:
  assumes rel: "book_rel s q fl loc" and ix: "indexed s loc" and oa: "orders_agree s loc m"
  shows "live_shares s key = map_option mo_shares (map_of (mb_orders m) key)"
proof (cases "map_of (mb_orders m) key")
  case None
  then have "live_shares s key \<noteq> Some n" for n
    using oa unfolding live_shares_rel [OF rel] orders_agree_def by (metis not_None_eq)
  then show ?thesis using None by (cases "live_shares s key") auto
next
  case (Some r)
  then obtain i sd p where "i < length (pool s)" "loc i = Some (sd, p)" "ord_ref (pool s ! i) = key"
    "r = node_order sd (pool s ! i)" using oa unfolding orders_agree_def by metis
  then have "live_shares s key = Some (mo_shares r)"
    using ix unfolding live_shares_rel [OF rel] indexed_def node_order_def by auto
  then show ?thesis using Some by simp
qed

lemma live_count:
  assumes rel: "book_rel s q [] loc" and ix: "indexed s loc" and oa: "orders_agree s loc m"
  shows "length (pool s) \<le> length (mb_orders m)"
proof -
  note I = lists_invD [OF book_relD(1) [OF rel]]
  let ?f = "\<lambda>i. ord_ref (pool s ! i)"
  have loc: "\<exists>a. loc i = Some a" if "i < length (pool s)" for i using I(6) [of i] that by auto
  have "inj_on ?f {..<length (pool s)}"
    using indexed_inj [OF rel ix] loc by (intro inj_onI) (metis lessThan_iff)
  moreover have "?f ` {..<length (pool s)} \<subseteq> fst ` set (mb_orders m)"
  proof
    fix key assume "key \<in> ?f ` {..<length (pool s)}"
    then obtain i where "i < length (pool s)" "?f i = key" by auto
    then have "\<exists>r. map_of (mb_orders m) key = Some r" using loc [of i] oa unfolding orders_agree_def by fastforce
    then show "key \<in> fst ` set (mb_orders m)" by (auto dest: map_of_SomeD intro: rev_image_eqI)
  qed
  ultimately have "length (pool s) \<le> card (fst ` set (mb_orders m))"
    using card_inj_on_le [of ?f "{..<length (pool s)}" "fst ` set (mb_orders m)"] by simp
  also have "\<dots> \<le> length (mb_orders m)" using card_image_le [of "set (mb_orders m)" fst] card_length [of "mb_orders m"] by simp
  finally show ?thesis .
qed

section \<open>Adding\<close>

text \<open>A new state whose nodes other than \<open>i\<close> carry what they carried before.\<close>

definition same_nodes :: "lob \<Rightarrow> lob \<Rightarrow> nat \<Rightarrow> bool" where
  "same_nodes s s' i \<longleftrightarrow> length (pool s') = length (pool s) \<and>
     (\<forall>x<length (pool s). x \<noteq> i \<longrightarrow> node_data (pool s' ! x) = node_data (pool s ! x))"

lemma same_nodesD:
  assumes "same_nodes s s' i" "x < length (pool s)" "x \<noteq> i"
  shows "ord_ref (pool s' ! x) = ord_ref (pool s ! x)" "node_order sd (pool s' ! x) = node_order sd (pool s ! x)"
  using assms unfolding same_nodes_def node_data_def node_order_def by auto

lemma fresh_ref:
  assumes oa: "orders_agree s loc m" and key: "map_of (mb_orders m) key = None"
    and i: "i < length (pool s)" "loc i = Some (sd, p)"
  shows "ord_ref (pool s ! i) \<noteq> key"
proof
  assume "ord_ref (pool s ! i) = key"
  then have "map_of (mb_orders m) key = Some (node_order sd (pool s ! i))"
    using oa i unfolding orders_agree_def by blast
  then show False using key by simp
qed

lemma indexed_add:
  assumes ix: "indexed s loc" and oa: "orders_agree s loc m" and key: "map_of (mb_orders m) key = None"
    and same: "same_nodes s s' i" and ref: "ord_ref (pool s' ! i) = key"
    and lk: "lookup (orders s') = (lookup (orders s))(key \<mapsto> side_tag sd OR of_nat i)"
  shows "indexed s' (loc(i := Some (sd, p)))"
  unfolding indexed_def
proof (intro allI impI)
  fix x sd' p' assume x: "x < length (pool s')" "(loc(i := Some (sd, p))) x = Some (sd', p')"
  show "lookup (orders s') (ord_ref (pool s' ! x)) = Some (side_tag sd' OR of_nat x)"
  proof (cases "x = i")
    case True
    then show ?thesis using lk ref x(2) by simp
  next
    case False
    then have "x < length (pool s)" "loc x = Some (sd', p')" using same x by (auto simp: same_nodes_def)
    then show ?thesis
      using indexedD [OF ix] fresh_ref [OF oa key] lk same_nodesD(1) [OF same _ False] by simp
  qed
qed

lemma queues_agree_add:
  assumes rel: "book_rel s q fl loc" and qa: "queues_agree s q m" and i: "loc i = None"
    and same: "same_nodes s s' i" and ref: "ord_ref (pool s' ! i) = mo_ref r"
    and p: "p = unat (mo_price r)" and sd: "sd = mo_side r"
  shows "queues_agree s' (q(sd := (q sd)(p := q sd p @ [i]))) (mock_add_order m r)"
proof -
  note I = lists_invD [OF book_relD(1) [OF rel]]
  let ?q = "q(sd := (q sd)(p := q sd p @ [i]))"
  have refs: "map (\<lambda>i. ord_ref (pool s' ! i)) (q sd' p') = map (\<lambda>i. ord_ref (pool s ! i)) (q sd' p')" for sd' p'
  proof (rule map_cong [OF refl])
    fix x assume "x \<in> set (q sd' p')"
    then have "x < length (pool s)" "x \<noteq> i" using I(4) [of x sd' p'] i by auto
    then show "ord_ref (pool s' ! x) = ord_ref (pool s ! x)" by (rule same_nodesD [OF same])
  qed
  have lists: "price_list (mb_side sd m) (mo_price r) = map (\<lambda>i. ord_ref (pool s ! i)) (q sd p)"
    using qa p unfolding queues_agree_def price_list_def by simp
  have side: "mb_side sd' (mock_add_order m r) = (if sd' = sd
    then AList.update (mo_price r) (map (\<lambda>i. ord_ref (pool s ! i)) (q sd p) @ [mo_ref r]) (mb_side sd m)
    else mb_side sd' m)" for sd'
    using lists by (auto simp: mock_add_order_def sd Let_def)
  show ?thesis unfolding queues_agree_def
  proof (intro allI conjI)
    show "distinct (map fst (mb_side sd' (mock_add_order m r)))" for sd'
      using qa unfolding queues_agree_def side by (auto intro: distinct_update)
    fix sd' p'
    have old: "map_of (mb_side sd' m) p' = (if q sd' (unat p') = [] then None
        else Some (map (\<lambda>i. ord_ref (pool s' ! i)) (q sd' (unat p'))))"
      using qa unfolding queues_agree_def refs by blast
    show "map_of (mb_side sd' (mock_add_order m r)) p' = (if ?q sd' (unat p') = [] then None
        else Some (map (\<lambda>i. ord_ref (pool s' ! i)) (?q sd' (unat p'))))"
    proof (cases "sd' = sd \<and> p' = mo_price r")
      case True
      then show ?thesis using refs [of sd p] ref unfolding side by (simp add: update_conv' p)
    next
      case False
      then have "?q sd' (unat p') = q sd' (unat p')" by (auto simp: p word_unat_eq_iff)
      then show ?thesis using False old unfolding side by (auto simp: update_conv')
    qed
  qed
qed

lemma orders_agree_add:
  assumes oa: "orders_agree s loc m" and key: "map_of (mb_orders m) (mo_ref r) = None"
    and i: "i < length (pool s)" "loc i = None" and same: "same_nodes s s' i"
    and node: "node_order (mo_side r) (pool s' ! i) = r"
  shows "orders_agree s' (loc(i := Some (mo_side r, p))) (mock_add_order m r)"
proof -
  let ?loc = "loc(i := Some (mo_side r, p))"
  have os: "mb_orders (mock_add_order m r) = AList.update (mo_ref r) r (mb_orders m)"
    by (simp add: mock_add_order_def Let_def)
  have ref: "ord_ref (pool s' ! i) = mo_ref r" using arg_cong [OF node, of mo_ref] by (simp add: node_order_def)
  have len: "length (pool s') = length (pool s)" using same by (simp add: same_nodes_def)
  have "map_of (mb_orders (mock_add_order m r)) k = Some r' \<longleftrightarrow>
    (\<exists>j sd p. j < length (pool s') \<and> ?loc j = Some (sd, p) \<and> ord_ref (pool s' ! j) = k \<and>
       r' = node_order sd (pool s' ! j))" (is "?l \<longleftrightarrow> ?r") for k r'
  proof (cases "k = mo_ref r")
    case True
    have only: "j = i" if "j < length (pool s')" "?loc j = Some (sd, p')" "ord_ref (pool s' ! j) = k" for j sd p'
    proof (rule ccontr)
      assume "j \<noteq> i"
      then have "j < length (pool s)" "loc j = Some (sd, p')" "ord_ref (pool s ! j) = k"
        using that len same_nodesD(1) [OF same, of j] by auto
      then show False using fresh_ref [OF oa key] True by blast
    qed
    have "?r \<longleftrightarrow> r' = r"
    proof
      assume ?r
      then obtain j sd p' where j: "j < length (pool s')" "?loc j = Some (sd, p')" "ord_ref (pool s' ! j) = k"
        "r' = node_order sd (pool s' ! j)" by blast
      then show "r' = r" using only [OF j(1-3)] node by simp
    next
      assume "r' = r"
      then show ?r using True i(1) len ref node
        by (auto intro: exI [of _ i])
    qed
    then show ?thesis using True unfolding os by (simp add: update_conv' eq_commute)
  next
    case False
    then have "?l \<longleftrightarrow> map_of (mb_orders m) k = Some r'" unfolding os by (simp add: update_conv')
    also have "\<dots> \<longleftrightarrow> (\<exists>j sd p. j < length (pool s) \<and> loc j = Some (sd, p) \<and> ord_ref (pool s ! j) = k \<and>
       r' = node_order sd (pool s ! j))" using oa unfolding orders_agree_def by blast
    also have "\<dots> \<longleftrightarrow> ?r"
    proof -
      have "(j < length (pool s) \<and> loc j = Some (sd, p') \<and> ord_ref (pool s ! j) = k \<and> r' = node_order sd (pool s ! j)) \<longleftrightarrow>
        (j < length (pool s') \<and> ?loc j = Some (sd, p') \<and> ord_ref (pool s' ! j) = k \<and> r' = node_order sd (pool s' ! j))"
        for j sd p'
        using same_nodesD [OF same, of j] len ref False i(2) by (cases "j = i") auto
      then show ?thesis by (simp only:)
    qed
    finally show ?thesis .
  qed
  moreover have "distinct (map fst (mb_orders (mock_add_order m r)))"
    using oa unfolding os orders_agree_def by (auto intro: distinct_update)
  ultimately show ?thesis unfolding orders_agree_def by blast
qed

lemma mock_add_sim:
  assumes mr: "mock_rel s m q fl loc" and valid: "valid_order (length (bids s)) (length (pool s)) m (AddOrder r)"
  shows "\<exists>s' q' fl' loc'. add_order s r = Some (Inr (), s') \<and> same_sizes s s' \<and>
    mock_rel s' (mock_add_order m (mock_of r)) q' fl' loc'"
proof -
  have M: "book_rel s q fl loc" "indexed s loc" "queues_agree s q m" "orders_agree s loc m"
    using mr unfolding mock_rel_def by blast+
  let ?key = "na_order_reference_number r" and ?p = "unat (na_price r)" and ?sd = "order_side r"
  have p: "?p < length (bids s)" and key: "map_of (mb_orders m) ?key = None" using valid by auto
  obtain i fl' where fl: "fl = i # fl'" using valid live_count [of s q loc m] M by (cases fl) auto
  have i: "i < length (pool s)" "loc i = None"
    using lists_invD(6) [OF book_relD(1) [OF M(1)], of i] fl by auto
  from add_order_rel [OF M(1) [unfolded fl] p] obtain s' where s': "add_order s r = Some (Inr (), s')"
    "same_sizes s s'" "book_rel s' (q(?sd := (q ?sd)(?p := q ?sd ?p @ [i]))) fl' (loc(i := Some (?sd, ?p)))"
    "lookup (orders s') = (lookup (orders s))(?key \<mapsto> side_tag ?sd OR of_nat i)"
    and data: "\<forall>x<length (pool s). node_data (pool s' ! x) =
      (if x = i then (?key, na_shares r, na_price r) else node_data (pool s ! x))" by blast
  have same: "same_nodes s s' i" using s'(2) data by (simp add: same_nodes_def same_sizes_def)
  have node: "node_order ?sd (pool s' ! i) = mock_of r"
    using data [rule_format, OF i(1)] by (simp add: node_data_def node_order_def mock_of_def)
  then have ref: "ord_ref (pool s' ! i) = ?key" by (auto simp: node_order_def mock_of_def)
  have mo: "mo_side (mock_of r) = ?sd" "mo_ref (mock_of r) = ?key" "mo_price (mock_of r) = na_price r"
    by (simp_all add: mock_of_def)
  have "indexed s' (loc(i := Some (?sd, ?p)))" by (rule indexed_add [OF M(2,4) key same ref s'(4)])
  moreover have "queues_agree s' (q(?sd := (q ?sd)(?p := q ?sd ?p @ [i]))) (mock_add_order m (mock_of r))"
    using queues_agree_add [OF M(1,3) i(2) same, of "mock_of r"] ref mo by simp
  moreover have "orders_agree s' (loc(i := Some (?sd, ?p))) (mock_add_order m (mock_of r))"
    using orders_agree_add [OF M(4), of "mock_of r" i s'] key i same node mo by simp
  ultimately show ?thesis using s'(1-3) unfolding mock_rel_def by blast
qed

section \<open>Removing\<close>

lemma indexed_remove:
  assumes rel: "book_rel s q fl loc" and ix: "indexed s loc" and i: "i < length (pool s)" "loc i = Some a"
    and same: "same_nodes s s' i"
    and lk: "lookup (orders s') = (lookup (orders s))(ord_ref (pool s ! i) := None)"
  shows "indexed s' (loc(i := None))"
  unfolding indexed_def
proof (intro allI impI)
  fix x sd' p' assume x: "x < length (pool s')" "(loc(i := None)) x = Some (sd', p')"
  then have x': "x < length (pool s)" "loc x = Some (sd', p')" "x \<noteq> i"
    using same by (auto simp: same_nodes_def split: if_splits)
  then have "ord_ref (pool s ! x) \<noteq> ord_ref (pool s ! i)" using indexed_inj [OF rel ix x'(1) i(1) x'(2) i(2)] by blast
  then show "lookup (orders s') (ord_ref (pool s' ! x)) = Some (side_tag sd' OR of_nat x)"
    using lk indexedD [OF ix x'(1,2)] same_nodesD(1) [OF same x'(1,3)] by simp
qed

lemma map_remove1_removeAll:
  assumes "distinct xs" "inj_on f (insert i (set xs))"
  shows "map f (remove1 i xs) = removeAll (f i) (map f xs)"
  using assms by (induction xs) (auto simp: inj_on_def remove1_idem)

lemma queues_agree_remove:
  assumes rel: "book_rel s q fl loc" and ix: "indexed s loc" and qa: "queues_agree s q m"
    and i: "i < length (pool s)" "loc i = Some (sd, p)" and same: "same_nodes s s' i"
    and r: "map_of (mb_orders m) (ord_ref (pool s ! i)) = Some r" "mo_side r = sd" "unat (mo_price r) = p"
  shows "queues_agree s' (q(sd := (q sd)(p := remove1 i (q sd p)))) (mock_cancel_order m (ord_ref (pool s ! i)))"
proof -
  note I = lists_invD [OF book_relD(1) [OF rel]]
  let ?q = "q(sd := (q sd)(p := remove1 i (q sd p)))" and ?key = "ord_ref (pool s ! i)"
  let ?m = "mock_cancel_order m ?key" and ?f = "\<lambda>i. ord_ref (pool s ! i)" and ?g = "\<lambda>i. ord_ref (pool s' ! i)"
  have refs: "map ?g (?q sd' p') = map ?f (?q sd' p')" for sd' p'
  proof (rule map_cong [OF refl])
    fix x assume x: "x \<in> set (?q sd' p')"
    then have "x \<in> set (q sd' p')" by (auto split: if_splits dest: notin_set_remove1 set_remove1_subset [THEN subsetD])
    moreover have "x \<noteq> i" using x calculation I(4) [of x sd' p'] i(2) I(3) [of sd p] by (auto split: if_splits)
    ultimately show "?g x = ?f x" using I(4) [of x sd' p'] same_nodesD(1) [OF same] by blast
  qed
  have "inj_on ?f (insert i (set (q sd p)))"
    using indexed_inj [OF rel ix] I(4) [of _ sd p] i by (intro inj_onI) auto
  then have rem: "removeAll ?key (map ?f (q sd p)) = map ?f (remove1 i (q sd p))"
    using map_remove1_removeAll [OF I(3)] by metis
  have lists: "price_list (mb_side sd m) (mo_price r) = map ?f (q sd p)"
    using qa r(3) unfolding queues_agree_def price_list_def by simp
  have side: "mb_side sd' ?m = (if sd' = sd then
      (if remove1 i (q sd p) = [] then AList.delete (mo_price r) (mb_side sd m)
       else AList.update (mo_price r) (map ?f (remove1 i (q sd p))) (mb_side sd m))
    else mb_side sd' m)" for sd'
    using r lists rem by (simp add: mock_cancel_order_def Let_def)
  show ?thesis unfolding queues_agree_def
  proof (intro allI conjI)
    show "distinct (map fst (mb_side sd' ?m))" for sd'
      using qa unfolding queues_agree_def side by (auto intro: distinct_update distinct_delete)
    fix sd' p'
    have old: "map_of (mb_side sd' m) p' = (if q sd' (unat p') = [] then None else Some (map ?f (q sd' (unat p'))))"
      using qa unfolding queues_agree_def by blast
    show "map_of (mb_side sd' ?m) p' = (if ?q sd' (unat p') = [] then None else Some (map ?g (?q sd' (unat p'))))"
    proof (cases "sd' = sd \<and> p' = mo_price r")
      case True
      then show ?thesis using r(3) unfolding refs side by (simp add: update_conv' delete_conv')
    next
      case False
      then have "?q sd' (unat p') = q sd' (unat p')" using r(3) by (auto simp: word_unat_eq_iff)
      then show ?thesis using False old unfolding refs side by (auto simp: update_conv' delete_conv')
    qed
  qed
qed

lemma orders_agree_remove:
  assumes rel: "book_rel s q fl loc" and ix: "indexed s loc" and oa: "orders_agree s loc m"
    and i: "i < length (pool s)" "loc i = Some a" and same: "same_nodes s s' i"
  shows "orders_agree s' (loc(i := None)) (mock_cancel_order m (ord_ref (pool s ! i)))"
proof -
  let ?key = "ord_ref (pool s ! i)" and ?loc = "loc(i := None)"
  let ?m = "mock_cancel_order m ?key"
  obtain sd p where a: "a = (sd, p)" by (cases a)
  have os: "mb_orders ?m = AList.delete ?key (mb_orders m)"
    by (auto simp: mock_cancel_order_def Let_def delete_id map_of_eq_None_iff image_iff split: option.splits)
  have len: "length (pool s') = length (pool s)" using same by (simp add: same_nodes_def)
  have step: "(j < length (pool s') \<and> ?loc j = Some (sd, p) \<and> ord_ref (pool s' ! j) = k \<and> r = node_order sd (pool s' ! j)) \<longleftrightarrow>
    k \<noteq> ?key \<and> (j < length (pool s) \<and> loc j = Some (sd, p) \<and> ord_ref (pool s ! j) = k \<and> r = node_order sd (pool s ! j))"
    for j sd p k r
  proof (cases "j = i")
    case False
    then show ?thesis using same_nodesD [OF same, of j] len indexed_inj [OF rel ix _ i(1) _ i(2), of j] by auto
  qed auto
  have "map_of (mb_orders ?m) k = Some r \<longleftrightarrow>
    (\<exists>j sd p. j < length (pool s') \<and> ?loc j = Some (sd, p) \<and> ord_ref (pool s' ! j) = k \<and>
       r = node_order sd (pool s' ! j))" for k r
  proof -
    have "map_of (mb_orders ?m) k = Some r \<longleftrightarrow> k \<noteq> ?key \<and> map_of (mb_orders m) k = Some r"
      unfolding os by (simp add: delete_conv')
    then show ?thesis using oa unfolding step orders_agree_def by simp
  qed
  moreover have "distinct (map fst (mb_orders ?m))"
    using oa unfolding os orders_agree_def by (auto intro: distinct_delete)
  ultimately show ?thesis unfolding orders_agree_def by blast
qed

lemma mock_relD:
  assumes "mock_rel s m q fl loc"
  shows "book_rel s q fl loc" "indexed s loc" "queues_agree s q m" "orders_agree s loc m"
  using assms unfolding mock_rel_def by blast+

lemma live_mock_order:
  assumes mr: "mock_rel s m q fl loc" and i: "i < length (pool s)" "loc i = Some (sd, p)"
  shows "map_of (mb_orders m) (ord_ref (pool s ! i)) = Some (node_order sd (pool s ! i))"
  using mock_relD(4) [OF mr] i unfolding orders_agree_def by blast

lemma missing_mock_order:
  assumes mr: "mock_rel s m q fl loc"
  shows "map_of (mb_orders m) key = None \<longleftrightarrow> lookup (orders s) key = None"
  using orders_agree_live [OF mock_relD(1,2,4) [OF mr], of key] live_shares_None [of s key] by simp

lemma mock_release_sim:
  assumes mr: "mock_rel s m q fl loc" and i: "i < length (pool s)" "loc i = Some (sd, p)"
    and rel': "book_rel s' (q(sd := (q sd)(p := remove1 i (q sd p)))) (i # fl) (loc(i := None))"
    and lk: "lookup (orders s') = (lookup (orders s))(ord_ref (pool s ! i) := None)"
    and same: "same_nodes s s' i"
  shows "mock_rel s' (mock_cancel_order m (ord_ref (pool s ! i)))
    (q(sd := (q sd)(p := remove1 i (q sd p)))) (i # fl) (loc(i := None))"
proof -
  note M = mock_relD [OF mr]
  have "unat (ord_price (pool s ! i)) = p" using lists_invD(8) [OF book_relD(1) [OF M(1)] i] by simp
  then show ?thesis
    using rel' indexed_remove [OF M(1,2) i same lk] orders_agree_remove [OF M(1,2,4) i same]
      queues_agree_remove [OF M(1-3) i same live_mock_order [OF mr i]]
    unfolding mock_rel_def by (simp add: node_order_def)
qed

lemma node_order_shares [simp]:
  "node_order sd (r\<lparr>ord_shares := n\<rparr>) = (node_order sd r)\<lparr>mo_shares := n\<rparr>"
  by (simp add: node_order_def)

lemma mock_shares_sim:
  assumes mr: "mock_rel s m q fl loc" and i: "i < length (pool s)" "loc i = Some (sd, p)"
  shows "mock_rel (s\<lparr>pool := (pool s)[i := (pool s ! i)\<lparr>ord_shares := n\<rparr>]\<rparr>)
    (m\<lparr>mb_orders := AList.update (ord_ref (pool s ! i)) ((node_order sd (pool s ! i))\<lparr>mo_shares := n\<rparr>) (mb_orders m)\<rparr>)
    q fl loc"
proof -
  note M = mock_relD [OF mr]
  let ?key = "ord_ref (pool s ! i)" and ?r = "(node_order sd (pool s ! i))\<lparr>mo_shares := n\<rparr>"
  let ?h = "(pool s)[i := (pool s ! i)\<lparr>ord_shares := n\<rparr>]"
  let ?s = "s\<lparr>pool := ?h\<rparr>" and ?m = "m\<lparr>mb_orders := AList.update ?key ?r (mb_orders m)\<rparr>"
  have ref: "ord_ref (?h ! x) = ord_ref (pool s ! x)" for x unfolding nth_list_update_if by simp
  have node: "node_order sd' (?h ! x) = (if x = i then (node_order sd' (pool s ! i))\<lparr>mo_shares := n\<rparr> else node_order sd' (pool s ! x))"
    for x sd' unfolding nth_list_update_if using i(1) by (simp add: node_order_def)
  have "indexed ?s loc" using M(2) unfolding indexed_def by (simp add: ref)
  moreover have "queues_agree ?s q ?m" using M(3) unfolding queues_agree_def by (simp add: ref)
  moreover have "orders_agree ?s loc ?m"
  proof -
    have "map_of (mb_orders ?m) k = Some r \<longleftrightarrow> (\<exists>j sd p. j < length (pool ?s) \<and> loc j = Some (sd, p) \<and>
      ord_ref (pool ?s ! j) = k \<and> r = node_order sd (pool ?s ! j))" (is "?l \<longleftrightarrow> ?rhs") for k r
    proof (cases "k = ?key")
      case True
      have "?rhs \<longleftrightarrow> r = ?r"
      proof
        assume ?rhs
        then obtain j sd' p' where j: "j < length (pool s)" "loc j = Some (sd', p')" "ord_ref (pool s ! j) = k"
          "r = node_order sd' (?h ! j)" by (auto simp: ref)
        then have "j = i" using indexed_inj [OF M(1,2) j(1) i(1) j(2) i(2)] True by blast
        then show "r = ?r" using j i(2) node by simp
      next
        assume "r = ?r"
        then show ?rhs using True i node [of sd i] ref [of i] by (auto intro!: exI [of _ i])
      qed
      then show ?thesis using True by (simp add: update_conv' eq_commute)
    next
      case False
      then have "?l \<longleftrightarrow> map_of (mb_orders m) k = Some r" by (simp add: update_conv')
      also have "\<dots> \<longleftrightarrow> ?rhs" using M(4) False unfolding orders_agree_def
        by (auto simp: ref node)
      finally show ?thesis .
    qed
    moreover have "distinct (map fst (mb_orders ?m))"
      using M(4) unfolding orders_agree_def by (auto intro: distinct_update)
    ultimately show ?thesis unfolding orders_agree_def by blast
  qed
  ultimately show ?thesis using book_rel_shares [OF M(1)] unfolding mock_rel_def by blast
qed

lemma mock_cancel_sim:
  assumes mr: "mock_rel s m q fl loc"
  shows "\<exists>s' q' fl' loc'. cancel_order s key = Some s' \<and> same_sizes s s' \<and>
    mock_rel s' (mock_cancel_order m key) q' fl' loc'"
proof (cases "lookup (orders s) key")
  case None
  then have "mock_cancel_order m key = m" using missing_mock_order [OF mr, of key] by (simp add: mock_cancel_order_def)
  then show ?thesis using cancel_order_missing [OF mock_relD(1) [OF mr] None] mr by (auto simp: same_sizes_def)
next
  case (Some v)
  show ?thesis
  proof (rule cancel_order_rel [OF mock_relD(1) [OF mr] Some])
    fix i sd p s' assume i: "i < length (pool s)" "loc i = Some (sd, p)" "ord_ref (pool s ! i) = key"
      and s': "cancel_order s key = Some s'" "same_sizes s s'"
        "book_rel s' (q(sd := (q sd)(p := remove1 i (q sd p)))) (i # fl) (loc(i := None))"
        "lookup (orders s') = (lookup (orders s))(key := None)"
        "\<forall>x<length (pool s). node_data (pool s' ! x) = node_data (pool s ! x)"
    have "same_nodes s s' i" using s'(2,5) by (simp add: same_nodes_def same_sizes_def)
    then show ?thesis using mock_release_sim [OF mr i(1,2) s'(3)] s'(1,2,4) i(3) by blast
  qed
qed

lemma mock_execute_sim:
  assumes mr: "mock_rel s m q fl loc" and valid: "valid_order ticks n m (ExecuteOrder r)"
  shows "\<exists>s' q' fl' loc'. execute_order s r = Some (Inr (), s') \<and> same_sizes s s' \<and>
    mock_rel s' (mock_execute_order m (ne_order_reference_number r) (ne_shares r)) q' fl' loc'"
proof (cases "lookup (orders s) (ne_order_reference_number r)")
  case None
  then have "mock_execute_order m (ne_order_reference_number r) (ne_shares r) = m"
    using missing_mock_order [OF mr, of "ne_order_reference_number r"] by (simp add: mock_execute_order_def)
  then show ?thesis using execute_order_missing [OF mock_relD(1) [OF mr] None] mr by (auto simp: same_sizes_def)
next
  case (Some v)
  let ?key = "ne_order_reference_number r"
  show ?thesis
  proof (rule execute_order_rel [OF mock_relD(1) [OF mr] Some])
    fix i sd p
    let ?n = "ord_shares (pool s ! i)"
    let ?s1 = "s\<lparr>pool := (pool s)[i := (pool s ! i)\<lparr>ord_shares := ?n - ne_shares r\<rparr>]\<rparr>"
    let ?r1 = "(node_order sd (pool s ! i))\<lparr>mo_shares := ?n - ne_shares r\<rparr>"
    let ?m1 = "m\<lparr>mb_orders := AList.update ?key ?r1 (mb_orders m)\<rparr>"
    assume i: "i < length (pool s)" "loc i = Some (sd, p)" "ord_ref (pool s ! i) = ?key"
      and part: "ne_shares r < ?n \<longrightarrow> execute_order s r = Some (Inr (), ?s1)"
      and full: "ne_shares r = ?n \<longrightarrow> (\<exists>s'. execute_order s r = Some (Inr (), s') \<and> same_sizes s s' \<and>
        book_rel s' (q(sd := (q sd)(p := remove1 i (q sd p)))) (i # fl) (loc(i := None)) \<and>
        lookup (orders s') = (lookup (orders s))(?key := None) \<and>
        (\<forall>x<length (pool s). x \<noteq> i \<longrightarrow> node_data (pool s' ! x) = node_data (pool s ! x)))"
    have mo: "map_of (mb_orders m) ?key = Some (node_order sd (pool s ! i))"
      using live_mock_order [OF mr i(1,2)] i(3) by simp
    then have le: "ne_shares r \<le> ?n" using valid by (simp add: node_order_def)
    have run: "mock_execute_order m ?key (ne_shares r) = (if ne_shares r = ?n then mock_cancel_order ?m1 ?key else ?m1)"
      using mo by (auto simp: mock_execute_order_def Let_def node_order_def)
    have mr1: "mock_rel ?s1 ?m1 q fl loc" using mock_shares_sim [OF mr i(1,2)] i(3) by simp
    show ?thesis
    proof (cases "ne_shares r = ?n")
      case False
      then have "execute_order s r = Some (Inr (), ?s1)" using part le by simp
      then show ?thesis using mr1 False unfolding run by (auto simp: same_sizes_def)
    next
      case True
      then obtain s' where s': "execute_order s r = Some (Inr (), s')" "same_sizes s s'"
        "book_rel s' (q(sd := (q sd)(p := remove1 i (q sd p)))) (i # fl) (loc(i := None))"
        "lookup (orders s') = (lookup (orders s))(?key := None)"
        "\<forall>x<length (pool s). x \<noteq> i \<longrightarrow> node_data (pool s' ! x) = node_data (pool s ! x)" using full by blast
      have "same_nodes ?s1 s' i" using s'(2,5) by (simp add: same_nodes_def same_sizes_def)
      moreover have ref: "ord_ref (pool ?s1 ! i) = ?key" using i by simp
      ultimately have "mock_rel s' (mock_cancel_order ?m1 ?key)
        (q(sd := (q sd)(p := remove1 i (q sd p)))) (i # fl) (loc(i := None))"
        using mock_release_sim [OF mr1, of i sd p s'] i(1,2) s'(3,4) by simp
      then show ?thesis using s'(1,2) True unfolding run by auto
    qed
  qed
qed

section \<open>Runs\<close>

text \<open>
  The interface of a simulation: a step of the implementation that succeeds and keeps the
  relation whenever the reference step is valid. Runs follow by induction.
\<close>

locale order_simulation =
  fixes R :: "'s \<Rightarrow> 'm \<Rightarrow> bool"
    and ok :: "'m \<Rightarrow> 'r \<Rightarrow> bool"
    and step :: "'s \<Rightarrow> 'r \<Rightarrow> ((error + unit) \<times> 's) option"
    and ref :: "'m \<Rightarrow> 'r \<Rightarrow> 'm"
    and run :: "'r list \<Rightarrow> 's \<Rightarrow> ((error + unit) \<times> 's) option"
    and refs :: "'r list \<Rightarrow> 'm \<Rightarrow> 'm"
    and oks :: "'r list \<Rightarrow> 'm \<Rightarrow> bool"
  assumes step_sim: "R s m \<Longrightarrow> ok m r \<Longrightarrow> \<exists>s'. step s r = Some (Inr (), s') \<and> R s' (ref m r)"
    and run_Nil: "run [] s = Some (Inr (), s)"
    and run_Cons: "step s r = Some (Inr (), s') \<Longrightarrow> run (r # rs) s = run rs s'"
    and refs_simps: "refs [] m = m" "refs (r # rs) m = refs rs (ref m r)"
    and oks_Cons: "oks (r # rs) m \<Longrightarrow> ok m r \<and> oks rs (ref m r)"
begin

lemma run_sim: "R s m \<Longrightarrow> oks rs m \<Longrightarrow> \<exists>s'. run rs s = Some (Inr (), s') \<and> R s' (refs rs m)"
proof (induction rs arbitrary: s m)
  case (Cons r rs)
  obtain s1 where s1: "step s r = Some (Inr (), s1)" "R s1 (ref m r)"
    using step_sim Cons.prems oks_Cons by blast
  then show ?case using Cons.IH [OF s1(2)] oks_Cons [OF Cons.prems(2)] run_Cons [OF s1(1)] by (simp add: refs_simps)
qed (simp add: run_Nil refs_simps)

end

text \<open>\<open>refines ticks n\<close> relates a book of \<open>n\<close> nodes and \<open>ticks\<close> price levels to a reference book.\<close>

definition refines :: "nat \<Rightarrow> nat \<Rightarrow> lob \<Rightarrow> MockOrderBook \<Rightarrow> bool" where
  "refines ticks n s m \<longleftrightarrow> length (bids s) = ticks \<and> length (pool s) = n \<and> (\<exists>q fl loc. mock_rel s m q fl loc)"

lemma refines_step:
  assumes "refines ticks n s m" "valid_order ticks n m r"
  shows "\<exists>s'. dispatch s r = Some (Inr (), s') \<and> refines ticks n s' (mock_dispatch m r)"
proof -
  obtain q fl loc where mr: "mock_rel s m q fl loc" and sz: "length (bids s) = ticks" "length (pool s) = n"
    using assms(1) unfolding refines_def by blast
  have *: "\<exists>s' q' fl' loc'. dispatch s r = Some (Inr (), s') \<and> same_sizes s s' \<and> mock_rel s' (mock_dispatch m r) q' fl' loc'"
  proof (cases r)
    case (AddOrder a)
    then show ?thesis using mock_add_sim [OF mr, of a] assms(2) sz by simp
  next
    case (ExecuteOrder a)
    then show ?thesis using mock_execute_sim [OF mr, of ticks n a] assms(2) by simp
  next
    case (CancelOrder a)
    then show ?thesis using mock_cancel_sim [OF mr, of "nc_order_reference_number a"] by fastforce
  qed
  then show ?thesis using sz unfolding refines_def same_sizes_def by metis
qed

interpretation sim: order_simulation "refines ticks n" "valid_order ticks n" dispatch mock_dispatch
  consume_orders mock_run "valid_orders ticks n" for ticks n
  by unfold_locales (use refines_step in auto)

section \<open>What the relation says about the observations\<close>

lemma mono_unat: "mono (unat :: u32 \<Rightarrow> nat)"
  by (simp add: mono_def word_le_nat_alt)

lemma live_ticks_mock:
  assumes mr: "mock_rel s m q fl loc"
  shows "live_ticks (side_levels sd s) = unat ` fst ` set (mb_side sd m)"
proof -
  note M = mock_relD [OF mr] and I = lists_invD [OF book_relD(1) [OF M(1)]]
  have in_range: "p < length (bids s) \<and> p < 2 ^ 32" if q: "q sd p \<noteq> []" for p
  proof -
    obtain i where "i \<in> set (q sd p)" using q by (cases "q sd p") auto
    then have "p < length (bids s)" "unat (ord_price (pool s ! i)) = p" using I(4) [of i sd p] I(8) [of i sd p] by auto
    then show ?thesis using unsigned_less [of "ord_price (pool s ! i)"] by auto
  qed
  have dom: "p \<in> fst ` set (mb_side sd m) \<longleftrightarrow> q sd (unat p) \<noteq> []" for p
    using M(3) unfolding queues_agree_def by (metis map_of_eq_None_iff option.distinct(1))
  show ?thesis
  proof (intro set_eqI iffI)
    fix p assume "p \<in> live_ticks (side_levels sd s)"
    then have q: "q sd p \<noteq> []" using live_ticks_levels(2) [OF M(1), of sd] by simp
    then have "unat (of_nat p :: u32) = p" using in_range [OF q] by (simp add: unat_of_nat take_bit_nat_eq_self)
    then show "p \<in> unat ` fst ` set (mb_side sd m)" using dom [of "of_nat p"] q by (metis image_eqI)
  next
    fix p assume "p \<in> unat ` fst ` set (mb_side sd m)"
    then obtain w where "w \<in> fst ` set (mb_side sd m)" "p = unat w" by blast
    then show "p \<in> live_ticks (side_levels sd s)"
      using dom [of w] in_range [of p] live_ticks_levels(2) [OF M(1), of sd] by simp
  qed
qed

lemma mock_observations:
  assumes mr: "mock_rel s m q fl loc"
  shows "lob_best_bid s = Some (mock_best_bid m)" "lob_best_offer s = Some (mock_best_offer m)"
    "live_shares s key = map_option mo_shares (map_of (mb_orders m) key)"
    "unat p < length (bids s) \<Longrightarrow> level_refs s sd (unat p) = Some (price_list (mb_side sd m) p)"
proof -
  note M = mock_relD [OF mr]
  have inv: "book_inv s" using M(1) unfolding book_inv_def by blast
  have bid: "live_ticks (bids s) = unat ` fst ` set (mb_bids m)" and ask: "live_ticks (asks s) = unat ` fst ` set (mb_asks m)"
    using live_ticks_mock [OF mr, of Buy] live_ticks_mock [OF mr, of Sell] by simp_all
  have "of_nat (Max (unat ` A)) = (ucast (Max A) :: u64)" "of_nat (Min (unat ` A)) = (ucast (Min A) :: u64)"
    if "finite A" "A \<noteq> {}" for A :: "u32 set"
    using mono_Max_commute [OF mono_unat that] mono_Min_commute [OF mono_unat that]
    by (simp_all only: ucast_price)
  note extreme = this
  show "lob_best_bid s = Some (mock_best_bid m)"
    using best_prices(1) [OF inv] extreme(1) [of "fst ` set (mb_bids m)"] by (simp add: bid mock_best_bid_def)
  show "lob_best_offer s = Some (mock_best_offer m)"
    using best_prices(2) [OF inv] extreme(2) [of "fst ` set (mb_asks m)"] by (simp add: ask mock_best_offer_def)
  show "live_shares s key = map_option mo_shares (map_of (mb_orders m) key)"
    by (rule orders_agree_live [OF M(1,2,4)])
  show "level_refs s sd (unat p) = Some (price_list (mb_side sd m) p)" if "unat p < length (bids s)"
    using level_refs_rel [OF M(1) that, of sd] M(3) unfolding queues_agree_def price_list_def by simp
qed

lemma new_book_refines:
  assumes "max_orders \<noteq> 0" "unat max_orders \<le> ORDER_MAP_SIZE" "k < 64"
  obtains s where "LimitOrderBook MAX_TICKS ORDER_MAP_SIZE True True (2 ^ k) max_orders = Some (Inr s)"
    "refines MAX_TICKS (unat max_orders) s empty_mock"
proof -
  have size: "ORDER_MAP_SIZE = 2 ^ 22" by (simp add: ORDER_MAP_SIZE_def)
  obtain s where s: "LimitOrderBook MAX_TICKS ORDER_MAP_SIZE True True (2 ^ k) max_orders = Some (Inr s)"
    "book_rel s (\<lambda>_ _. []) [0..<unat max_orders] (\<lambda>_. None)" "length (bids s) = MAX_TICKS"
    "length (pool s) = unat max_orders"
    using LimitOrderBook_new [of max_orders 22 k MAX_TICKS] assms unfolding size by (auto simp: MAX_TICKS_def)
  have "mb_side sd empty_mock = []" for sd by (cases sd) (simp_all add: empty_mock_def)
  then have "mock_rel s empty_mock (\<lambda>_ _. []) [0..<unat max_orders] (\<lambda>_. None)"
    using s(2) by (simp add: mock_rel_def indexed_def queues_agree_def orders_agree_def) (simp add: empty_mock_def)
  then show ?thesis using that s unfolding refines_def by blast
qed

lemma refined_run:
  assumes "max_orders \<noteq> 0" "unat max_orders \<le> ORDER_MAP_SIZE" "k < 64"
    and "valid_orders MAX_TICKS (unat max_orders) rs empty_mock"
  obtains s s' q fl loc where "LimitOrderBook MAX_TICKS ORDER_MAP_SIZE True True (2 ^ k) max_orders = Some (Inr s)"
    "consume_orders rs s = Some (Inr (), s')" "length (bids s') = MAX_TICKS"
    "mock_rel s' (mock_run rs empty_mock) q fl loc"
proof -
  obtain s where s: "LimitOrderBook MAX_TICKS ORDER_MAP_SIZE True True (2 ^ k) max_orders = Some (Inr s)"
    "refines MAX_TICKS (unat max_orders) s empty_mock" by (rule new_book_refines [OF assms(1-3)])
  then obtain s' where "consume_orders rs s = Some (Inr (), s')"
    "refines MAX_TICKS (unat max_orders) s' (mock_run rs empty_mock)" using sim.run_sim [OF s(2) assms(4)] by blast
  then show ?thesis using that s(1) unfolding refines_def by blast
qed

section \<open>Properties\<close>

text \<open>
  C1. The order book agrees with the reference book of the test on every stream the
  test can generate: with live reference numbers not reused, prices below the tick limit, no
  more live orders than nodes and no execution above the shares left, the consumer
  finishes without an exception, and best bid, best offer and the shares of every order are those
  of the reference.
\<close>

theorem lob_refines_mock:
  assumes "max_orders \<noteq> 0" "unat max_orders \<le> ORDER_MAP_SIZE" "k < 64"
    and "valid_orders MAX_TICKS (unat max_orders) rs empty_mock"
  shows "\<exists>s s'. LimitOrderBook MAX_TICKS ORDER_MAP_SIZE True True (2 ^ k) max_orders = Some (Inr s) \<and>
    consume_orders rs s = Some (Inr (), s') \<and>
    lob_best_bid s' = Some (mock_best_bid (mock_run rs empty_mock)) \<and>
    lob_best_offer s' = Some (mock_best_offer (mock_run rs empty_mock)) \<and>
    (\<forall>key. live_shares s' key = map_option mo_shares (map_of (mb_orders (mock_run rs empty_mock)) key))"
proof -
  obtain s s' q fl loc where r: "LimitOrderBook MAX_TICKS ORDER_MAP_SIZE True True (2 ^ k) max_orders = Some (Inr s)"
    "consume_orders rs s = Some (Inr (), s')" "mock_rel s' (mock_run rs empty_mock) q fl loc"
    by (rule refined_run [OF assms])
  then show ?thesis using mock_observations(1-3) [OF r(3)] by blast
qed

text \<open>A stream on which two bids share a level, the older is filled and an offer is cancelled.\<close>

definition sample_orders :: "NormalizedOrder list" where
  "sample_orders =
     [AddOrder sample_add,
      AddOrder (sample_add\<lparr>na_order_reference_number := 8, na_shares := 50\<rparr>),
      AddOrder (sample_add\<lparr>na_order_reference_number := 9, na_price := 30, na_indicator := 0x53\<rparr>),
      ExecuteOrder \<lparr>ne_timestamp = 0, ne_order_reference_number = 8, ne_match_number = 0, ne_shares = 20,
        ne_stock_locate = 0, ne_tracking_number = 0\<rparr>,
      ExecuteOrder \<lparr>ne_timestamp = 0, ne_order_reference_number = 7, ne_match_number = 0, ne_shares = 100,
        ne_stock_locate = 0, ne_tracking_number = 0\<rparr>,
      AddOrder (sample_add\<lparr>na_order_reference_number := 7\<rparr>),
      CancelOrder \<lparr>nc_timestamp = 0, nc_order_reference_number = 9, nc_shares = 0,
        nc_stock_locate = 0, nc_tracking_number = 0\<rparr>]"

lemma sample_run:
  "mock_run sample_orders empty_mock =
     \<lparr>mb_bids = [(25, [8, 7])], mb_asks = [],
      mb_orders = [(8, \<lparr>mo_ref = 8, mo_shares = 30, mo_price = 25, mo_side = Buy\<rparr>),
        (7, \<lparr>mo_ref = 7, mo_shares = 100, mo_price = 25, mo_side = Buy\<rparr>)]\<rparr>"
  "valid_orders MAX_TICKS (unat (1000 :: u64)) sample_orders empty_mock"
  by (simp_all add: sample_orders_def sample_add_def empty_mock_def mock_of_def order_side_def MAX_TICKS_def
      mock_add_order_def mock_execute_order_def mock_cancel_order_def price_list_def Let_def)

theorem lob_refines_mock_witness:
  "\<exists>s s'. LimitOrderBook MAX_TICKS ORDER_MAP_SIZE True True (2 ^ 12) 1000 = Some (Inr s) \<and>
    consume_orders sample_orders s = Some (Inr (), s') \<and>
    lob_best_bid s' = Some 25 \<and> lob_best_offer s' = Some (- 1) \<and> live_shares s' 8 = Some 30 \<and> live_shares s' 9 = None"
proof -
  have c: "(1000 :: u64) \<noteq> 0" "unat (1000 :: u64) \<le> ORDER_MAP_SIZE" "12 < (64 :: nat)"
    by (simp_all add: ORDER_MAP_SIZE_def)
  from lob_refines_mock [OF c sample_run(2)] show ?thesis
    unfolding sample_run(1) by (auto simp: mock_best_bid_def mock_best_offer_def)
qed

text \<open>
  C5. On the same streams every price level of the book, read along its links from
  head to tail, lists the reference numbers of the orders resting there in their order of
  arrival, as the list of the reference book does; the walk ends and visits live nodes only.
\<close>

theorem price_time_priority:
  assumes "max_orders \<noteq> 0" "unat max_orders \<le> ORDER_MAP_SIZE" "k < 64"
    and "valid_orders MAX_TICKS (unat max_orders) rs empty_mock"
  shows "\<exists>s s'. LimitOrderBook MAX_TICKS ORDER_MAP_SIZE True True (2 ^ k) max_orders = Some (Inr s) \<and>
    consume_orders rs s = Some (Inr (), s') \<and>
    (\<forall>sd p. unat p < MAX_TICKS \<longrightarrow>
       level_refs s' sd (unat p) = Some (price_list (mb_side sd (mock_run rs empty_mock)) p))"
proof -
  obtain s s' q fl loc where r: "LimitOrderBook MAX_TICKS ORDER_MAP_SIZE True True (2 ^ k) max_orders = Some (Inr s)"
    "consume_orders rs s = Some (Inr (), s')" "length (bids s') = MAX_TICKS"
    "mock_rel s' (mock_run rs empty_mock) q fl loc"
    by (rule refined_run [OF assms])
  then show ?thesis using mock_observations(4) [OF r(4)] by auto
qed

theorem price_time_priority_witness:
  "\<exists>s s'. LimitOrderBook MAX_TICKS ORDER_MAP_SIZE True True (2 ^ 12) 1000 = Some (Inr s) \<and>
    consume_orders sample_orders s = Some (Inr (), s') \<and> level_refs s' Buy 25 = Some [8, 7]"
proof -
  have c: "(1000 :: u64) \<noteq> 0" "unat (1000 :: u64) \<le> ORDER_MAP_SIZE" "12 < (64 :: nat)"
    by (simp_all add: ORDER_MAP_SIZE_def)
  obtain s s' where s: "LimitOrderBook MAX_TICKS ORDER_MAP_SIZE True True (2 ^ 12) 1000 = Some (Inr s)"
    "consume_orders sample_orders s = Some (Inr (), s')"
    and l: "\<forall>sd p. unat p < MAX_TICKS \<longrightarrow>
       level_refs s' sd (unat p) = Some (price_list (mb_side sd (mock_run sample_orders empty_mock)) p)"
    using price_time_priority [OF c sample_run(2)] by blast
  have "level_refs s' Buy (unat (25 :: u32)) = Some (price_list [(25, [8, 7])] 25)"
    using l [rule_format, of 25 Buy] unfolding sample_run(1) by (simp add: MAX_TICKS_def)
  then show ?thesis using s by (simp add: price_list_def)
qed

end
