(* ===== verification/Spsc_Queue.thy ===== *)
theory Spsc_Queue
  imports Mdb_Prelude
begin

text \<open>
  The single-producer single-consumer ring of \<^verbatim>\<open>src/utils/spscqueue.h\<close>, called from one
  thread at a time. The producer and the consumer each keep a stale copy of the other's index,
  which they refresh only when the ring looks full or empty. Interleaved calls on a machine with
  store buffers are the subject of \<^verbatim>\<open>Spsc_Concurrent\<close>.
\<close>

section \<open>The code\<close>

record 'a spsc =
  tail :: u64
  cached_head :: u64
  head :: u64
  cached_tail :: u64
  data :: "'a list"

definition SPSCQueue :: "'a list \<Rightarrow> 'a spsc" where
  "SPSCQueue d = \<lparr>tail = 0, cached_head = 0, head = 0, cached_tail = 0, data = d\<rparr>"

text \<open>\<^verbatim>\<open>(idx + 1) & (Size - 1)\<close>\<close>

definition next_idx :: "nat \<Rightarrow> u64 \<Rightarrow> u64" where
  "next_idx Size idx = (idx + 1) AND (of_nat Size - 1)"

definition push :: "'a spsc \<Rightarrow> 'a \<Rightarrow> (bool \<times> 'a spsc) option" where
  "push q input =
     (let tail_idx = tail q;
          next_tail_idx = next_idx (length (data q)) tail_idx;
          q1 = (if cached_head q = next_tail_idx then q\<lparr>cached_head := head q\<rparr> else q)
      in if cached_head q = next_tail_idx \<and> cached_head q1 = next_tail_idx then Some (False, q1)
         else do {
           d \<leftarrow> arr_set (data q1) (unat tail_idx) input;
           Some (True, q1\<lparr>data := d, tail := next_tail_idx\<rparr>)
         })"

text \<open>\<open>None\<close> inside the result is the return value false, which leaves \<^verbatim>\<open>output\<close> alone.\<close>

definition pop :: "'a spsc \<Rightarrow> ('a option \<times> 'a spsc) option" where
  "pop q =
     (let head_idx = head q;
          next_head_idx = next_idx (length (data q)) head_idx;
          q1 = (if head_idx = cached_tail q then q\<lparr>cached_tail := tail q\<rparr> else q)
      in if head_idx = cached_tail q \<and> head_idx = cached_tail q1 then Some (None, q1)
         else do {
           output \<leftarrow> arr_get (data q1) (unat head_idx);
           Some (Some output, q1\<lparr>head := next_head_idx\<rparr>)
         })"

text \<open>Sequences of calls, with the values the pops return, and the same calls on a list.\<close>

datatype 'a queue_op = Push 'a | Pop

datatype 'a queue_result = Pushed bool | Popped "'a option"

fun run_queue ::
  "('q \<Rightarrow> 'a \<Rightarrow> (bool \<times> 'q) option) \<Rightarrow> ('q \<Rightarrow> ('a option \<times> 'q) option) \<Rightarrow>
   'a queue_op list \<Rightarrow> 'q \<Rightarrow> ('a queue_result list \<times> 'q) option" where
  "run_queue psh pp [] q = Some ([], q)"
| "run_queue psh pp (Push x # ops) q = do {
     (b, q1) \<leftarrow> psh q x;
     (rs, q2) \<leftarrow> run_queue psh pp ops q1;
     Some (Pushed b # rs, q2)
   }"
| "run_queue psh pp (Pop # ops) q = do {
     (r, q1) \<leftarrow> pp q;
     (rs, q2) \<leftarrow> run_queue psh pp ops q1;
     Some (Popped r # rs, q2)
   }"

fun ref_queue :: "nat \<Rightarrow> 'a queue_op list \<Rightarrow> 'a list \<Rightarrow> 'a queue_result list \<times> 'a list" where
  "ref_queue n [] xs = ([], xs)"
| "ref_queue n (Push x # ops) xs =
     (let (rs, ys) = ref_queue n ops (if length xs < n then xs @ [x] else xs)
      in (Pushed (length xs < n) # rs, ys))"
| "ref_queue n (Pop # ops) xs =
     (let (rs, ys) = ref_queue n ops (tl xs)
      in (Popped (if xs = [] then None else Some (hd xs)) # rs, ys))"

section \<open>Indices and counters\<close>

text \<open>
  The indices are the values modulo \<open>Size\<close> of counters that never wrap: the numbers of elements
  pushed and popped, and stale copies of both.
\<close>

definition idx :: "nat \<Rightarrow> nat \<Rightarrow> u64" where
  "idx n k = of_nat (k mod n)"

lemma next_idx_idx:
  assumes "e < 64"
  shows "next_idx (2 ^ e) (idx (2 ^ e) k) = idx (2 ^ e) (Suc k)"
proof -
  have m: "(of_nat (2 ^ e) - 1 :: u64) = mask e" by (simp add: mask_eq_exp_minus_1)
  have "k mod 2 ^ e < 2 ^ e" by simp
  also have "(2 :: nat) ^ e < 2 ^ 64" using assms by (intro power_strict_increasing) auto
  finally have small: "k mod 2 ^ e < 2 ^ 64" .
  have "unat (next_idx (2 ^ e) (idx (2 ^ e) k)) = unat (idx (2 ^ e) k + 1) mod 2 ^ e"
    by (simp only: next_idx_def m unat_and_mask)
  also have "unat (idx (2 ^ e) k + 1) = (Suc (k mod 2 ^ e)) mod 2 ^ 64"
    using small by (simp add: idx_def unat_word_ariths unat_of_nat take_bit_nat_eq_self)
  also have "\<dots> mod 2 ^ e = Suc (k mod 2 ^ e) mod 2 ^ e"
    using assms by (intro mod_mod_cancel le_imp_power_dvd) simp
  also have "\<dots> = Suc k mod 2 ^ e" by (simp only: mod_Suc_eq)
  finally have "unat (next_idx (2 ^ e) (idx (2 ^ e) k)) = Suc k mod 2 ^ e" .
  then have "next_idx (2 ^ e) (idx (2 ^ e) k) = of_nat (Suc k mod 2 ^ e)"
    by (metis of_nat_unat ucast_id)
  then show ?thesis by (simp add: idx_def)
qed

lemma unat_idx: "e < 64 \<Longrightarrow> unat (idx (2 ^ e) k) = k mod 2 ^ e"
proof -
  assume "e < 64"
  then have "(2 :: nat) ^ e < 2 ^ 64" by (intro power_strict_increasing) auto
  moreover have "k mod 2 ^ e < 2 ^ e" by simp
  ultimately have "k mod 2 ^ e < 2 ^ 64" by (rule less_trans [rotated])
  then show ?thesis by (simp add: idx_def unat_of_nat take_bit_nat_eq_self)
qed

lemma idx_window_eq:
  assumes "e < 64" "a \<le> b" "b < a + 2 ^ e"
  shows "idx (2 ^ e) a = idx (2 ^ e) b \<longleftrightarrow> a = b"
  using unat_idx [OF assms(1), of a] unat_idx [OF assms(1), of b] mod_window_eq [OF assms(2,3)]
  by (metis)

lemma idx_full_iff:
  assumes "e < 64" "h \<le> t" "t < h + 2 ^ e"
  shows "idx (2 ^ e) h = idx (2 ^ e) (Suc t) \<longleftrightarrow> Suc t = h + 2 ^ e"
proof (cases "Suc t = h + 2 ^ e")
  case True
  then show ?thesis by (simp add: idx_def)
next
  case False
  then show ?thesis using idx_window_eq [OF assms(1), of h "Suc t"] assms(2,3) by auto
qed

section \<open>The invariant\<close>

text \<open>\<open>h\<close> and \<open>t\<close> count the pops and pushes, \<open>ch\<close> and \<open>ct\<close> are the stale copies.\<close>

definition spsc_rel :: "'a spsc \<Rightarrow> nat \<Rightarrow> nat \<Rightarrow> nat \<Rightarrow> nat \<Rightarrow> nat \<Rightarrow> bool" where
  "spsc_rel q e ch h ct t \<longleftrightarrow> e < 64 \<and> length (data q) = 2 ^ e \<and>
     ch \<le> h \<and> h \<le> ct \<and> ct \<le> t \<and> t < ch + 2 ^ e \<and>
     cached_head q = idx (2 ^ e) ch \<and> head q = idx (2 ^ e) h \<and>
     cached_tail q = idx (2 ^ e) ct \<and> tail q = idx (2 ^ e) t"

definition spsc_inv :: "'a spsc \<Rightarrow> bool" where
  "spsc_inv q \<longleftrightarrow> (\<exists>e ch h ct t. spsc_rel q e ch h ct t)"

lemma spsc_invI: "spsc_rel q e ch h ct t \<Longrightarrow> spsc_inv q"
  unfolding spsc_inv_def by blast

text \<open>The queued elements, from the head index up to the tail index.\<close>

definition q_list :: "'a spsc \<Rightarrow> 'a list" where
  "q_list q = (let n = length (data q); h = unat (head q) in
     map (\<lambda>k. data q ! ((h + k) mod n)) [0..<(unat (tail q) + n - h) mod n])"

lemma q_list_rel:
  assumes rel: "spsc_rel q e ch h ct t"
  shows "q_list q = map (\<lambda>k. data q ! (k mod 2 ^ e)) [h..<t]"
proof -
  have R: "e < 64" "length (data q) = 2 ^ e" "head q = idx (2 ^ e) h" "tail q = idx (2 ^ e) t"
    "h \<le> t" "t < h + 2 ^ e" using rel by (auto simp: spsc_rel_def)
  let ?n = "2 ^ e :: nat"
  have "(t mod ?n + ?n - h mod ?n) mod ?n = t - h"
  proof -
    have "h mod ?n \<le> t mod ?n + ?n" by (simp add: trans_le_add2)
    then have "int ((t mod ?n + ?n - h mod ?n) mod ?n) = (int t mod int ?n + int ?n - int h mod int ?n) mod int ?n"
      by (simp add: of_nat_mod of_nat_diff)
    also have "\<dots> = (int t mod int ?n - int h mod int ?n + int ?n) mod int ?n" by (simp only: algebra_simps)
    also have "\<dots> = (int t - int h) mod int ?n" by (simp only: mod_add_self2 mod_diff_eq)
    also have "\<dots> = int ((t - h) mod ?n)" using R(5) by (simp add: of_nat_mod of_nat_diff)
    also have "(t - h) mod ?n = t - h" using R(5,6) by simp
    finally show ?thesis by simp
  qed
  moreover have "(h mod ?n + k) mod ?n = (h + k) mod ?n" for k by (simp add: mod_simps)
  moreover have "map (\<lambda>k. f (h + k)) [0..<t - h] = map f [h..<t]" for f :: "nat \<Rightarrow> 'a"
    using R(5) by (intro nth_equalityI) auto
  ultimately show ?thesis using R(1-4) by (simp add: q_list_def unat_idx Let_def)
qed

lemma spsc_inv_new:
  assumes "length d = 2 ^ e" "e < 64"
  shows "spsc_inv (SPSCQueue d)" "q_list (SPSCQueue d) = []"
proof -
  have rel: "spsc_rel (SPSCQueue d) e 0 0 0 0" using assms by (simp add: spsc_rel_def SPSCQueue_def idx_def)
  then show "spsc_inv (SPSCQueue d)" by (rule spsc_invI)
  show "q_list (SPSCQueue d) = []" using q_list_rel [OF rel] by simp
qed

lemma push_spec:
  assumes inv: "spsc_inv q"
  shows "\<exists>q'. push q x = Some (length (q_list q) < length (data q) - 1, q') \<and> spsc_inv q' \<and>
    length (data q') = length (data q) \<and>
    q_list q' = (if length (q_list q) < length (data q) - 1 then q_list q @ [x] else q_list q)"
proof -
  obtain e ch h ct t where rel: "spsc_rel q e ch h ct t" using inv by (auto simp: spsc_inv_def)
  then have R: "e < 64" "length (data q) = 2 ^ e" "ch \<le> h" "h \<le> ct" "ct \<le> t" "t < ch + 2 ^ e"
    "cached_head q = idx (2 ^ e) ch" "head q = idx (2 ^ e) h" "cached_tail q = idx (2 ^ e) ct" "tail q = idx (2 ^ e) t"
    by (auto simp: spsc_rel_def)
  let ?n = "2 ^ e :: nat"
  have nxt: "next_idx (length (data q)) (tail q) = idx ?n (Suc t)" using R next_idx_idx by simp
  have full: "cached_head q = idx ?n (Suc t) \<longleftrightarrow> Suc t = ch + ?n" "head q = idx ?n (Suc t) \<longleftrightarrow> Suc t = h + ?n"
    using idx_full_iff [OF R(1), of ch t] idx_full_iff [OF R(1), of h t] R by auto
  have len: "length (q_list q) = t - h" using q_list_rel [OF rel] by simp
  define ch' where "ch' = (if Suc t = ch + ?n then h else ch)"
  have ch': "(if cached_head q = idx ?n (Suc t) then q\<lparr>cached_head := head q\<rparr> else q) = q\<lparr>cached_head := idx ?n ch'\<rparr>"
    using full(1) R(7,8) by (auto simp: ch'_def)
  show ?thesis
  proof (cases "Suc t = h + ?n")
    case True
    then have "Suc t = ch + ?n" using R by auto
    then have "push q x = Some (False, q\<lparr>cached_head := head q\<rparr>)"
      using True full by (simp add: push_def nxt Let_def)
    moreover have "spsc_rel (q\<lparr>cached_head := head q\<rparr>) e h h ct t"
      using R by (auto simp: spsc_rel_def)
    ultimately show ?thesis
      using True len R q_list_rel [OF rel] q_list_rel [of "q\<lparr>cached_head := head q\<rparr>" e h h ct t]
        spsc_invI [of "q\<lparr>cached_head := head q\<rparr>" e h h ct t] by auto
  next
    case False
    let ?q = "q\<lparr>cached_head := idx ?n ch', data := (data q)[t mod ?n := x], tail := idx ?n (Suc t)\<rparr>"
    have "\<not> (cached_head q = idx ?n (Suc t) \<and> cached_head (q\<lparr>cached_head := idx ?n ch'\<rparr>) = idx ?n (Suc t))"
      using False full R(8) by (auto simp: ch'_def)
    then have "push q x = Some (True, ?q)" unfolding push_def Let_def nxt ch'
      using R(2,10) unat_idx [OF R(1), of t] by (simp only: if_False) simp
    moreover have rel': "spsc_rel ?q e ch' h ct (Suc t)" using R False by (auto simp: spsc_rel_def ch'_def)
    moreover have "q_list ?q = q_list q @ [x]"
    proof -
      have "t mod ?n \<noteq> k mod ?n" if "h \<le> k" "k < t" for k using that R mod_window_eq [of k t ?n] by auto
      then show ?thesis using R by (simp add: q_list_rel [OF rel'] q_list_rel [OF rel])
    qed
    ultimately show ?thesis using False len R spsc_invI [OF rel'] by auto
  qed
qed

lemma pop_spec:
  assumes inv: "spsc_inv q"
  shows "\<exists>q'. pop q = Some (if q_list q = [] then None else Some (hd (q_list q)), q') \<and> spsc_inv q' \<and>
    length (data q') = length (data q) \<and> q_list q' = tl (q_list q)"
proof -
  obtain e ch h ct t where rel: "spsc_rel q e ch h ct t" using inv by (auto simp: spsc_inv_def)
  then have R: "e < 64" "length (data q) = 2 ^ e" "ch \<le> h" "h \<le> ct" "ct \<le> t" "t < ch + 2 ^ e"
    "cached_head q = idx (2 ^ e) ch" "head q = idx (2 ^ e) h" "cached_tail q = idx (2 ^ e) ct" "tail q = idx (2 ^ e) t"
    by (auto simp: spsc_rel_def)
  let ?n = "2 ^ e :: nat"
  have nxt: "next_idx (length (data q)) (head q) = idx ?n (Suc h)" using R next_idx_idx by simp
  have empty: "head q = cached_tail q \<longleftrightarrow> h = ct" "head q = tail q \<longleftrightarrow> h = t"
    using idx_window_eq [OF R(1), of h ct] idx_window_eq [OF R(1), of h t] R by auto
  show ?thesis
  proof (cases "h = t")
    case True
    then have "pop q = Some (None, q\<lparr>cached_tail := tail q\<rparr>)" using empty R by (simp add: pop_def Let_def)
    moreover have rel': "spsc_rel (q\<lparr>cached_tail := tail q\<rparr>) e ch h t t" using R by (auto simp: spsc_rel_def)
    ultimately show ?thesis using True R q_list_rel [OF rel] q_list_rel [OF rel'] spsc_invI [OF rel'] by simp
  next
    case False
    define ct' where "ct' = (if h = ct then t else ct)"
    let ?q = "q\<lparr>cached_tail := idx ?n ct', head := idx ?n (Suc h)\<rparr>"
    have ct': "(if head q = cached_tail q then q\<lparr>cached_tail := tail q\<rparr> else q) = q\<lparr>cached_tail := idx ?n ct'\<rparr>"
      using empty R(9,10) by (auto simp: ct'_def)
    have "\<not> (head q = cached_tail q \<and> head q = cached_tail (q\<lparr>cached_tail := idx ?n ct'\<rparr>))"
      using False empty R(10) by (auto simp: ct'_def)
    then have "pop q = Some (Some (data q ! (h mod ?n)), ?q)" unfolding pop_def Let_def nxt ct'
      using R(2,8) unat_idx [OF R(1), of h] by (simp only: if_False) simp
    moreover have rel': "spsc_rel ?q e ch (Suc h) ct' t" using R False by (auto simp: spsc_rel_def ct'_def)
    moreover have "q_list q = data q ! (h mod ?n) # q_list ?q"
      using R False by (simp add: q_list_rel [OF rel'] q_list_rel [OF rel] upt_conv_Cons)
    ultimately show ?thesis using spsc_invI [OF rel'] by auto
  qed
qed

section \<open>The interface of a bounded queue\<close>

locale bounded_queue =
  fixes invar :: "'q \<Rightarrow> bool"
    and elems :: "'q \<Rightarrow> 'a list"
    and room :: "'q \<Rightarrow> nat"
    and psh :: "'q \<Rightarrow> 'a \<Rightarrow> (bool \<times> 'q) option"
    and pp :: "'q \<Rightarrow> ('a option \<times> 'q) option"
  assumes push_ok: "invar q \<Longrightarrow> \<exists>q'. psh q x = Some (length (elems q) < room q, q') \<and> invar q' \<and>
      room q' = room q \<and> elems q' = (if length (elems q) < room q then elems q @ [x] else elems q)"
    and pop_ok: "invar q \<Longrightarrow> \<exists>q'. pp q = Some (if elems q = [] then None else Some (hd (elems q)), q') \<and>
      invar q' \<and> room q' = room q \<and> elems q' = tl (elems q)"
begin

lemma push_E:
  assumes "invar q"
  obtains q' where "psh q x = Some (length (elems q) < room q, q')" "invar q'" "room q' = room q"
    "elems q' = (if length (elems q) < room q then elems q @ [x] else elems q)"
  using push_ok [OF assms] by blast

lemma pop_E:
  assumes "invar q"
  obtains q' where "pp q = Some (if elems q = [] then None else Some (hd (elems q)), q')" "invar q'"
    "room q' = room q" "elems q' = tl (elems q)"
  using pop_ok [OF assms] by blast

lemma run_ok:
  "invar q \<Longrightarrow> \<exists>q'. run_queue psh pp ops q = Some (fst (ref_queue (room q) ops (elems q)), q') \<and> invar q' \<and>
     room q' = room q \<and> elems q' = snd (ref_queue (room q) ops (elems q))"
proof (induction ops arbitrary: q)
  case (Cons op ops)
  show ?case
  proof (cases op)
    case (Push x)
    obtain q1 where q1: "psh q x = Some (length (elems q) < room q, q1)" "invar q1" "room q1 = room q"
      "elems q1 = (if length (elems q) < room q then elems q @ [x] else elems q)"
      by (rule push_E [OF Cons.prems])
    from Cons.IH [OF q1(2)] q1 Push show ?thesis by (auto split: prod.splits)
  next
    case Pop
    obtain q1 where q1: "pp q = Some (if elems q = [] then None else Some (hd (elems q)), q1)" "invar q1"
      "room q1 = room q" "elems q1 = tl (elems q)" by (rule pop_E [OF Cons.prems])
    from Cons.IH [OF q1(2)] q1 Pop show ?thesis by (auto split: prod.splits)
  qed
qed simp

end

interpretation sq: bounded_queue spsc_inv q_list "\<lambda>q. length (data q) - 1" push pop
  by unfold_locales (metis push_spec, metis pop_spec)

section \<open>Properties\<close>

text \<open>
  C31. Any sequence of pushes and pops on a queue of \<open>Size\<close> slots (a power of two)
  stays inside the slot array and behaves as a first-in first-out list that holds at most
  \<open>Size - 1\<close> elements: a push fails exactly when the list is that long, a pop fails exactly
  when it is empty and otherwise returns the oldest element, whatever the two cached
  indices are at that point and however often the indices have wrapped around.
\<close>

theorem spsc_is_bounded_fifo:
  assumes "length d = 2 ^ e" "e < 64"
  shows "\<exists>q. run_queue push pop ops (SPSCQueue d) = Some (fst (ref_queue (2 ^ e - 1) ops []), q) \<and>
    q_list q = snd (ref_queue (2 ^ e - 1) ops [])"
proof -
  note new = spsc_inv_new [OF assms]
  show ?thesis using sq.run_ok [OF new(1), of ops] new(2) assms(1) by (auto simp: SPSCQueue_def)
qed

theorem spsc_is_bounded_fifo_witness:
  "\<exists>q. run_queue push pop [Push 1, Push 2, Push 3, Push 4, Pop, Push 5, Pop, Pop, Pop, Pop] (SPSCQueue [0, 0, 0, 0 :: nat])
     = Some ([Pushed True, Pushed True, Pushed True, Pushed False, Popped (Some 1), Pushed True,
              Popped (Some 2), Popped (Some 3), Popped (Some 5), Popped None], q) \<and> q_list q = []"
  using spsc_is_bounded_fifo [of "[0, 0, 0, 0 :: nat]" 2
      "[Push 1, Push 2, Push 3, Push 4, Pop, Push 5, Pop, Pop, Pop, Pop]"] by simp

end
