(* ===== verification/Spsc_Concurrent.thy ===== *)
theory Spsc_Concurrent
  imports Spsc_Queue
begin

text \<open>
  The queue of \<^verbatim>\<open>src/utils/spscqueue.h\<close> with its two threads running at once. The code is
  compiled for x86 (it uses \<^verbatim>\<open>_mm_pause\<close> and the SSE4 checksum instructions), where a store becomes
  visible to the other thread only when it leaves the store buffer of its core: every thread
  has a first-in first-out buffer of stores, loads see the youngest buffered store of their
  own thread and otherwise memory. Each rule below is one such access of \<open>push\<close> or \<open>pop\<close>
  with the local computation that follows it. The release stores and acquire loads of the
  source are plain stores and loads on this machine.
\<close>

section \<open>The machine\<close>

text \<open>
  The program counters: between the calls, before the reload of the other thread's index, before
  the access to the slot, and before the store of the own index. They carry the local
  variables: the argument, the own index and the next index, and the value read.
\<close>

datatype 'a p_pc = P_Idle | P_Reload 'a u64 u64 | P_Write 'a u64 u64 | P_Publish 'a u64 u64

datatype 'a c_pc = C_Idle | C_Reload u64 u64 | C_Read u64 u64 | C_Publish 'a u64 u64

datatype 'a store = Write_data u64 'a | Write_tail u64

text \<open>
  \<open>sent\<close> and \<open>received\<close> are ghost fields: the arguments of the pushes that returned true and
  the values the pops returned, in the order of the calls.
\<close>

record 'a machine =
  m_data :: "'a list"
  m_tail :: u64
  m_head :: u64
  p_buf :: "'a store list"
  c_buf :: "u64 list"
  p_cached_head :: u64
  c_cached_tail :: u64
  p_pc :: "'a p_pc"
  c_pc :: "'a c_pc"
  sent :: "'a list"
  received :: "'a list"

definition start_machine :: "'a list \<Rightarrow> 'a machine" where
  "start_machine d = \<lparr>m_data = d, m_tail = 0, m_head = 0, p_buf = [], c_buf = [],
     p_cached_head = 0, c_cached_tail = 0, p_pc = P_Idle, c_pc = C_Idle, sent = [], received = []\<rparr>"

text \<open>A load of the own index forwards from the store buffer.\<close>

fun forward_tail :: "'a store list \<Rightarrow> u64 \<Rightarrow> u64" where
  "forward_tail [] t = t"
| "forward_tail (Write_data i x # ws) t = forward_tail ws t"
| "forward_tail (Write_tail i # ws) t = forward_tail ws i"

definition forward_head :: "u64 list \<Rightarrow> u64 \<Rightarrow> u64" where
  "forward_head ws h = (if ws = [] then h else last ws)"

fun flush_store :: "'a store \<Rightarrow> 'a machine \<Rightarrow> 'a machine" where
  "flush_store (Write_data i x) s = s\<lparr>m_data := (m_data s)[unat i := x]\<rparr>"
| "flush_store (Write_tail i) s = s\<lparr>m_tail := i\<rparr>"

inductive step :: "'a machine \<Rightarrow> 'a machine \<Rightarrow> bool" where
  push_call: "p_pc s = P_Idle \<Longrightarrow> t = forward_tail (p_buf s) (m_tail s) \<Longrightarrow>
     n = next_idx (length (m_data s)) t \<Longrightarrow>
     step s (s\<lparr>p_pc := (if p_cached_head s = n then P_Reload x t n else P_Write x t n)\<rparr>)"
| push_reload: "p_pc s = P_Reload x t n \<Longrightarrow>
     step s (s\<lparr>p_cached_head := m_head s, p_pc := (if m_head s = n then P_Idle else P_Write x t n)\<rparr>)"
| push_write: "p_pc s = P_Write x t n \<Longrightarrow>
     step s (s\<lparr>p_buf := p_buf s @ [Write_data t x], p_pc := P_Publish x t n\<rparr>)"
| push_publish: "p_pc s = P_Publish x t n \<Longrightarrow>
     step s (s\<lparr>p_buf := p_buf s @ [Write_tail n], p_pc := P_Idle, sent := sent s @ [x]\<rparr>)"
| push_flush: "p_buf s = w # ws \<Longrightarrow> step s (flush_store w (s\<lparr>p_buf := ws\<rparr>))"
| pop_call: "c_pc s = C_Idle \<Longrightarrow> h = forward_head (c_buf s) (m_head s) \<Longrightarrow>
     n = next_idx (length (m_data s)) h \<Longrightarrow>
     step s (s\<lparr>c_pc := (if h = c_cached_tail s then C_Reload h n else C_Read h n)\<rparr>)"
| pop_reload: "c_pc s = C_Reload h n \<Longrightarrow>
     step s (s\<lparr>c_cached_tail := m_tail s, c_pc := (if h = m_tail s then C_Idle else C_Read h n)\<rparr>)"
| pop_read: "c_pc s = C_Read h n \<Longrightarrow>
     step s (s\<lparr>c_pc := C_Publish (m_data s ! unat h) h n\<rparr>)"
| pop_publish: "c_pc s = C_Publish v h n \<Longrightarrow>
     step s (s\<lparr>c_buf := c_buf s @ [n], c_pc := C_Idle, received := received s @ [v]\<rparr>)"
| pop_flush: "c_buf s = w # ws \<Longrightarrow> step s (s\<lparr>m_head := w, c_buf := ws\<rparr>)"

inductive reachable :: "'a list \<Rightarrow> 'a machine \<Rightarrow> bool" for d where
  reach_start: "reachable d (start_machine d)"
| reach_step: "reachable d s \<Longrightarrow> step s s' \<Longrightarrow> reachable d s'"

section \<open>The invariant\<close>

text \<open>
  Counters for the six views of the two indices: \<open>k_ch\<close> the producer's copy of the head, \<open>k_mh\<close> the
  head in memory, \<open>k_h\<close> the head the consumer has published, \<open>k_ct\<close> the consumer's copy of the tail,
  \<open>k_mt\<close> the tail in memory, and \<open>k_t\<close> the tail the producer has published. \<open>k_d\<close> is 1 when the
  slot of element \<open>k_mt\<close> has already reached memory and its index has not.
\<close>

record counters =
  k_ch :: nat
  k_mh :: nat
  k_h :: nat
  k_ct :: nat
  k_mt :: nat
  k_t :: nat
  k_d :: nat

definition counters_ok :: "nat \<Rightarrow> counters \<Rightarrow> 'a machine \<Rightarrow> bool" where
  "counters_ok n c s \<longleftrightarrow> k_ch c \<le> k_mh c \<and> k_mh c \<le> k_h c \<and> k_h c \<le> k_ct c \<and> k_ct c \<le> k_mt c \<and> k_mt c \<le> k_t c \<and>
     k_t c < k_ch c + n \<and> k_d c \<le> 1 \<and>
     p_cached_head s = idx n (k_ch c) \<and> m_head s = idx n (k_mh c) \<and>
     c_cached_tail s = idx n (k_ct c) \<and> m_tail s = idx n (k_mt c) \<and>
     length (sent s) = k_t c \<and> length (received s) = k_h c"

definition stores_for :: "nat \<Rightarrow> 'a list \<Rightarrow> nat \<Rightarrow> 'a store list" where
  "stores_for n xs k = [Write_data (idx n k) (xs ! k), Write_tail (idx n (Suc k))]"

fun unpublished :: "nat \<Rightarrow> nat \<Rightarrow> 'a p_pc \<Rightarrow> 'a store list" where
  "unpublished n k (P_Publish x _ _) = [Write_data (idx n k) x]"
| "unpublished n k _ = []"

definition issued :: "nat \<Rightarrow> counters \<Rightarrow> 'a machine \<Rightarrow> 'a store list" where
  "issued n c s = concat (map (stores_for n (sent s)) [k_mt c..<k_t c]) @ unpublished n (k_t c) (p_pc s)"

definition buffers_ok :: "nat \<Rightarrow> counters \<Rightarrow> 'a machine \<Rightarrow> bool" where
  "buffers_ok n c s \<longleftrightarrow> p_buf s = drop (k_d c) (issued n c s) \<and> k_d c \<le> length (issued n c s) \<and>
     c_buf s = map (idx n) [Suc (k_mh c)..<Suc (k_h c)]"

text \<open>The elements with the one that is being pushed.\<close>

fun sending :: "'a machine \<Rightarrow> 'a list" where
  "sending s = sent s @ (case p_pc s of P_Publish x _ _ \<Rightarrow> [x] | _ \<Rightarrow> [])"

definition slots_ok :: "nat \<Rightarrow> counters \<Rightarrow> 'a machine \<Rightarrow> bool" where
  "slots_ok n c s \<longleftrightarrow> length (m_data s) = n \<and>
     (\<forall>k. k_h c \<le> k \<and> k < k_mt c + k_d c \<longrightarrow> m_data s ! (k mod n) = sending s ! k)"

fun p_ok :: "nat \<Rightarrow> counters \<Rightarrow> 'a p_pc \<Rightarrow> bool" where
  "p_ok n c P_Idle = True"
| "p_ok n c (P_Reload x i j) = (i = idx n (k_t c) \<and> j = idx n (Suc (k_t c)))"
| "p_ok n c (P_Write x i j) = (i = idx n (k_t c) \<and> j = idx n (Suc (k_t c)) \<and> Suc (k_t c) < k_ch c + n)"
| "p_ok n c (P_Publish x i j) = (i = idx n (k_t c) \<and> j = idx n (Suc (k_t c)) \<and> Suc (k_t c) < k_ch c + n)"

fun c_ok :: "nat \<Rightarrow> counters \<Rightarrow> 'a list \<Rightarrow> 'a c_pc \<Rightarrow> bool" where
  "c_ok n c xs C_Idle = True"
| "c_ok n c xs (C_Reload i j) = (i = idx n (k_h c) \<and> j = idx n (Suc (k_h c)))"
| "c_ok n c xs (C_Read i j) = (i = idx n (k_h c) \<and> j = idx n (Suc (k_h c)) \<and> k_h c < k_ct c)"
| "c_ok n c xs (C_Publish v i j) = (i = idx n (k_h c) \<and> j = idx n (Suc (k_h c)) \<and> k_h c < k_ct c \<and> v = xs ! k_h c)"

definition machine_rel :: "nat \<Rightarrow> counters \<Rightarrow> 'a machine \<Rightarrow> bool" where
  "machine_rel n c s \<longleftrightarrow> counters_ok n c s \<and> buffers_ok n c s \<and> slots_ok n c s \<and>
     p_ok n c (p_pc s) \<and> c_ok n c (sent s) (c_pc s) \<and> received s = take (k_h c) (sent s)"

lemma forward_tail_append: "forward_tail (ws @ vs) i = forward_tail vs (forward_tail ws i)"
  by (induction ws i rule: forward_tail.induct) simp_all

lemma forward_issued: "mt \<le> t \<Longrightarrow>
  forward_tail (concat (map (stores_for n xs) [mt..<t])) (idx n mt) = idx n t"
proof (induction "t - mt" arbitrary: t)
  case (Suc k)
  then obtain t' where t': "t = Suc t'" "mt \<le> t'" by (cases t) auto
  with Suc show ?case by (simp add: forward_tail_append stores_for_def)
qed simp

lemma machine_relD:
  assumes "machine_rel n c s"
  shows "counters_ok n c s" "buffers_ok n c s" "slots_ok n c s" "p_ok n c (p_pc s)"
    "c_ok n c (sent s) (c_pc s)" "received s = take (k_h c) (sent s)"
  using assms unfolding machine_rel_def by blast+

lemma load_tail:
  assumes "machine_rel n c s" "p_pc s = P_Idle"
  shows "forward_tail (p_buf s) (m_tail s) = idx n (k_t c)"
proof -
  note M = machine_relD [OF assms(1)]
  let ?ws = "concat (map (stores_for n (sent s)) [k_mt c..<k_t c])"
  have c: "k_mt c \<le> k_t c" "k_d c \<le> 1" "m_tail s = idx n (k_mt c)" using M(1) by (auto simp: counters_ok_def)
  have b: "p_buf s = drop (k_d c) ?ws" using M(2) assms(2) by (simp add: buffers_ok_def issued_def)
  have "forward_tail (drop (k_d c) ?ws) i = forward_tail ?ws i" for i
  proof (cases "k_mt c < k_t c")
    case True
    then show ?thesis using c(2) by (cases "k_d c") (simp_all add: upt_conv_Cons stores_for_def)
  qed simp
  then show ?thesis using forward_issued [OF c(1)] b c(3) by simp
qed

lemma load_head:
  assumes "machine_rel n c s"
  shows "forward_head (c_buf s) (m_head s) = idx n (k_h c)"
  using machine_relD(1,2) [OF assms]
  by (cases "k_mh c = k_h c") (auto simp: forward_head_def buffers_ok_def counters_ok_def last_map)

lemma received_prefix: "machine_rel n c s \<Longrightarrow> received s = take (length (received s)) (sent s)"
  using machine_relD(1,6) [of n c s] by (auto simp: counters_ok_def)

lemma push_call_rel:
  assumes rel: "machine_rel (2 ^ e) c s" and e: "e < 64" and pc: "p_pc s = P_Idle"
    and tl: "i = forward_tail (p_buf s) (m_tail s)" "j = next_idx (length (m_data s)) i"
  shows "machine_rel (2 ^ e) c (s\<lparr>p_pc := (if p_cached_head s = j then P_Reload x i j else P_Write x i j)\<rparr>)"
proof -
  note M = machine_relD [OF rel]
  have c: "k_ch c \<le> k_t c" "k_t c < k_ch c + 2 ^ e" "p_cached_head s = idx (2 ^ e) (k_ch c)" "length (m_data s) = 2 ^ e"
    using M(1,3) by (auto simp: counters_ok_def slots_ok_def)
  have i: "i = idx (2 ^ e) (k_t c)" using tl(1) load_tail [OF rel pc] by simp
  have j: "j = idx (2 ^ e) (Suc (k_t c))" using tl(2) i c(4) next_idx_idx [OF e] by simp
  have "Suc (k_t c) < k_ch c + 2 ^ e" if "p_cached_head s \<noteq> j"
    using that j c idx_full_iff [OF e c(1,2)] by auto
  then show ?thesis using M pc i j
    by (auto simp: machine_rel_def counters_ok_def buffers_ok_def slots_ok_def issued_def)
qed

lemma push_reload_rel:
  assumes rel: "machine_rel (2 ^ e) c s" and e: "e < 64" and pc: "p_pc s = P_Reload x i j"
  shows "machine_rel (2 ^ e) (c\<lparr>k_ch := k_mh c\<rparr>)
    (s\<lparr>p_cached_head := m_head s, p_pc := (if m_head s = j then P_Idle else P_Write x i j)\<rparr>)"
proof -
  note M = machine_relD [OF rel]
  have c: "k_mh c \<le> k_t c" "k_t c < k_mh c + 2 ^ e" "m_head s = idx (2 ^ e) (k_mh c)" "j = idx (2 ^ e) (Suc (k_t c))"
    using M(1,4) pc by (auto simp: counters_ok_def)
  then have "Suc (k_t c) < k_mh c + 2 ^ e" if "m_head s \<noteq> j"
    using that idx_full_iff [OF e c(1,2)] by auto
  then show ?thesis using M pc c
    by (auto simp: machine_rel_def counters_ok_def buffers_ok_def slots_ok_def issued_def)
       (cases "c_pc s"; simp)+
qed

lemma push_write_rel:
  assumes rel: "machine_rel (2 ^ e) c s" and pc: "p_pc s = P_Write x i j"
  shows "machine_rel (2 ^ e) c (s\<lparr>p_buf := p_buf s @ [Write_data i x], p_pc := P_Publish x i j\<rparr>)"
proof -
  note M = machine_relD [OF rel]
  let ?s = "s\<lparr>p_buf := p_buf s @ [Write_data i x], p_pc := P_Publish x i j\<rparr>"
  have i: "i = idx (2 ^ e) (k_t c)" using M(4) pc by simp
  have "issued (2 ^ e) c ?s = issued (2 ^ e) c s @ [Write_data i x]" using pc i by (simp add: issued_def)
  then have "buffers_ok (2 ^ e) c ?s" using M(2) by (simp add: buffers_ok_def)
  moreover have "slots_ok (2 ^ e) c ?s"
  proof -
    have "k < length (sent s)" if "k < k_mt c + k_d c" for k
    proof (cases "k_mt c < k_t c")
      case False
      then have "issued (2 ^ e) c s = []" using pc by (simp add: issued_def)
      then show ?thesis using that False M(1,2) by (simp add: buffers_ok_def counters_ok_def)
    qed (use that M(1) in \<open>auto simp: counters_ok_def\<close>)
    then show ?thesis using M(3) pc by (auto simp: slots_ok_def nth_append)
  qed
  ultimately show ?thesis using M pc by (auto simp: machine_rel_def counters_ok_def)
qed

lemma push_publish_rel:
  assumes rel: "machine_rel (2 ^ e) c s" and pc: "p_pc s = P_Publish x i j"
  shows "machine_rel (2 ^ e) (c\<lparr>k_t := Suc (k_t c)\<rparr>)
    (s\<lparr>p_buf := p_buf s @ [Write_tail j], p_pc := P_Idle, sent := sent s @ [x]\<rparr>)"
proof -
  note M = machine_relD [OF rel]
  let ?s = "s\<lparr>p_buf := p_buf s @ [Write_tail j], p_pc := P_Idle, sent := sent s @ [x]\<rparr>"
  let ?c = "c\<lparr>k_t := Suc (k_t c)\<rparr>"
  have j: "j = idx (2 ^ e) (Suc (k_t c))" "Suc (k_t c) < k_ch c + 2 ^ e" using M(4) pc by auto
  have len: "length (sent s) = k_t c" "k_mt c \<le> k_t c" "k_h c \<le> k_t c" using M(1) by (auto simp: counters_ok_def)
  have eq: "map (stores_for (2 ^ e) (sent s @ [x])) [k_mt c..<k_t c] = map (stores_for (2 ^ e) (sent s)) [k_mt c..<k_t c]"
    using len(1) by (intro map_cong) (auto simp: stores_for_def nth_append)
  have "issued (2 ^ e) ?c ?s = concat (map (stores_for (2 ^ e) (sent s @ [x])) [k_mt c..<k_t c]) @
      stores_for (2 ^ e) (sent s @ [x]) (k_t c)" using len by (simp add: issued_def)
  also have "\<dots> = issued (2 ^ e) c s @ [Write_tail j]"
    unfolding eq using pc j(1) len by (simp add: issued_def) (simp add: stores_for_def nth_append)
  finally have "buffers_ok (2 ^ e) ?c ?s" using M(2) by (simp add: buffers_ok_def)
  moreover have "slots_ok (2 ^ e) ?c ?s" using M(3) pc by (simp add: slots_ok_def)
  moreover have "c_ok (2 ^ e) ?c (sent s @ [x]) (c_pc s)"
    using M(1,5) by (cases "c_pc s") (auto simp: nth_append counters_ok_def)
  ultimately show ?thesis using M j(2) len by (auto simp: machine_rel_def counters_ok_def)
qed

lemma push_flush_rel:
  assumes rel: "machine_rel (2 ^ e) c s" and e: "e < 64" and buf: "p_buf s = w # ws"
  shows "\<exists>c'. machine_rel (2 ^ e) c' (flush_store w (s\<lparr>p_buf := ws\<rparr>))"
proof (cases "k_d c = 0")
  case True
  note M = machine_relD [OF rel]
  have c: "length (sent s) = k_t c" "k_mt c \<le> k_t c" "k_h c \<le> k_mt c" "k_mt c < k_h c + 2 ^ e"
    using M(1) by (auto simp: counters_ok_def)
  have iss: "issued (2 ^ e) c s = w # ws" using M(2) buf True by (simp add: buffers_ok_def)
  have w: "w = Write_data (idx (2 ^ e) (k_mt c)) (sending s ! k_mt c)"
  proof (cases "k_mt c < k_t c")
    case True
    then show ?thesis using iss c(1) by (auto simp: issued_def stores_for_def upt_conv_Cons nth_append)
  next
    case False
    then show ?thesis using iss c by (cases "p_pc s") (auto simp: issued_def nth_append)
  qed
  let ?s = "flush_store w (s\<lparr>p_buf := ws\<rparr>)" and ?c = "c\<lparr>k_d := 1\<rparr>"
  have s: "?s = s\<lparr>p_buf := ws, m_data := (m_data s)[k_mt c mod 2 ^ e := sending s ! k_mt c]\<rparr>"
    using w unat_idx [OF e] by simp
  have "buffers_ok (2 ^ e) ?c ?s" using M(2) iss unfolding s by (simp add: buffers_ok_def issued_def)
  moreover have "slots_ok (2 ^ e) ?c ?s"
  proof -
    have "k_mt c mod 2 ^ e \<noteq> k mod 2 ^ e" if "k_h c \<le> k" "k < k_mt c" for k
      using that c(4) mod_window_eq [of k "k_mt c" "2 ^ e"] by auto
    then show ?thesis using M(3) True unfolding s by (auto simp: slots_ok_def less_Suc_eq)
  qed
  ultimately have "machine_rel (2 ^ e) ?c ?s" using M unfolding s
    by (auto simp: machine_rel_def counters_ok_def) (cases "p_pc s"; cases "c_pc s"; simp)+
  then show ?thesis by blast
next
  case False
  note M = machine_relD [OF rel]
  have c: "length (sent s) = k_t c" "k_mt c \<le> k_t c" "k_d c = 1" using M(1) False by (auto simp: counters_ok_def)
  obtain v where iss: "issued (2 ^ e) c s = v # w # ws"
    using M(2) buf c(3) by (cases "issued (2 ^ e) c s") (auto simp: buffers_ok_def)
  have less: "k_mt c < k_t c"
  proof (rule ccontr)
    assume "\<not> k_mt c < k_t c"
    then show False using iss by (cases "p_pc s") (auto simp: issued_def)
  qed
  let ?s = "flush_store w (s\<lparr>p_buf := ws\<rparr>)" and ?c = "c\<lparr>k_d := 0, k_mt := Suc (k_mt c)\<rparr>"
  have w: "w = Write_tail (idx (2 ^ e) (Suc (k_mt c)))" "issued (2 ^ e) ?c s = ws"
    using iss less by (auto simp: issued_def upt_conv_Cons stores_for_def)
  have "buffers_ok (2 ^ e) ?c ?s" using M(2) w by (simp add: buffers_ok_def issued_def)
  moreover have "slots_ok (2 ^ e) ?c ?s" using M(3) c(3) w by (simp add: slots_ok_def)
  ultimately have "machine_rel (2 ^ e) ?c ?s" using M w less
    by (auto simp: machine_rel_def counters_ok_def) (cases "p_pc s"; cases "c_pc s"; simp)+
  then show ?thesis by blast
qed

lemma pop_call_rel:
  assumes rel: "machine_rel (2 ^ e) c s" and e: "e < 64" and pc: "c_pc s = C_Idle"
    and hd: "i = forward_head (c_buf s) (m_head s)" "j = next_idx (length (m_data s)) i"
  shows "machine_rel (2 ^ e) c (s\<lparr>c_pc := (if i = c_cached_tail s then C_Reload i j else C_Read i j)\<rparr>)"
proof -
  note M = machine_relD [OF rel]
  have c: "k_h c \<le> k_ct c" "k_ct c < k_h c + 2 ^ e" "c_cached_tail s = idx (2 ^ e) (k_ct c)" "length (m_data s) = 2 ^ e"
    using M(1,3) by (auto simp: counters_ok_def slots_ok_def)
  have i: "i = idx (2 ^ e) (k_h c)" using hd(1) load_head [OF rel] by simp
  have j: "j = idx (2 ^ e) (Suc (k_h c))" using hd(2) i c(4) next_idx_idx [OF e] by simp
  have "k_h c < k_ct c" if "i \<noteq> c_cached_tail s" using that i c by (cases "k_h c = k_ct c") auto
  then show ?thesis using M pc i j
    by (auto simp: machine_rel_def counters_ok_def buffers_ok_def slots_ok_def issued_def)
qed

lemma pop_reload_rel:
  assumes rel: "machine_rel (2 ^ e) c s" and pc: "c_pc s = C_Reload i j"
  shows "machine_rel (2 ^ e) (c\<lparr>k_ct := k_mt c\<rparr>)
    (s\<lparr>c_cached_tail := m_tail s, c_pc := (if i = m_tail s then C_Idle else C_Read i j)\<rparr>)"
proof -
  note M = machine_relD [OF rel]
  have c: "k_h c \<le> k_mt c" "m_tail s = idx (2 ^ e) (k_mt c)" "i = idx (2 ^ e) (k_h c)"
    using M(1,5) pc by (auto simp: counters_ok_def)
  then have "k_h c < k_mt c" if "i \<noteq> m_tail s" using that by (cases "k_h c = k_mt c") auto
  then show ?thesis using M pc
    by (auto simp: machine_rel_def counters_ok_def buffers_ok_def slots_ok_def issued_def)
       (cases "p_pc s"; simp)+
qed

lemma pop_read_rel:
  assumes rel: "machine_rel (2 ^ e) c s" and e: "e < 64" and pc: "c_pc s = C_Read i j"
  shows "machine_rel (2 ^ e) c (s\<lparr>c_pc := C_Publish (m_data s ! unat i) i j\<rparr>)"
proof -
  note M = machine_relD [OF rel]
  have c: "k_h c < k_mt c" "k_mt c \<le> length (sent s)" "i = idx (2 ^ e) (k_h c)"
    using M(1,5) pc by (auto simp: counters_ok_def)
  then have "m_data s ! unat i = sent s ! k_h c"
    using M(3) unat_idx [OF e] by (auto simp: slots_ok_def nth_append)
  then show ?thesis using M pc
    by (auto simp: machine_rel_def counters_ok_def buffers_ok_def slots_ok_def issued_def)
qed

lemma pop_publish_rel:
  assumes rel: "machine_rel (2 ^ e) c s" and pc: "c_pc s = C_Publish v i j"
  shows "machine_rel (2 ^ e) (c\<lparr>k_h := Suc (k_h c)\<rparr>)
    (s\<lparr>c_buf := c_buf s @ [j], c_pc := C_Idle, received := received s @ [v]\<rparr>)"
proof -
  note M = machine_relD [OF rel]
  have c: "k_h c < length (sent s)" "v = sent s ! k_h c" "j = idx (2 ^ e) (Suc (k_h c))" "k_mh c \<le> k_h c"
    using M(1,5) pc by (auto simp: counters_ok_def)
  then have "take (Suc (k_h c)) (sent s) = received s @ [v]" using M(6) by (simp add: take_Suc_conv_app_nth)
  then show ?thesis using M pc c
    by (auto simp: machine_rel_def counters_ok_def buffers_ok_def slots_ok_def issued_def)
       (cases "p_pc s"; simp)+
qed

lemma pop_flush_rel:
  assumes rel: "machine_rel (2 ^ e) c s" and buf: "c_buf s = w # ws"
  shows "machine_rel (2 ^ e) (c\<lparr>k_mh := Suc (k_mh c)\<rparr>) (s\<lparr>m_head := w, c_buf := ws\<rparr>)"
proof -
  note M = machine_relD [OF rel]
  have less: "k_mh c < k_h c" using M(2) buf by (auto simp: buffers_ok_def split: if_splits)
  then have "w = idx (2 ^ e) (Suc (k_mh c))" "ws = map (idx (2 ^ e)) [Suc (Suc (k_mh c))..<Suc (k_h c)]"
    using M(2) buf by (auto simp: buffers_ok_def upt_conv_Cons simp del: upt_Suc)
  then show ?thesis using M less
    by (auto simp: machine_rel_def counters_ok_def buffers_ok_def slots_ok_def issued_def simp del: upt_Suc)
       (cases "p_pc s"; cases "c_pc s"; simp)+
qed

lemma step_rel:
  assumes "step s s'" "machine_rel (2 ^ e) c s" "e < 64"
  shows "\<exists>c'. machine_rel (2 ^ e) c' s'"
  using assms(1)
proof cases
  case (push_call t n x)
  then show ?thesis using push_call_rel [OF assms(2,3)] by blast
next
  case (push_reload x t n)
  then show ?thesis using push_reload_rel [OF assms(2,3)] by blast
next
  case (push_write x t n)
  then show ?thesis using push_write_rel [OF assms(2)] by blast
next
  case (push_publish x t n)
  then show ?thesis using push_publish_rel [OF assms(2)] by blast
next
  case (push_flush w ws)
  then show ?thesis using push_flush_rel [OF assms(2,3)] by blast
next
  case (pop_call h n)
  then show ?thesis using pop_call_rel [OF assms(2,3)] by blast
next
  case (pop_reload h n)
  then show ?thesis using pop_reload_rel [OF assms(2)] by blast
next
  case (pop_read h n)
  then show ?thesis using pop_read_rel [OF assms(2,3)] by blast
next
  case (pop_publish v h n)
  then show ?thesis using pop_publish_rel [OF assms(2)] by blast
next
  case (pop_flush w ws)
  then show ?thesis using pop_flush_rel [OF assms(2)] by blast
qed

lemma machine_rel_start:
  assumes "length xs = 2 ^ e"
  shows "machine_rel (2 ^ e) \<lparr>k_ch = 0, k_mh = 0, k_h = 0, k_ct = 0, k_mt = 0, k_t = 0, k_d = 0\<rparr> (start_machine xs)"
  using assms by (simp add: machine_rel_def counters_ok_def buffers_ok_def slots_ok_def issued_def
      start_machine_def idx_def)

lemma reachable_rel:
  assumes "reachable xs s" "length xs = 2 ^ e" "e < 64"
  shows "\<exists>c. machine_rel (2 ^ e) c s"
  using assms(1)
proof (induction rule: reachable.induct)
  case reach_start
  show ?case using machine_rel_start [OF assms(2)] by blast
next
  case (reach_step s s')
  then show ?case using step_rel assms(3) by blast
qed

text \<open>The index stores of the producer that have not reached memory.\<close>

fun pending_tails :: "'a store list \<Rightarrow> nat" where
  "pending_tails [] = 0"
| "pending_tails (Write_data _ _ # ws) = pending_tails ws"
| "pending_tails (Write_tail _ # ws) = Suc (pending_tails ws)"

lemma pending_tails_append: "pending_tails (vs @ ws) = pending_tails vs + pending_tails ws"
  by (induction vs rule: pending_tails.induct) simp_all

lemma pending_tails_issued: "a \<le> b \<Longrightarrow> pending_tails (concat (map (stores_for n xs) [a..<b])) = b - a"
  by (induction b) (auto simp: pending_tails_append stores_for_def le_Suc_eq Suc_diff_le)

lemma pending_tails_buf:
  assumes "machine_rel n c s"
  shows "k_mt c + pending_tails (p_buf s) = k_t c"
proof -
  note M = machine_relD [OF assms]
  have c: "k_mt c < k_t c \<or> k_mt c = k_t c" "k_d c \<le> 1" using M(1) by (auto simp: counters_ok_def)
  have "pending_tails (issued n c s) = k_t c - k_mt c"
    using c(1) by (cases "p_pc s") (auto simp: issued_def pending_tails_append pending_tails_issued)
  moreover have "pending_tails (drop (k_d c) (issued n c s)) = pending_tails (issued n c s)"
    using c by (elim disjE; cases "k_d c"; cases "p_pc s") (auto simp: issued_def upt_conv_Cons stores_for_def)
  ultimately show ?thesis using M(2) c(1) by (auto simp: buffers_ok_def)
qed

section \<open>Delivery\<close>

text \<open>From a state in which the consumer is behind, a run of flushes and consumer steps delivers.\<close>

lemma flush_all:
  "\<exists>s'. step\<^sup>*\<^sup>* s s' \<and> p_buf s' = [] \<and> sent s' = sent s \<and> received s' = received s \<and> c_pc s' = c_pc s"
proof (induction "p_buf s" arbitrary: s)
  case Nil
  then show ?case by (intro exI [of _ s]) simp
next
  case (Cons w ws)
  let ?s = "flush_store w (s\<lparr>p_buf := ws\<rparr>)"
  have "step s ?s" using Cons.hyps(2) by (intro push_flush) simp
  moreover have keep: "p_buf ?s = ws" "sent ?s = sent s" "received ?s = received s" "c_pc ?s = c_pc s"
    by (cases w; simp)+
  ultimately show ?case using Cons.hyps(1) [of ?s] by (metis converse_rtranclp_into_rtranclp)
qed

lemma publish_delivers:
  assumes "c_pc s = C_Publish v i j"
  shows "\<exists>s'. step\<^sup>*\<^sup>* s s' \<and> sent s' = sent s \<and> length (received s') = Suc (length (received s))"
  using step.pop_publish [OF assms] by (intro exI conjI) (rule r_into_rtranclp, assumption, simp_all)

lemma read_delivers:
  assumes "c_pc s = C_Read i j"
  shows "\<exists>s'. step\<^sup>*\<^sup>* s s' \<and> sent s' = sent s \<and> length (received s') = Suc (length (received s))"
proof -
  let ?s = "s\<lparr>c_pc := C_Publish (m_data s ! unat i) i j\<rparr>"
  have "step s ?s" using assms by (rule pop_read)
  moreover obtain s' where "step\<^sup>*\<^sup>* ?s s'" "sent s' = sent ?s" "length (received s') = Suc (length (received ?s))"
    using publish_delivers [of ?s] by auto
  ultimately show ?thesis by (intro exI [of _ s']) (auto intro: converse_rtranclp_into_rtranclp)
qed

lemma reload_delivers:
  assumes "c_pc s = C_Reload i j" "i \<noteq> m_tail s"
  shows "\<exists>s'. step\<^sup>*\<^sup>* s s' \<and> sent s' = sent s \<and> length (received s') = Suc (length (received s))"
proof -
  let ?s = "s\<lparr>c_cached_tail := m_tail s, c_pc := C_Read i j\<rparr>"
  have "step s ?s" using pop_reload [OF assms(1)] assms(2) by simp
  moreover obtain s' where "step\<^sup>*\<^sup>* ?s s'" "sent s' = sent ?s" "length (received s') = Suc (length (received ?s))"
    using read_delivers [of ?s] by auto
  ultimately show ?thesis by (intro exI [of _ s']) (auto intro: converse_rtranclp_into_rtranclp)
qed

lemma flushed_tail:
  assumes "machine_rel n c s" "p_buf s = []"
  shows "m_tail s = idx n (length (sent s))"
proof -
  note M = machine_relD [OF assms(1)]
  have "length (issued n c s) \<le> k_d c" "k_d c \<le> 1" using M(1,2) assms(2) by (auto simp: buffers_ok_def counters_ok_def)
  then have "k_mt c \<ge> k_t c" by (cases "k_mt c < k_t c") (auto simp: issued_def stores_for_def upt_conv_Cons)
  then show ?thesis using M(1) by (auto simp: counters_ok_def)
qed

lemma flushed_delivers:
  assumes rel: "machine_rel (2 ^ e) c s" and e: "e < 64" and buf: "p_buf s = []"
    and behind: "length (received s) < length (sent s)"
  shows "\<exists>s'. step\<^sup>*\<^sup>* s s' \<and> sent s' = sent s \<and> length (received s') = Suc (length (received s))"
proof -
  note M = machine_relD [OF rel]
  have "k_h c < k_t c" "k_t c < k_h c + 2 ^ e" using M(1) behind by (auto simp: counters_ok_def)
  then have diff: "idx (2 ^ e) (k_h c) \<noteq> m_tail s"
    using idx_window_eq [OF e, of "k_h c" "k_t c"] flushed_tail [OF rel buf] M(1) by (auto simp: counters_ok_def)
  show ?thesis
  proof (cases "c_pc s")
    case C_Idle
    let ?i = "idx (2 ^ e) (k_h c)" and ?j = "next_idx (length (m_data s)) (idx (2 ^ e) (k_h c))"
    let ?s = "s\<lparr>c_pc := (if ?i = c_cached_tail s then C_Reload ?i ?j else C_Read ?i ?j)\<rparr>"
    have go: "step s ?s" using load_head [OF rel] by (intro pop_call [OF C_Idle]) simp_all
    obtain s' where "step\<^sup>*\<^sup>* ?s s'" "sent s' = sent ?s" "length (received s') = Suc (length (received ?s))"
      using reload_delivers [of ?s ?i ?j] read_delivers [of ?s ?i ?j] diff by (cases "?i = c_cached_tail s") auto
    then show ?thesis using go by (intro exI [of _ s']) (auto intro: converse_rtranclp_into_rtranclp)
  next
    case (C_Reload i j)
    then show ?thesis using M(5) diff reload_delivers [OF C_Reload] by simp
  next
    case (C_Read i j)
    then show ?thesis by (rule read_delivers)
  next
    case (C_Publish v i j)
    then show ?thesis by (rule publish_delivers)
  qed
qed

lemma reachable_steps: "reachable xs s \<Longrightarrow> step\<^sup>*\<^sup>* s s' \<Longrightarrow> reachable xs s'"
  by (rotate_tac, induction rule: rtranclp_induct) (auto intro: reach_step)

section \<open>Properties\<close>

text \<open>A run of three producer steps on a queue of four slots, with both stores still buffered.\<close>

definition one_sent :: "nat machine" where
  "one_sent = (start_machine [0, 0, 0, 0])\<lparr>p_buf := [Write_data 0 7, Write_tail 1], sent := [7]\<rparr>"

lemma one_sent_reachable: "reachable [0, 0, 0, 0] one_sent"
proof -
  let ?s0 = "start_machine [0, 0, 0, 0 :: nat]"
  have "step ?s0 (?s0\<lparr>p_pc := (if p_cached_head ?s0 = 1 then P_Reload 7 0 1 else P_Write 7 0 1)\<rparr>)"
    by (rule push_call) (simp_all add: start_machine_def next_idx_def)
  then have "reachable [0, 0, 0, 0] (?s0\<lparr>p_pc := P_Write 7 0 1\<rparr>)"
    using reach_step [OF reach_start] by (simp add: start_machine_def)
  from reach_step [OF this push_write]
  have "reachable [0, 0, 0, 0] (?s0\<lparr>p_pc := P_Publish 7 0 1, p_buf := [Write_data 0 7]\<rparr>)"
    by (simp add: start_machine_def)
  from reach_step [OF this push_publish] show ?thesis by (simp add: start_machine_def one_sent_def)
qed

text \<open>Another: the consumer is about to read the first slot while the second is being written.\<close>

definition reading_one :: "nat machine" where
  "reading_one = (start_machine [0, 0, 0, 0])\<lparr>m_data := [7, 0, 0, 0], m_tail := 1, p_buf := [Write_data 1 9],
     c_cached_tail := 1, p_pc := P_Publish 9 1 2, c_pc := C_Read 0 1, sent := [7]\<rparr>"

lemma reading_one_reachable: "reachable [0, 0, 0, 0] reading_one"
proof -
  let ?s0 = "start_machine [0, 0, 0, 0 :: nat]"
  note defs = start_machine_def one_sent_def reading_one_def forward_head_def
  have four: "next_idx (Suc (Suc (Suc (Suc 0)))) 0 = 1" "next_idx (Suc (Suc (Suc (Suc 0)))) 1 = 2" by code_simp+
  let ?s1 = "?s0\<lparr>m_data := [7, 0, 0, 0], p_buf := [Write_tail 1], sent := [7]\<rparr>"
  have "step one_sent ?s1" using push_flush [of one_sent] by (simp add: defs)
  note r = reach_step [OF one_sent_reachable this]
  let ?s2 = "?s0\<lparr>m_data := [7, 0, 0, 0], m_tail := 1, sent := [7]\<rparr>"
  have "step ?s1 ?s2" using push_flush [of ?s1] by (simp add: defs)
  note r = reach_step [OF r this]
  have "step ?s2 (?s2\<lparr>c_pc := C_Reload 0 1\<rparr>)" using pop_call [of ?s2 0 1] four by (simp add: defs)
  note r = reach_step [OF r this]
  let ?s3 = "?s2\<lparr>c_cached_tail := 1, c_pc := C_Read 0 1\<rparr>"
  have "step (?s2\<lparr>c_pc := C_Reload 0 1\<rparr>) ?s3" using pop_reload [of "?s2\<lparr>c_pc := C_Reload 0 1\<rparr>" 0 1] by (simp add: defs)
  note r = reach_step [OF r this]
  have "step ?s3 (?s3\<lparr>p_pc := P_Write 9 1 2\<rparr>)" using push_call [of ?s3 1 2 9] four by (simp add: defs)
  note r = reach_step [OF r this]
  have "step (?s3\<lparr>p_pc := P_Write 9 1 2\<rparr>) reading_one"
    using push_write [of "?s3\<lparr>p_pc := P_Write 9 1 2\<rparr>" 9 1 2] by (simp add: defs)
  then show ?thesis by (rule reach_step [OF r])
qed

text \<open>
  C13. With the two threads interleaved in any way and every store delayed in the
  store buffer of its core for any time, the values the pops have returned are exactly the first
  values of the pushes that returned true, in order: nothing is lost, duplicated,
  reordered or read before it was written; and never more than \<open>Size - 1\<close> values are in flight.
\<close>

theorem spsc_concurrent_fifo:
  assumes "length xs = 2 ^ e" "e < 64" "reachable xs s"
  shows "\<exists>rest. sent s = received s @ rest \<and> length rest \<le> 2 ^ e - 1"
proof -
  obtain c where rel: "machine_rel (2 ^ e) c s" using reachable_rel [OF assms(3,1,2)] by blast
  note M = machine_relD [OF rel]
  have "sent s = received s @ drop (k_h c) (sent s)" using M(6) by simp
  moreover have "length (drop (k_h c) (sent s)) \<le> 2 ^ e - 1" using M(1) by (auto simp: counters_ok_def)
  ultimately show ?thesis by blast
qed

theorem spsc_concurrent_fifo_witness:
  "reachable [0, 0, 0, 0] one_sent \<and> (\<exists>rest. sent one_sent = received one_sent @ rest \<and> length rest \<le> 3)"
  using spsc_concurrent_fifo [of "[0, 0, 0, 0 :: nat]" 2 one_sent] one_sent_reachable by auto

text \<open>
  C28. No slot is written while it is read: whenever the next store to leave the
  producer's buffer is to a slot, that slot exists, and it is not the slot the consumer is
  about to read, so a push never overwrites a value that a pop has still to take.
\<close>

theorem spsc_no_slot_conflict:
  assumes "length xs = 2 ^ e" "e < 64" "reachable xs s" "p_buf s = Write_data i x # ws"
  shows "unat i < length (m_data s) \<and> (\<forall>j k. c_pc s = C_Read j k \<longrightarrow> unat j < length (m_data s) \<and> j \<noteq> i)"
proof -
  obtain c where rel: "machine_rel (2 ^ e) c s" using reachable_rel [OF assms(3,1,2)] by blast
  note M = machine_relD [OF rel]
  have c: "k_mt c < k_h c + 2 ^ e" "k_h c \<le> k_ct c" "k_ct c \<le> k_mt c" "length (m_data s) = 2 ^ e" "k_d c \<le> 1"
    "k_mt c < k_t c \<or> k_mt c = k_t c"
    using M(1,3) by (auto simp: counters_ok_def slots_ok_def)
  have i: "i = idx (2 ^ e) (k_mt c)"
    using c(6) M(2) assms(4) c(5) unfolding buffers_ok_def issued_def
    by (elim disjE; cases "k_d c"; cases "p_pc s") (auto simp: upt_conv_Cons stores_for_def)
  have "j \<noteq> i \<and> unat j < 2 ^ e" if "c_pc s = C_Read j k" for j k
  proof -
    have j: "j = idx (2 ^ e) (k_h c)" "k_h c < k_mt c" using M(5) that c by auto
    then show ?thesis using i c(1) idx_window_eq [OF assms(2), of "k_h c" "k_mt c"] unat_idx [OF assms(2)] by auto
  qed
  then show ?thesis using i c(4) unat_idx [OF assms(2)] by auto
qed

theorem spsc_no_slot_conflict_witness:
  "reachable [0, 0, 0, 0] reading_one \<and> p_buf reading_one = [Write_data 1 9] \<and> c_pc reading_one = C_Read 0 1 \<and>
   unat (1 :: u64) < length (m_data reading_one) \<and> unat (0 :: u64) < length (m_data reading_one) \<and> (0 :: u64) \<noteq> 1"
proof -
  have "c_pc reading_one = C_Read 0 1" "p_buf reading_one = [Write_data 1 9]" by (simp_all add: reading_one_def)
  then show ?thesis
    using spsc_no_slot_conflict [of "[0, 0, 0, 0 :: nat]" 2 reading_one 1 9 "[]"] reading_one_reachable by simp
qed





end
