(* ===== verification/Posix_Resources.thy ===== *)
theory Posix_Resources
  imports Mdb_Prelude "HOL-Library.Multiset"
begin

text \<open>
  The operating system as the program sees it: the open file descriptors and the mapped
  addresses of the process, and the calls that change them. What the kernel answers is a
  parameter, a sequence of replies, one for each call that can fail; so a theorem over all replies
  covers every way in which the calls can fail. The classes that own such resources share one
  interface, stated here as a locale: what construction acquires, destruction releases, and a
  constructor that throws leaves nothing behind.
\<close>

section \<open>The calls\<close>

text \<open>The definitions of the calls, for proofs that compute with a concrete kernel.\<close>

named_theorems kernel_calls

datatype reply = Ret nat | Err nat

record kernel =
  fds :: "int list"
  mapped :: "nat set"
  addrinfos :: nat
  errno :: nat
  replies :: "nat \<Rightarrow> reply"
  calls :: nat

definition EINTR :: nat where "EINTR = 4"

definition EAGAIN :: nat where "EAGAIN = 11"

definition reply :: "kernel \<Rightarrow> reply \<times> kernel" where
  [kernel_calls]: "reply k = (replies k (calls k), k\<lparr>calls := Suc (calls k)\<rparr>)"

text \<open>
  \<open>open\<close>, \<open>socket\<close>, \<open>accept\<close>, \<open>memfd_create\<close>, \<open>epoll_create1\<close> and \<open>perf_event_open\<close>: a descriptor, or -1
  with \<open>errno\<close> set.
\<close>

definition sys_fd :: "kernel \<Rightarrow> int \<times> kernel" where
  [kernel_calls]: "sys_fd k = (case reply k of
     (Ret v, k) \<Rightarrow> (int v, k\<lparr>fds := int v # fds k\<rparr>)
   | (Err e, k) \<Rightarrow> (- 1, k\<lparr>errno := e\<rparr>))"

definition sys_close :: "int \<Rightarrow> kernel \<Rightarrow> kernel" where
  [kernel_calls]: "sys_close fd k = k\<lparr>fds := remove1 fd (fds k)\<rparr>"

text \<open>Calls that acquire nothing: true when they succeed.\<close>

definition sys_ok :: "kernel \<Rightarrow> bool \<times> kernel" where
  [kernel_calls]: "sys_ok k = (case reply k of (Ret v, k) \<Rightarrow> (True, k) | (Err e, k) \<Rightarrow> (False, k\<lparr>errno := e\<rparr>))"

text \<open>
  \<open>mmap\<close> of \<open>len\<close> bytes at an address of the kernel's choice, never the null pointer and never over an
  area that is mapped already; \<open>None\<close> is \<^verbatim>\<open>MAP_FAILED\<close>, which is also the answer to length 0.
\<close>

definition sys_mmap :: "nat \<Rightarrow> kernel \<Rightarrow> nat option \<times> kernel" where
  [kernel_calls]: "sys_mmap len k = (case reply k of
     (Ret v, k) \<Rightarrow>
       (if len \<noteq> 0 \<and> mapped k \<inter> {Suc v..<Suc v + len} = {} then (Some (Suc v), k\<lparr>mapped := mapped k \<union> {Suc v..<Suc v + len}\<rparr>)
        else (None, k))
   | (Err e, k) \<Rightarrow> (None, k\<lparr>errno := e\<rparr>))"

text \<open>\<open>mmap\<close> with \<^verbatim>\<open>MAP_FIXED\<close> replaces what was mapped in the area.\<close>

definition sys_mmap_fixed :: "nat \<Rightarrow> nat \<Rightarrow> kernel \<Rightarrow> nat option \<times> kernel" where
  [kernel_calls]: "sys_mmap_fixed addr len k = (case reply k of
     (Ret v, k) \<Rightarrow> (Some addr, k\<lparr>mapped := mapped k \<union> {addr..<addr + len}\<rparr>)
   | (Err e, k) \<Rightarrow> (None, k\<lparr>errno := e\<rparr>))"

definition sys_munmap :: "nat \<Rightarrow> nat \<Rightarrow> kernel \<Rightarrow> kernel" where
  "sys_munmap addr len k = k\<lparr>mapped := mapped k - {addr..<addr + len}\<rparr>"

definition same_resources :: "kernel \<Rightarrow> kernel \<Rightarrow> bool" where
  "same_resources k k' \<longleftrightarrow> mset (fds k') = mset (fds k) \<and> mapped k' = mapped k \<and> addrinfos k' = addrinfos k"

lemma same_resources_refl [simp]: "same_resources k k"
  by (simp add: same_resources_def)

lemma same_resources_trans: "same_resources k k' \<Longrightarrow> same_resources k' k'' \<Longrightarrow> same_resources k k''"
  by (simp add: same_resources_def)

text \<open>What each call does to the resources.\<close>

lemma sys_ok_effect: "sys_ok k = (b, k') \<Longrightarrow> fds k' = fds k \<and> mapped k' = mapped k \<and> addrinfos k' = addrinfos k"
  by (auto simp: sys_ok_def reply_def split: reply.splits)

lemma sys_fd_effect:
  "sys_fd k = (fd, k') \<Longrightarrow> mapped k' = mapped k \<and> addrinfos k' = addrinfos k \<and>
     (fd = - 1 \<and> fds k' = fds k \<or> 0 \<le> fd \<and> fds k' = fd # fds k)"
  by (auto simp: sys_fd_def reply_def split: reply.splits)

lemma sys_mmap_effect:
  "sys_mmap len k = (r, k') \<Longrightarrow> fds k' = fds k \<and> addrinfos k' = addrinfos k \<and>
     (case r of None \<Rightarrow> mapped k' = mapped k
      | Some a \<Rightarrow> a \<noteq> 0 \<and> mapped k \<inter> {a..<a + len} = {} \<and> mapped k' = mapped k \<union> {a..<a + len})"
  by (auto simp: sys_mmap_def reply_def split: reply.splits if_splits)

lemma sys_mmap_fixed_effect:
  "sys_mmap_fixed a len k = (r, k') \<Longrightarrow> fds k' = fds k \<and> addrinfos k' = addrinfos k \<and>
     (r = None \<and> mapped k' = mapped k \<or> r = Some a \<and> mapped k' = mapped k \<union> {a..<a + len})"
  by (auto simp: sys_mmap_fixed_def reply_def split: reply.splits)

lemma sys_close_effect [simp]:
  "mset (fds (sys_close fd k)) = mset (fds k) - {#fd#}" "mapped (sys_close fd k) = mapped k"
  "addrinfos (sys_close fd k) = addrinfos k"
  by (simp_all add: sys_close_def)

lemma sys_munmap_effect [simp]:
  "fds (sys_munmap a len k) = fds k" "mapped (sys_munmap a len k) = mapped k - {a..<a + len}"
  "addrinfos (sys_munmap a len k) = addrinfos k"
  by (simp_all add: sys_munmap_def)

section \<open>Owners of resources\<close>

locale resource_owner =
  fixes create :: "kernel \<Rightarrow> (error + 'o) \<times> kernel"
    and destroy :: "'o \<Rightarrow> kernel \<Rightarrow> kernel"
    and own_fds :: "'o \<Rightarrow> int multiset"
    and own_maps :: "'o \<Rightarrow> nat set"
  assumes create_ok: "create k = (Inr x, k') \<Longrightarrow>
      mset (fds k') = own_fds x + mset (fds k) \<and> mapped k' = own_maps x \<union> mapped k \<and>
      own_maps x \<inter> mapped k = {} \<and> addrinfos k' = addrinfos k"
    and create_fail: "create k = (Inl e, k') \<Longrightarrow> same_resources k k'"
    and destroy_ok: "own_fds x \<subseteq># mset (fds k) \<Longrightarrow>
      mset (fds (destroy x k)) = mset (fds k) - own_fds x \<and> mapped (destroy x k) = mapped k - own_maps x \<and>
      addrinfos (destroy x k) = addrinfos k"
begin

text \<open>
  A vector of such objects: \<open>n\<close> are constructed in turn; when one constructor throws, the objects
  already constructed are destroyed, last first, before the exception goes on.
\<close>

fun create_all :: "nat \<Rightarrow> 'o list \<Rightarrow> kernel \<Rightarrow> (error + 'o list) \<times> kernel" where
  "create_all 0 xs k = (Inr xs, k)"
| "create_all (Suc n) xs k = (case create k of
     (Inl e, k) \<Rightarrow> (Inl e, fold destroy xs k)
   | (Inr x, k) \<Rightarrow> create_all n (x # xs) k)"

fun owned_since :: "kernel \<Rightarrow> 'o list \<Rightarrow> kernel \<Rightarrow> bool" where
  "owned_since k0 [] k \<longleftrightarrow> same_resources k0 k"
| "owned_since k0 (x # xs) k \<longleftrightarrow> (\<exists>k1. owned_since k0 xs k1 \<and>
     mset (fds k) = own_fds x + mset (fds k1) \<and> mapped k = own_maps x \<union> mapped k1 \<and>
     own_maps x \<inter> mapped k1 = {} \<and> addrinfos k = addrinfos k1)"

lemma owned_since_same:
  "owned_since k0 xs k \<Longrightarrow> same_resources k k' \<Longrightarrow> owned_since k0 xs k'"
  by (cases xs) (auto simp: same_resources_def)

lemma destroy_all: "owned_since k0 xs k \<Longrightarrow> same_resources k0 (fold destroy xs k)"
proof (induction xs arbitrary: k)
  case (Cons x xs)
  then obtain k1 where k1: "owned_since k0 xs k1" "mset (fds k) = own_fds x + mset (fds k1)"
    "mapped k = own_maps x \<union> mapped k1" "own_maps x \<inter> mapped k1 = {}" "addrinfos k = addrinfos k1"
    by auto
  have "same_resources k1 (destroy x k)"
    using destroy_ok [of x k] k1 by (auto simp: same_resources_def)
  then show ?case using Cons.IH owned_since_same [OF k1(1)] by simp
qed simp

lemma create_all_owned:
  "owned_since k0 xs k \<Longrightarrow> create_all n xs k = (r, k') \<Longrightarrow>
     (case r of Inl e \<Rightarrow> same_resources k0 k' | Inr ys \<Rightarrow> owned_since k0 ys k')"
proof (induction n arbitrary: xs k)
  case (Suc n)
  obtain r1 k1 where c: "create k = (r1, k1)" by fastforce
  show ?case
  proof (cases r1)
    case (Inl e)
    then have "owned_since k0 xs k1" using owned_since_same [OF Suc.prems(1) create_fail] c by simp
    then show ?thesis using Suc.prems(2) c Inl destroy_all by auto
  next
    case (Inr x)
    then have "owned_since k0 (x # xs) k1"
      using create_ok [of k x k1] c Suc.prems(1) by auto
    from Suc.IH [OF this] show ?thesis using Suc.prems(2) c Inr by simp
  qed
qed auto

text \<open>Constructing any number of objects and destroying them leaves the resources as they were.\<close>

lemma no_leak:
  assumes "create_all n [] k = (r, k')"
  shows "(case r of Inl e \<Rightarrow> same_resources k k' | Inr xs \<Rightarrow> same_resources k (fold destroy xs k'))"
  using create_all_owned [of k "[]" k n r k'] assms by (auto split: sum.splits intro: destroy_all)

end

text \<open>Owners that can be moved: the resources change hands, and none is released twice or lost.\<close>

locale movable_owner = resource_owner create destroy own_fds own_maps
  for create :: "kernel \<Rightarrow> (error + 'o) \<times> kernel"
    and destroy :: "'o \<Rightarrow> kernel \<Rightarrow> kernel"
    and own_fds :: "'o \<Rightarrow> int multiset"
    and own_maps :: "'o \<Rightarrow> nat set" +
  fixes move :: "'o \<Rightarrow> 'o \<times> 'o"
    and assign :: "'o \<Rightarrow> 'o \<Rightarrow> kernel \<Rightarrow> 'o \<times> 'o \<times> kernel"
  assumes move_ok: "move x = (y, x') \<Longrightarrow> own_fds y = own_fds x \<and> own_maps y = own_maps x \<and>
      own_fds x' = {#} \<and> own_maps x' = {}"
    and assign_ok: "own_fds x \<subseteq># mset (fds k) \<Longrightarrow> assign x y k = (x', y', k') \<Longrightarrow>
      same_resources (destroy x k) k' \<and> own_fds x' = own_fds y \<and> own_maps x' = own_maps y \<and>
      own_fds y' = {#} \<and> own_maps y' = {}"
begin

text \<open>
  A moved-from object and its successor may both be destroyed: together they release what the
  object owned, once.
\<close>

lemma destroy_moved:
  assumes "own_fds x \<subseteq># mset (fds k)" "move x = (y, x')"
  shows "same_resources (destroy x k) (destroy y (destroy x' k))"
  using move_ok [OF assms(2)] assms(1) destroy_ok [of x' k] destroy_ok [of y "destroy x' k"] destroy_ok [of x k]
  by (auto simp: same_resources_def)

lemma destroy_assigned:
  assumes "own_fds x + own_fds y \<subseteq># mset (fds k)" "assign x y k = (x', y', k')"
  shows "same_resources (destroy y (destroy x k)) (destroy y' (destroy x' k'))"
proof -
  have x: "own_fds x \<subseteq># mset (fds k)" using assms(1) subset_mset.order_trans [OF mset_subset_eq_add_left] by blast
  note a = assign_ok [OF x assms(2)]
  note dx = destroy_ok [OF x]
  have y: "own_fds y \<subseteq># mset (fds (destroy x k))"
    using assms(1) dx by (metis add_diff_cancel_left' mset_subset_eq_mono_add_left_cancel subset_mset.add_diff_inverse x)
  note dy = destroy_ok [OF y]
  have "own_fds x' \<subseteq># mset (fds k')" using a y by (simp add: same_resources_def)
  note dx' = destroy_ok [OF this]
  have "own_fds y' \<subseteq># mset (fds (destroy x' k'))" using a by simp
  note dy' = destroy_ok [OF this]
  show ?thesis using a dx dy dx' dy' by (simp add: same_resources_def)
qed

end

end
