(* ===== verification/TCP_Socket.thy ===== *)
theory TCP_Socket
  imports Posix_Resources
begin

text \<open>
  \<^verbatim>\<open>src/network/TCPSocket.h\<close>: a socket that closes itself. The addresses that \<^verbatim>\<open>getaddrinfo\<close> allocates
  are resources too, counted by the kernel model.
\<close>

section \<open>The code\<close>

record TCPSocket =
  socket_fd :: int

text \<open>\<open>getaddrinfo\<close> allocates a list that \<open>freeaddrinfo\<close> releases; a failure leaves \<open>errno\<close> alone.\<close>

definition sys_getaddrinfo :: "kernel \<Rightarrow> bool \<times> kernel" where
  [kernel_calls]: "sys_getaddrinfo k = (case reply k of
     (Ret v, k) \<Rightarrow> (True, k\<lparr>addrinfos := Suc (addrinfos k)\<rparr>)
   | (Err e, k) \<Rightarrow> (False, k))"

definition sys_freeaddrinfo :: "kernel \<Rightarrow> kernel" where
  "sys_freeaddrinfo k = k\<lparr>addrinfos := addrinfos k - 1\<rparr>"

definition TCPSocket :: "kernel \<Rightarrow> (error + TCPSocket) \<times> kernel" where
  "TCPSocket k =
     (let (ok, k) = sys_getaddrinfo k in
      if \<not> ok then (Inl (Runtime_error ''TCPSocket(): Unable to obtain address info''), k) else
      let (fd, k) = sys_fd k in
      if fd = - 1 then (Inl (Runtime_error ''TCPSocket(): Unable to create a socket file descriptor''), sys_freeaddrinfo k) else
      let (ok, k) = sys_ok k in
      if \<not> ok then (Inl (Runtime_error ''TCPSocket(): Unable to set SO_REUSEADDR''), sys_freeaddrinfo (sys_close fd k)) else
      let (ok, k) = sys_ok k in
      if \<not> ok then (Inl (Runtime_error ''TCPSocket(): Unable to bind socket''), sys_freeaddrinfo (sys_close fd k)) else
      (Inr \<lparr>socket_fd = fd\<rparr>, sys_freeaddrinfo k))"

definition TCPSocket_destroy :: "TCPSocket \<Rightarrow> kernel \<Rightarrow> kernel" where
  "TCPSocket_destroy s k = (if socket_fd s \<noteq> - 1 then sys_close (socket_fd s) k else k)"

definition TCPSocket_move :: "TCPSocket \<Rightarrow> TCPSocket \<times> TCPSocket" where
  "TCPSocket_move other = (\<lparr>socket_fd = socket_fd other\<rparr>, other\<lparr>socket_fd := - 1\<rparr>)"

text \<open>The move assignment from another object.\<close>

definition TCPSocket_assign :: "TCPSocket \<Rightarrow> TCPSocket \<Rightarrow> kernel \<Rightarrow> TCPSocket \<times> TCPSocket \<times> kernel" where
  "TCPSocket_assign this other k =
     (let k = (if socket_fd this \<noteq> - 1 then sys_close (socket_fd this) k else k)
      in (this\<lparr>socket_fd := socket_fd other\<rparr>, other\<lparr>socket_fd := - 1\<rparr>, k))"

definition tcp_listen :: "TCPSocket \<Rightarrow> kernel \<Rightarrow> (error + unit) \<times> kernel" where
  "tcp_listen s k =
     (let (ok, k) = sys_ok k in
      (if ok then Inr () else Inl (Runtime_error ''TCPSocket::listen(): Unable to listen on socket.''), k))"

definition tcp_accept :: "TCPSocket \<Rightarrow> kernel \<Rightarrow> (error + int) \<times> kernel" where
  "tcp_accept s k =
     (let (rc, k) = sys_fd k in
      if rc = - 1 then
        (if errno k = EAGAIN then Inr (- 1)
         else Inl (Runtime_error ''TCPSocket::accept(): Unable to accept a connection on socket.''), k)
      else (Inr rc, k))"

definition tcp_connect :: "TCPSocket \<Rightarrow> kernel \<Rightarrow> (error + int) \<times> kernel" where
  "tcp_connect s k =
     (let (ok, k) = sys_getaddrinfo k in
      if \<not> ok then (Inl (Runtime_error ''TCPSocket::connect(): Unable to get address information''), k) else
      let (ok, k) = sys_ok k in
      (Inr (if ok then 0 else - 1), k))"

definition set_non_blocking :: "TCPSocket \<Rightarrow> kernel \<Rightarrow> (error + unit) \<times> kernel" where
  "set_non_blocking s k =
     (let (ok, k) = sys_ok k in
      if \<not> ok then (Inl (Runtime_error ''TCPSocket::set_non_blocking(): Unable to get the flags of the socket''), k) else
      let (ok, k) = sys_ok k in
      if \<not> ok then (Inl (Runtime_error ''TCPSocket::set_non_blocking(): Unable to set socket to be non blocking.''), k) else
      (Inr (), k))"

definition set_no_delay :: "TCPSocket \<Rightarrow> kernel \<Rightarrow> (error + unit) \<times> kernel" where
  "set_no_delay s k =
     (let (ok, k) = sys_ok k in
      (if ok then Inr () else Inl (Runtime_error ''TCPSocket::set_no_delay(): Unable to set TCP_NODELAY''), k))"

definition set_quick_ack :: "TCPSocket \<Rightarrow> kernel \<Rightarrow> (error + unit) \<times> kernel" where
  "set_quick_ack s k =
     (let (ok, k) = sys_ok k in
      (if ok then Inr () else Inl (Runtime_error ''TCPSocket::set_quick_ack(): Unable to set TCP_QUICKACK''), k))"

section \<open>Ownership\<close>

lemma sys_getaddrinfo_effect:
  "sys_getaddrinfo k = (ok, k') \<Longrightarrow> fds k' = fds k \<and> mapped k' = mapped k \<and>
     addrinfos k' = (if ok then Suc (addrinfos k) else addrinfos k)"
  by (auto simp: sys_getaddrinfo_def reply_def split: reply.splits)

lemma sys_freeaddrinfo_effect [simp]:
  "fds (sys_freeaddrinfo k) = fds k" "mapped (sys_freeaddrinfo k) = mapped k"
  "addrinfos (sys_freeaddrinfo k) = addrinfos k - 1"
  by (simp_all add: sys_freeaddrinfo_def)

definition tcp_own_fds :: "TCPSocket \<Rightarrow> int multiset" where
  "tcp_own_fds s = (if socket_fd s = - 1 then {#} else {#socket_fd s#})"

lemma TCPSocket_effect:
  assumes "TCPSocket k = (r, k')"
  shows "mapped k' = mapped k \<and> addrinfos k' = addrinfos k \<and>
    (case r of Inl e \<Rightarrow> mset (fds k') = mset (fds k) | Inr s \<Rightarrow> 0 \<le> socket_fd s \<and> mset (fds k') = tcp_own_fds s + mset (fds k))"
  using assms unfolding TCPSocket_def
  by (auto simp: Let_def tcp_own_fds_def split: if_splits prod.splits
      dest!: sys_getaddrinfo_effect sys_fd_effect sys_ok_effect)

interpretation socket: movable_owner TCPSocket TCPSocket_destroy tcp_own_fds "\<lambda>s. {}" TCPSocket_move TCPSocket_assign
proof
  fix s k s' k'
  assume "TCPSocket k = (Inr s, k')"
  then show "mset (fds k') = tcp_own_fds s + mset (fds k) \<and> mapped k' = {} \<union> mapped k \<and> {} \<inter> mapped k = {} \<and>
      addrinfos k' = addrinfos k"
    using TCPSocket_effect by fastforce
next
  fix k e k'
  assume "TCPSocket k = (Inl e, k')"
  then show "same_resources k k'" using TCPSocket_effect by (fastforce simp: same_resources_def)
qed (auto simp: TCPSocket_destroy_def TCPSocket_move_def TCPSocket_assign_def tcp_own_fds_def same_resources_def Let_def
  split: if_splits)

lemma set_options_effect:
  "set_non_blocking s k = (r, k') \<Longrightarrow> same_resources k k'" "set_no_delay s k = (r, k') \<Longrightarrow> same_resources k k'"
  "set_quick_ack s k = (r, k') \<Longrightarrow> same_resources k k'" "tcp_listen s k = (r', k') \<Longrightarrow> same_resources k k'"
  by (auto simp: set_non_blocking_def set_no_delay_def set_quick_ack_def tcp_listen_def same_resources_def Let_def
      split: if_splits prod.splits dest!: sys_ok_effect)

lemma tcp_accept_effect:
  "tcp_accept s k = (r, k') \<Longrightarrow> mapped k' = mapped k \<and> addrinfos k' = addrinfos k \<and>
     (case r of Inr fd \<Rightarrow> if fd = - 1 then fds k' = fds k else 0 \<le> fd \<and> fds k' = fd # fds k | Inl e \<Rightarrow> fds k' = fds k)"
  by (auto simp: tcp_accept_def Let_def split: if_splits prod.splits dest!: sys_fd_effect)

text \<open>\<open>connect\<close> never frees the list of addresses that it asked for.\<close>

lemma tcp_connect_effect:
  "tcp_connect s k = (r, k') \<Longrightarrow> fds k' = fds k \<and> mapped k' = mapped k \<and>
     addrinfos k' = (case r of Inl e \<Rightarrow> addrinfos k | Inr rc \<Rightarrow> Suc (addrinfos k))"
  by (auto simp: tcp_connect_def Let_def split: if_splits prod.splits dest!: sys_ok_effect sys_getaddrinfo_effect)

end
