(* ===== verification/Byte_Codec.thy ===== *)
theory Byte_Codec
  imports Mdb_Prelude
begin

text \<open>
  Bytes in memory and on the wire: loads and stores of little-endian integers at an offset of a
  byte array, the byte-swapping builtins the parser uses, and big-endian integers as the feed
  sends them.
\<close>

section \<open>Loads, stores and byte swaps\<close>

fun le_nat :: "u8 list \<Rightarrow> nat" where
  "le_nat [] = 0"
| "le_nat (b # bs) = unat b + 256 * le_nat bs"

fun le_bytes :: "nat \<Rightarrow> nat \<Rightarrow> u8 list" where
  "le_bytes 0 n = []"
| "le_bytes (Suc k) n = of_nat (n mod 256) # le_bytes k (n div 256)"

definition be_bytes :: "nat \<Rightarrow> nat \<Rightarrow> u8 list" where
  "be_bytes k n = rev (le_bytes k n)"

text \<open>A read or a write of bytes at an offset; \<open>None\<close> when it leaves the memory area.\<close>

definition mem_read :: "u8 list \<Rightarrow> nat \<Rightarrow> nat \<Rightarrow> u8 list option" where
  "mem_read mem off n = (if off + n \<le> length mem then Some (take n (drop off mem)) else None)"

definition mem_write :: "u8 list \<Rightarrow> nat \<Rightarrow> u8 list \<Rightarrow> u8 list option" where
  "mem_write mem off bs =
     (if off + length bs \<le> length mem then Some (take off mem @ bs @ drop (off + length bs) mem) else None)"

text \<open>Loads of little-endian integers, and the store of one of \<open>k\<close> bytes.\<close>

definition load8 :: "u8 list \<Rightarrow> nat \<Rightarrow> u8 option" where
  "load8 mem off = do { bs \<leftarrow> mem_read mem off 1; Some (hd bs) }"

definition load16 :: "u8 list \<Rightarrow> nat \<Rightarrow> u16 option" where
  "load16 mem off = do { bs \<leftarrow> mem_read mem off 2; Some (of_nat (le_nat bs)) }"

definition load64 :: "u8 list \<Rightarrow> nat \<Rightarrow> u64 option" where
  "load64 mem off = do { bs \<leftarrow> mem_read mem off 8; Some (of_nat (le_nat bs)) }"

definition load32 :: "u8 list \<Rightarrow> nat \<Rightarrow> u32 option" where
  "load32 mem off = do { bs \<leftarrow> mem_read mem off 4; Some (of_nat (le_nat bs)) }"

definition store_le :: "u8 list \<Rightarrow> nat \<Rightarrow> nat \<Rightarrow> nat \<Rightarrow> u8 list option" where
  "store_le mem off k n = mem_write mem off (le_bytes k n)"

text \<open>\<^verbatim>\<open>__builtin_bswap16\<close>, \<^verbatim>\<open>__builtin_bswap32\<close> and \<^verbatim>\<open>__builtin_bswap64\<close>.\<close>

definition bswap16 :: "u16 \<Rightarrow> u16" where
  "bswap16 w = of_nat (le_nat (rev (le_bytes 2 (unat w))))"

definition bswap32 :: "u32 \<Rightarrow> u32" where
  "bswap32 w = of_nat (le_nat (rev (le_bytes 4 (unat w))))"

definition bswap64 :: "u64 \<Rightarrow> u64" where
  "bswap64 w = of_nat (le_nat (rev (le_bytes 8 (unat w))))"

section \<open>Round trips\<close>

lemma length_le_bytes [simp]: "length (le_bytes k n) = k"
  by (induction k n rule: le_bytes.induct) simp_all

lemma length_be_bytes [simp]: "length (be_bytes k n) = k"
  by (simp add: be_bytes_def)

lemma le_nat_bound: "le_nat bs < 256 ^ length bs"
proof (induction bs)
  case (Cons b bs)
  have "unat b < 256" using unsigned_less [of b] by simp
  then show ?case using Cons by simp
qed simp

lemma le_nat_le_bytes: "le_nat (le_bytes k n) = n mod 256 ^ k"
proof (induction k n rule: le_bytes.induct)
  case (2 k n)
  have "unat (of_nat (n mod 256) :: u8) = n mod 256" by (simp add: unat_of_nat take_bit_nat_eq_self)
  then show ?case using 2 by (simp add: mod_mult2_eq)
qed simp

lemma le_bytes_le_nat: "le_bytes (length bs) (le_nat bs) = bs"
proof (induction bs)
  case (Cons b bs)
  have "unat b < 256" using unsigned_less [of b] by simp
  then show ?case using Cons by simp
qed simp

lemma le_nat_append: "le_nat (xs @ ys) = le_nat xs + 256 ^ length xs * le_nat ys"
  by (induction xs) (simp_all add: algebra_simps)

lemma le_nat_zeros: "le_nat (replicate n 0) = 0"
  by (induction n) simp_all

lemma le_nat_rev_be: "le_nat (rev (be_bytes k n)) = n mod 256 ^ k"
  by (simp add: be_bytes_def le_nat_le_bytes)

text \<open>Loading little-endian and swapping reads a big-endian field.\<close>

lemma unat_of_le_nat:
  "length bs = 2 \<Longrightarrow> unat (of_nat (le_nat bs) :: u16) = le_nat bs"
  "length bs = 4 \<Longrightarrow> unat (of_nat (le_nat bs) :: u32) = le_nat bs"
  "length bs = 8 \<Longrightarrow> unat (of_nat (le_nat bs) :: u64) = le_nat bs"
  using le_nat_bound [of bs] by (simp_all add: unat_of_nat take_bit_nat_eq_self)

lemma bswap_load:
  "length bs = 2 \<Longrightarrow> bswap16 (of_nat (le_nat bs)) = of_nat (le_nat (rev bs))"
  "length bs = 4 \<Longrightarrow> bswap32 (of_nat (le_nat bs)) = of_nat (le_nat (rev bs))"
  "length bs = 8 \<Longrightarrow> bswap64 (of_nat (le_nat bs)) = of_nat (le_nat (rev bs))"
  using le_bytes_le_nat [of bs]
  by (simp_all add: bswap16_def bswap32_def bswap64_def unat_of_le_nat)

lemma bswap_be_field:
  "bswap16 (of_nat (le_nat (be_bytes 2 (unat (v :: u16))))) = v"
  "bswap32 (of_nat (le_nat (be_bytes 4 (unat (w :: u32))))) = w"
  "bswap64 (of_nat (le_nat (be_bytes 8 (unat (x :: u64))))) = x"
proof -
  have "unat v < 256 ^ 2" "unat w < 256 ^ 4" "unat x < 256 ^ 8"
    using unsigned_less [of v] unsigned_less [of w] unsigned_less [of x] by simp_all
  then show "bswap16 (of_nat (le_nat (be_bytes 2 (unat v)))) = v"
    "bswap32 (of_nat (le_nat (be_bytes 4 (unat w)))) = w"
    "bswap64 (of_nat (le_nat (be_bytes 8 (unat x)))) = x"
    by (simp_all add: bswap_load le_nat_rev_be)
qed

text \<open>The six-byte time stamp: loaded into the low bytes, swapped and shifted down.\<close>

lemma bswap_timestamp:
  assumes "length bs = 6"
  shows "drop_bit 16 (bswap64 (of_nat (le_nat bs))) = of_nat (le_nat (rev bs))"
proof -
  let ?b8 = "bs @ replicate 2 0"
  have b8: "length ?b8 = 8" "le_nat ?b8 = le_nat bs" using assms by (simp_all add: le_nat_append le_nat_zeros)
  have "le_nat (rev ?b8) = 65536 * le_nat (rev bs)" by (simp add: le_nat_append numeral_2_eq_2)
  then have "bswap64 (of_nat (le_nat bs)) = of_nat (65536 * le_nat (rev bs))"
    using bswap_load(3) [OF b8(1)] b8(2) by (simp only:)
  moreover have "65536 * le_nat (rev bs) < 2 ^ 64" using le_nat_bound [of "rev bs"] assms by simp
  ultimately have "unat (bswap64 (of_nat (le_nat bs))) = 65536 * le_nat (rev bs)"
    by (simp only: unat_of_nat take_bit_nat_eq_self)
      (simp add: take_bit_nat_eq_self)
  then have "unat (drop_bit 16 (bswap64 (of_nat (le_nat bs)))) = le_nat (rev bs)"
    by (simp add: drop_bit_eq_div unat_div)
  then show ?thesis by (metis of_nat_unat ucast_id)
qed

section \<open>Reading back what was written\<close>

lemma mem_read_length: "mem_read mem off n = Some bs \<Longrightarrow> length bs = n"
  by (auto simp: mem_read_def split: if_splits)

lemma mem_write_length: "mem_write mem off bs = Some mem' \<Longrightarrow> length mem' = length mem"
  by (auto simp: mem_write_def split: if_splits)

lemma mem_write_nth:
  assumes "mem_write mem off bs = Some mem'" "i < length mem"
  shows "mem' ! i = (if off \<le> i \<and> i < off + length bs then bs ! (i - off) else mem ! i)"
  using assms by (auto simp: mem_write_def nth_append split: if_splits)

lemma mem_read_append: "mem_read (xs @ ys @ zs) (length xs) (length ys) = Some ys"
  by (simp add: mem_read_def)

lemma mem_read_within:
  "off + n \<le> length xs \<Longrightarrow> mem_read (xs @ ys) off n = mem_read xs off n"
  by (simp add: mem_read_def)

lemma mem_read_shift: "mem_read (xs @ ys) (length xs + off) n = mem_read ys off n"
  by (simp add: mem_read_def)

end
