(* ===== verification/Ouch_Client.thy ===== *)
theory Ouch_Client
  imports TCP_Socket Byte_Codec
begin

text \<open>
  \<^verbatim>\<open>src/network/OuchClient.h\<close> and \<^verbatim>\<open>src/protocol/OuchOrderTypes.h\<close>: orders are sent over a non-blocking
  socket. A packet that the kernel takes only in part stays where it is, in the pool of the caller, and the client
  keeps a pointer to the rest; so the memory is part of the model, and so is the stream of bytes that the kernel has accepted.
\<close>

section \<open>Order layouts\<close>

record EnterOrder =
  eo_type :: u8
  eo_user_ref_num :: u32
  eo_side :: u8
  eo_quantity :: u32
  eo_symbol :: u64
  eo_price :: u64
  eo_time_in_force :: u8
  eo_display :: u8
  eo_capacity :: u8
  eo_intermarket_sweep_eligibility :: u8
  eo_cross_type :: u8
  eo_cust_order_id :: "u8 list"
  eo_appendage_len :: u16

record FramedEnterOrder =
  fo_soup_length :: u16
  fo_soup_type :: u8
  fo_type :: u8
  fo_user_ref_num :: u32
  fo_side :: u8
  fo_quantity :: u32
  fo_symbol :: u64
  fo_price :: u64
  fo_time_in_force :: u8
  fo_display :: u8
  fo_capacity :: u8
  fo_intermarket_sweep_eligibility :: u8
  fo_cross_type :: u8
  fo_cust_order_id :: "u8 list"
  fo_appendage_len :: u16

text \<open>The packed structures in memory; the array \<open>cust_order_id\<close> has 14 elements.\<close>

definition enter_order_bytes :: "EnterOrder \<Rightarrow> u8 list" where
  "enter_order_bytes e =
     [eo_type e] @ le_bytes 4 (unat (eo_user_ref_num e)) @ [eo_side e] @ le_bytes 4 (unat (eo_quantity e)) @
     le_bytes 8 (unat (eo_symbol e)) @ le_bytes 8 (unat (eo_price e)) @
     [eo_time_in_force e, eo_display e, eo_capacity e, eo_intermarket_sweep_eligibility e, eo_cross_type e] @
     eo_cust_order_id e @ le_bytes 2 (unat (eo_appendage_len e))"

definition framed_order_bytes :: "FramedEnterOrder \<Rightarrow> u8 list" where
  "framed_order_bytes e =
     le_bytes 2 (unat (fo_soup_length e)) @ [fo_soup_type e] @
     [fo_type e] @ le_bytes 4 (unat (fo_user_ref_num e)) @ [fo_side e] @ le_bytes 4 (unat (fo_quantity e)) @
     le_bytes 8 (unat (fo_symbol e)) @ le_bytes 8 (unat (fo_price e)) @
     [fo_time_in_force e, fo_display e, fo_capacity e, fo_intermarket_sweep_eligibility e, fo_cross_type e] @
     fo_cust_order_id e @ le_bytes 2 (unat (fo_appendage_len e))"

definition unframed :: "FramedEnterOrder \<Rightarrow> EnterOrder" where
  "unframed e = \<lparr>eo_type = fo_type e, eo_user_ref_num = fo_user_ref_num e, eo_side = fo_side e, eo_quantity = fo_quantity e,
     eo_symbol = fo_symbol e, eo_price = fo_price e, eo_time_in_force = fo_time_in_force e, eo_display = fo_display e,
     eo_capacity = fo_capacity e, eo_intermarket_sweep_eligibility = fo_intermarket_sweep_eligibility e,
     eo_cross_type = fo_cross_type e, eo_cust_order_id = fo_cust_order_id e, eo_appendage_len = fo_appendage_len e\<rparr>"

text \<open>The sizes that the \<^verbatim>\<open>static_assert\<close>s state, and the framing: three bytes in front.\<close>

lemma order_sizes:
  "length (eo_cust_order_id e) = 14 \<Longrightarrow> length (enter_order_bytes e) = 47"
  "length (fo_cust_order_id f) = 14 \<Longrightarrow> length (framed_order_bytes f) = 50"
  by (simp_all add: enter_order_bytes_def framed_order_bytes_def)

lemma framed_order_bytes_eq:
  "framed_order_bytes f = le_bytes 2 (unat (fo_soup_length f)) @ [fo_soup_type f] @ enter_order_bytes (unframed f)"
  by (simp add: framed_order_bytes_def enter_order_bytes_def unframed_def)

text \<open>A packet: its length, the payload and the padding up to 64 bytes.\<close>

record OuchPacket =
  op_packet_len :: u64
  op_payload :: FramedEnterOrder

definition ouch_packet_bytes :: "OuchPacket \<Rightarrow> u8 list" where
  "ouch_packet_bytes p = le_bytes 8 (unat (op_packet_len p)) @ framed_order_bytes (op_payload p) @ replicate 6 0"

section \<open>The client\<close>

datatype OuchState = Disconnected | Connecting | Connected | PendingWrite

record OuchClient =
  oc_socket :: TCPSocket
  oc_socket_fd :: int
  oc_state :: OuchState
  oc_pending_buffer :: nat
  oc_pending_bytes :: u64

text \<open>The socket is a member: when the body of the constructor throws, it is destroyed.\<close>

definition OuchClient :: "kernel \<Rightarrow> (error + OuchClient) \<times> kernel" where
  "OuchClient k =
     (case TCPSocket k of
        (Inl e, k) \<Rightarrow> (Inl e, k)
      | (Inr s, k) \<Rightarrow>
          (case set_non_blocking s k of
             (Inl e, k) \<Rightarrow> (Inl e, TCPSocket_destroy s k)
           | (Inr _, k) \<Rightarrow>
               (case set_no_delay s k of
                  (Inl e, k) \<Rightarrow> (Inl e, TCPSocket_destroy s k)
                | (Inr _, k) \<Rightarrow>
                    (Inr \<lparr>oc_socket = s, oc_socket_fd = socket_fd s, oc_state = Disconnected, oc_pending_buffer = 0,
                       oc_pending_bytes = 0\<rparr>, k))))"

definition OuchClient_destroy :: "OuchClient \<Rightarrow> kernel \<Rightarrow> kernel" where
  "OuchClient_destroy c k = TCPSocket_destroy (oc_socket c) k"

definition connect_to_server :: "OuchClient \<Rightarrow> kernel \<Rightarrow> (error + int) \<times> OuchClient \<times> kernel" where
  "connect_to_server c k =
     (let c = c\<lparr>oc_state := Connecting\<rparr>; (r, k) = tcp_connect (oc_socket c) k in (r, c, k))"

text \<open>
  \<open>send\<close> on a stream socket: the kernel takes some prefix of the bytes and returns its length, or
  fails; \<open>wire\<close> is everything taken so far.
\<close>

definition sys_send :: "u8 list \<Rightarrow> u8 list \<Rightarrow> kernel \<Rightarrow> int \<times> u8 list \<times> kernel" where
  "sys_send bs wire k = (case reply k of
     (Ret v, k) \<Rightarrow> (int (min v (length bs)), wire @ take v bs, k)
   | (Err e, k) \<Rightarrow> (- 1, wire, k\<lparr>errno := e\<rparr>))"

definition send_order :: "u8 list \<Rightarrow> nat \<Rightarrow> OuchClient \<Rightarrow> u8 list \<Rightarrow> kernel \<Rightarrow>
    ((error + bool) \<times> OuchClient \<times> u8 list \<times> kernel) option" where
  "send_order mem order c wire k =
     (if oc_state c = PendingWrite then Some (Inr False, c, wire, k) else do {
        packet_len \<leftarrow> load64 mem order;
        bs \<leftarrow> mem_read mem (order + 8) (unat packet_len);
        let (bytes_written, wire, k) = sys_send bs wire k;
        if bytes_written = - 1 \<and> errno k \<noteq> EAGAIN
        then Some (Inl (Runtime_error ''OuchClient::send_order(): Unable to send order to server''), c, wire, k)
        else do {
          let bytes_written = (if bytes_written = - 1 then 0 else bytes_written);
          if (of_int bytes_written :: u64) < packet_len
          then Some (Inr False,
            c\<lparr>oc_state := PendingWrite, oc_pending_buffer := order + 8 + nat bytes_written,
              oc_pending_bytes := packet_len - of_int bytes_written\<rparr>, wire, k)
          else Some (Inr True, c, wire, k) } })"

text \<open>\<open>getsockopt\<close> of \<^verbatim>\<open>SO_ERROR\<close>: the call may fail, or it yields the pending error of the socket, 0 for none.\<close>

definition handle_write :: "u8 list \<Rightarrow> OuchClient \<Rightarrow> u8 list \<Rightarrow> kernel \<Rightarrow>
    ((error + bool) \<times> OuchClient \<times> u8 list \<times> kernel) option" where
  "handle_write mem c wire k =
     (case oc_state c of
        Connecting \<Rightarrow>
          (case reply k of
             (Err e, k) \<Rightarrow> Some (Inl (Runtime_error ''OuchClient::handle_write(): Unable to retrieve socket options''), c, wire, k\<lparr>errno := e\<rparr>)
           | (Ret err, k) \<Rightarrow>
               if err \<noteq> 0
               then Some (Inl (Runtime_error ''OuchClient::handle_write(): Error occured during connection establishment''), c, wire, k)
               else Some (Inr True, c\<lparr>oc_state := Connected\<rparr>, wire, k))
      | PendingWrite \<Rightarrow> do {
          bs \<leftarrow> mem_read mem (oc_pending_buffer c) (unat (oc_pending_bytes c));
          let (bytes_written, wire, k) = sys_send bs wire k;
          if bytes_written = - 1 \<and> errno k \<noteq> EAGAIN
          then Some (Inl (Runtime_error ''OuchClient::handle_write(): Unable to send order to server''), c, wire, k)
          else do {
            let bytes_written = (if bytes_written = - 1 then 0 else bytes_written);
            if (of_int bytes_written :: u64) < oc_pending_bytes c
            then Some (Inr False,
              c\<lparr>oc_pending_buffer := oc_pending_buffer c + nat bytes_written,
                oc_pending_bytes := oc_pending_bytes c - of_int bytes_written\<rparr>, wire, k)
            else Some (Inr True, c\<lparr>oc_state := Connected\<rparr>, wire, k) } }
      | _ \<Rightarrow> Some (Inr True, c, wire, k))"

section \<open>The stream of orders\<close>

lemma mem_read_rest: "mem_read mem off len = Some bs \<Longrightarrow> n \<le> len \<Longrightarrow> mem_read mem (off + n) (len - n) = Some (drop n bs)"
  by (auto simp: mem_read_def drop_take add.commute split: if_splits)

lemma sent_less_iff:
  assumes "n \<le> unat (w :: u64)"
  shows "(of_nat n :: u64) < w \<longleftrightarrow> n < unat w" "unat (w - of_nat n) = unat w - n"
proof -
  have "n < 2 ^ 64" using assms unsigned_less [where w = w and 'a = nat] by simp
  then have u: "unat (of_nat n :: u64) = n" by (simp add: unat_of_nat take_bit_nat_eq_self)
  show "(of_nat n :: u64) < w \<longleftrightarrow> n < unat w" by (simp add: word_less_nat_alt u)
  have "(of_nat n :: u64) \<le> w" using assms by (simp add: word_le_nat_alt u)
  then show "unat (w - of_nat n) = unat w - n" by (simp add: unat_sub u)
qed

text \<open>
  A \<open>send\<close> whose \<open>EAGAIN\<close> counts as 0: either it fails and nothing is sent, or it sends a prefix.
\<close>

lemma sys_send_cases:
  assumes "sys_send bs wire k = (w, wire', k')"
  obtains (fails) "w = - 1" "errno k' \<noteq> EAGAIN" "wire' = wire" "replies k' = replies k" "replies k (calls k) \<noteq> Ret v"
  | (sends) n where "n \<le> length bs" "\<not> (w = - 1 \<and> errno k' \<noteq> EAGAIN)" "(if w = - 1 then 0 else w) = int n" "wire' = wire @ take n bs"
      "replies k' = replies k" "replies k (calls k) = Ret v \<Longrightarrow> n = min v (length bs)"
proof (cases "replies k (calls k)")
  case (Ret u)
  then have "w = int (min u (length bs))" "wire' = wire @ take u bs" "replies k' = replies k" using assms by (auto simp: sys_send_def reply_def)
  then show ?thesis using Ret by (intro sends [of "min u (length bs)"]) (simp_all add: min_def)
next
  case (Err e)
  then have w: "w = - 1" "wire' = wire" "replies k' = replies k" using assms by (auto simp: sys_send_def reply_def)
  show ?thesis
  proof (cases "errno k' = EAGAIN")
    case True
    then show ?thesis using w Err by (intro sends [of 0]) simp_all
  qed (use w Err in \<open>auto intro: fails\<close>)
qed

text \<open>What is left of the packet that is being sent, read from the memory of the caller.\<close>

definition pending_slice :: "u8 list \<Rightarrow> OuchClient \<Rightarrow> u8 list option" where
  "pending_slice mem c =
     (if oc_state c = PendingWrite then mem_read mem (oc_pending_buffer c) (unat (oc_pending_bytes c)) else Some [])"

definition packet_payload :: "u8 list \<Rightarrow> nat \<Rightarrow> u8 list option" where
  "packet_payload mem order = do { len \<leftarrow> load64 mem order; mem_read mem (order + 8) (unat len) }"

lemma send_order_cases:
  assumes "oc_state c \<noteq> PendingWrite" "packet_payload mem order = Some bs"
  obtains (fails) e k' where "send_order mem order c wire k = Some (Inl e, c, wire, k')"
  | (complete) k' where "send_order mem order c wire k = Some (Inr True, c, wire @ bs, k')"
  | (partly) n c' k' where "send_order mem order c wire k = Some (Inr False, c', wire @ take n bs, k')" "n < length bs"
      "oc_state c' = PendingWrite" "pending_slice mem c' = Some (drop n bs)" "unat (oc_pending_bytes c') = length bs - n"
proof -
  obtain len where len: "load64 mem order = Some len" "mem_read mem (order + 8) (unat len) = Some bs"
    using assms(2) by (auto simp: packet_payload_def split: bind_splits)
  have lbs: "length bs = unat len" by (rule mem_read_length [OF len(2)])
  obtain w wire' k' where s: "sys_send bs wire k = (w, wire', k')" by (metis prod_cases3)
  from s show ?thesis
  proof (cases rule: sys_send_cases [where v = 0])
    case fails
    then show ?thesis using that(1) assms(1) len s by (simp add: send_order_def)
  next
    case (sends n)
    note n = sent_less_iff [of n len]
    have w: "(of_int (if w = - 1 then 0 else w) :: u64) = of_nat n" "nat (if w = - 1 then 0 else w) = n"
      unfolding sends(3) by simp_all
    show ?thesis
    proof (cases "n < length bs")
      case True
      define c' where "c' = c\<lparr>oc_state := PendingWrite, oc_pending_buffer := order + 8 + n, oc_pending_bytes := len - of_nat n\<rparr>"
      have "send_order mem order c wire k = Some (Inr False, c', wire @ take n bs, k')"
        using assms(1) len s sends(2,4) w n True lbs by (simp add: send_order_def c'_def)
      moreover have "pending_slice mem c' = Some (drop n bs)"
        using mem_read_rest [OF len(2), of n] True lbs n by (simp add: pending_slice_def c'_def)
      ultimately show ?thesis using that(3) [of c' n k'] True lbs n by (simp add: c'_def)
    next
      case False
      then show ?thesis using that(2) assms(1) len s sends w n lbs by (simp add: send_order_def)
    qed
  qed
qed

lemma handle_write_cases:
  assumes "oc_state c = PendingWrite" "pending_slice mem c = Some bs"
  obtains (fails) e k' where "handle_write mem c wire k = Some (Inl e, c, wire, k')" "replies k (calls k) \<noteq> Ret v"
  | (complete) k' where "handle_write mem c wire k = Some (Inr True, c\<lparr>oc_state := Connected\<rparr>, wire @ bs, k')"
  | (partly) n c' k' where "handle_write mem c wire k = Some (Inr False, c', wire @ take n bs, k')" "n < length bs"
      "oc_state c' = PendingWrite" "pending_slice mem c' = Some (drop n bs)" "unat (oc_pending_bytes c') = length bs - n"
      "replies k' = replies k" "replies k (calls k) = Ret v \<Longrightarrow> n = min v (length bs)"
proof -
  have r: "mem_read mem (oc_pending_buffer c) (unat (oc_pending_bytes c)) = Some bs"
    using assms by (simp add: pending_slice_def)
  have lbs: "length bs = unat (oc_pending_bytes c)" by (rule mem_read_length [OF r])
  obtain w wire' k' where s: "sys_send bs wire k = (w, wire', k')" by (metis prod_cases3)
  from s show ?thesis
  proof (cases rule: sys_send_cases [where v = v])
    case fails
    then show ?thesis using that(1) assms(1) r s by (simp add: handle_write_def)
  next
    case (sends n)
    note n = sent_less_iff [of n "oc_pending_bytes c"]
    have w: "(of_int (if w = - 1 then 0 else w) :: u64) = of_nat n" "nat (if w = - 1 then 0 else w) = n"
      unfolding sends(3) by simp_all
    show ?thesis
    proof (cases "n < length bs")
      case True
      define c' where "c' = c\<lparr>oc_pending_buffer := oc_pending_buffer c + n, oc_pending_bytes := oc_pending_bytes c - of_nat n\<rparr>"
      have "handle_write mem c wire k = Some (Inr False, c', wire @ take n bs, k')"
        using assms(1) r s sends(2,4) w n True lbs by (simp add: handle_write_def c'_def)
      moreover have "pending_slice mem c' = Some (drop n bs)"
        using mem_read_rest [OF r, of n] True lbs n assms(1) by (simp add: pending_slice_def c'_def)
      ultimately show ?thesis using that(3) [of c' n k'] sends(5,6) True lbs n assms(1) by (simp add: c'_def)
    next
      case False
      then show ?thesis using that(2) assms(1) r s sends w n lbs by (simp add: handle_write_def)
    qed
  qed
qed

text \<open>
  The client at work. Its owner sends packets out of its pool, the reactor calls \<open>handle_write\<close>,
  and between the calls the owner may store anything anywhere, except over the part of a
  packet that is still to be sent. \<open>ow_sent\<close> are the payloads of the orders that the client took on: every order
  whose \<open>send_order\<close> did not find a pending write and did not throw.
\<close>

record ouch_world =
  ow_mem :: "u8 list"
  ow_client :: OuchClient
  ow_wire :: "u8 list"
  ow_kernel :: kernel
  ow_sent :: "u8 list list"

inductive ouch_step :: "ouch_world \<Rightarrow> ouch_world \<Rightarrow> bool" where
  Send: "packet_payload (ow_mem w) order = Some bs \<Longrightarrow>
    send_order (ow_mem w) order (ow_client w) (ow_wire w) (ow_kernel w) = Some (r, c, wire, k) \<Longrightarrow>
    ouch_step w (w\<lparr>ow_client := c, ow_wire := wire, ow_kernel := k,
      ow_sent := ow_sent w @ (if oc_state (ow_client w) = PendingWrite \<or> isl r then [] else [bs])\<rparr>)"
| Handle: "handle_write (ow_mem w) (ow_client w) (ow_wire w) (ow_kernel w) = Some (r, c, wire, k) \<Longrightarrow>
    ouch_step w (w\<lparr>ow_client := c, ow_wire := wire, ow_kernel := k\<rparr>)"
| Connect: "oc_state (ow_client w) \<noteq> PendingWrite \<Longrightarrow> connect_to_server (ow_client w) (ow_kernel w) = (rc, c, k) \<Longrightarrow>
    ouch_step w (w\<lparr>ow_client := c, ow_kernel := k\<rparr>)"
| Store: "pending_slice mem (ow_client w) = pending_slice (ow_mem w) (ow_client w) \<Longrightarrow>
    ouch_step w (w\<lparr>ow_mem := mem\<rparr>)"

definition ouch_inv :: "ouch_world \<Rightarrow> bool" where
  "ouch_inv w \<longleftrightarrow> (case pending_slice (ow_mem w) (ow_client w) of
     None \<Rightarrow> False
   | Some rest \<Rightarrow> ow_wire w @ rest = concat (ow_sent w) \<and> (oc_state (ow_client w) = PendingWrite \<longleftrightarrow> rest \<noteq> []))"

lemma ouch_inv_pending:
  "ouch_inv w \<Longrightarrow> oc_state (ow_client w) = PendingWrite \<Longrightarrow> \<exists>rest. pending_slice (ow_mem w) (ow_client w) = Some rest \<and>
     ow_wire w @ rest = concat (ow_sent w) \<and> rest \<noteq> []"
  by (auto simp: ouch_inv_def split: option.splits)

lemma ouch_inv_idle:
  "oc_state (ow_client w) \<noteq> PendingWrite \<Longrightarrow> ouch_inv w \<longleftrightarrow> ow_wire w = concat (ow_sent w)"
  by (simp add: ouch_inv_def pending_slice_def)

lemma handle_write_idle:
  assumes "oc_state c \<noteq> PendingWrite" "handle_write mem c wire k = Some (r, c', wire', k')"
  shows "oc_state c' \<noteq> PendingWrite" "wire' = wire"
  using assms by (auto simp: handle_write_def reply_def split: OuchState.splits reply.splits if_splits)

lemma ouch_step_inv: "ouch_step w w' \<Longrightarrow> ouch_inv w \<Longrightarrow> ouch_inv w'"
proof (induction rule: ouch_step.induct)
  case (Send w order bs r c wire k)
  show ?case
  proof (cases "oc_state (ow_client w) = PendingWrite")
    case True
    then show ?thesis using Send by (auto simp: send_order_def ouch_inv_def split: option.splits)
  next
    case False
    then have w: "ow_wire w = concat (ow_sent w)" using Send.prems ouch_inv_idle by blast
    from False Send.hyps(1) show ?thesis
    proof (cases rule: send_order_cases [where wire = "ow_wire w" and k = "ow_kernel w"])
      case partly
      then show ?thesis using Send.hyps w False by (auto simp: ouch_inv_def)
    qed (use Send.hyps w False in \<open>auto simp: ouch_inv_idle\<close>)
  qed
next
  case (Handle w r c wire k)
  show ?case
  proof (cases "oc_state (ow_client w) = PendingWrite")
    case True
    then obtain rest where rest: "pending_slice (ow_mem w) (ow_client w) = Some rest" "ow_wire w @ rest = concat (ow_sent w)"
      using ouch_inv_pending Handle.prems by blast
    from True rest(1) show ?thesis
    proof (cases rule: handle_write_cases [where wire = "ow_wire w" and k = "ow_kernel w" and v = 0])
      case fails
      then show ?thesis using Handle True rest by (simp add: ouch_inv_def)
    next
      case complete
      then show ?thesis using Handle.hyps rest by (simp add: ouch_inv_idle)
    next
      case partly
      then show ?thesis using Handle.hyps rest by (simp add: ouch_inv_def)
    qed
  next
    case False
    then show ?thesis using Handle handle_write_idle [OF False Handle.hyps] by (simp add: ouch_inv_idle)
  qed
next
  case (Connect w rc c k)
  then show ?case by (auto simp: ouch_inv_idle connect_to_server_def Let_def split: prod.splits)
qed (simp add: ouch_inv_def split: option.splits)

lemma ouch_steps_inv: "ouch_step\<^sup>*\<^sup>* w w' \<Longrightarrow> ouch_inv w \<Longrightarrow> ouch_inv w'"
  by (induction rule: rtranclp_induct) (auto intro: ouch_step_inv)

text \<open>Repeated calls of \<open>handle_write\<close>, as the reactor makes them, up to the first exception.\<close>

fun handle_writes :: "nat \<Rightarrow> u8 list \<Rightarrow> OuchClient \<Rightarrow> u8 list \<Rightarrow> kernel \<Rightarrow>
    ((error + unit) \<times> OuchClient \<times> u8 list \<times> kernel) option" where
  "handle_writes 0 mem c wire k = Some (Inr (), c, wire, k)"
| "handle_writes (Suc n) mem c wire k = do {
     (r, c, wire, k) \<leftarrow> handle_write mem c wire k;
     (case r of Inl e \<Rightarrow> Some (Inl e, c, wire, k) | Inr b \<Rightarrow> handle_writes n mem c wire k) }"

lemma handle_writes_idle: "oc_state c = Connected \<Longrightarrow> handle_writes n mem c wire k = Some (Inr (), c, wire, k)"
  by (induction n) (simp_all add: handle_write_def)

lemma handle_writes_drain:
  assumes "\<forall>i. \<exists>v. replies k i = Ret (Suc v)"
    and "oc_state c = PendingWrite" "pending_slice mem c = Some bs" "length bs \<le> n" "bs \<noteq> []"
  shows "\<exists>c' k'. handle_writes n mem c wire k = Some (Inr (), c', wire @ bs, k') \<and> oc_state c' = Connected"
  using assms
proof (induction n arbitrary: c bs wire k)
  case (Suc n)
  obtain v where v: "replies k (calls k) = Ret (Suc v)" using Suc.prems(1) by blast
  from Suc.prems(2,3) show ?case
  proof (cases rule: handle_write_cases [where wire = wire and k = k and v = "Suc v"])
    case fails
    then show ?thesis using v by simp
  next
    case (complete k')
    then show ?thesis by (simp add: handle_writes_idle)
  next
    case (partly m c' k')
    then have m: "0 < m" using v Suc.prems(5) by simp
    then show ?thesis
      using Suc.IH [of k' c' "drop m bs" "wire @ take m bs"] partly(1-4) partly(6) Suc.prems(1,4) by simp
  qed
qed simp

section \<open>Ownership\<close>

interpretation ouch_owner: resource_owner OuchClient OuchClient_destroy "\<lambda>c. tcp_own_fds (oc_socket c)" "\<lambda>c. {}"
proof
  fix k c k'
  assume "OuchClient k = (Inr c, k')"
  then show "mset (fds k') = tcp_own_fds (oc_socket c) + mset (fds k) \<and> mapped k' = {} \<union> mapped k \<and> {} \<inter> mapped k = {} \<and>
      addrinfos k' = addrinfos k"
    by (auto simp: OuchClient_def same_resources_def split: prod.splits sum.splits
        dest!: socket.create_ok set_options_effect)
next
  fix k e k'
  assume "OuchClient k = (Inl e, k')"
  then show "same_resources k k'"
    by (auto simp: OuchClient_def same_resources_def split: prod.splits sum.splits
        dest!: socket.create_ok socket.create_fail set_options_effect)
      (auto simp: TCPSocket_destroy_def tcp_own_fds_def split: if_splits)
next
  fix c :: OuchClient and k :: kernel
  assume "tcp_own_fds (oc_socket c) \<subseteq># mset (fds k)"
  then show "mset (fds (OuchClient_destroy c k)) = mset (fds k) - tcp_own_fds (oc_socket c) \<and>
      mapped (OuchClient_destroy c k) = mapped k - {} \<and> addrinfos (OuchClient_destroy c k) = addrinfos k"
    using socket.destroy_ok by (simp add: OuchClient_destroy_def)
qed

text \<open>
  An order sent while the connection is being set up: the kernel answers \<open>EAGAIN\<close>, the client goes to \<open>PendingWrite\<close>,
  and when the rest is sent it is \<open>Connected\<close> without the check of \<^verbatim>\<open>SO_ERROR\<close> that \<open>handle_write\<close> makes in \<open>Connecting\<close>.
\<close>

lemma send_while_connecting:
  assumes "oc_state c = Connecting" "packet_payload mem order = Some bs" "bs \<noteq> []"
    and "replies k (calls k) = Err EAGAIN"
  obtains c' where "send_order mem order c wire k = Some (Inr False, c', wire, k\<lparr>errno := EAGAIN, calls := Suc (calls k)\<rparr>)"
    "oc_state c' = PendingWrite" "pending_slice mem c' = Some bs"
proof -
  have s: "sys_send bs wire k = (- 1, wire, k\<lparr>errno := EAGAIN, calls := Suc (calls k)\<rparr>)"
    using assms(4) by (simp add: sys_send_def reply_def)
  obtain len where len: "load64 mem order = Some len" "mem_read mem (order + 8) (unat len) = Some bs"
    using assms(2) by (auto simp: packet_payload_def split: bind_splits)
  then have "len \<noteq> 0" using assms(3) mem_read_length [OF len(2)] by auto
  then have "0 < len" by (simp add: word_gt_0)
  then show ?thesis
    using assms(1) s len
    by (intro that [of "c\<lparr>oc_state := PendingWrite, oc_pending_buffer := order + 8, oc_pending_bytes := len\<rparr>"])
      (simp_all add: send_order_def pending_slice_def)
qed

section \<open>Properties\<close>


definition sample_client :: OuchClient where
  "sample_client = \<lparr>oc_socket = \<lparr>socket_fd = 3\<rparr>, oc_socket_fd = 3, oc_state = Connected, oc_pending_buffer = 0, oc_pending_bytes = 0\<rparr>"

text \<open>The kernel takes two bytes of the first packet, then is busy, then takes everything.\<close>

definition sample_kernel :: kernel where
  "sample_kernel = \<lparr>fds = [3], mapped = {}, addrinfos = 0, errno = 0,
     replies = (\<lambda>n. if n = 0 then Ret 2 else if n = 1 then Err EAGAIN else Ret 100), calls = 0\<rparr>"

definition sample_world :: ouch_world where
  "sample_world = \<lparr>ow_mem = [3, 0, 0, 0, 0, 0, 0, 0, 7, 8, 9], ow_client = sample_client, ow_wire = [], ow_kernel = sample_kernel, ow_sent = []\<rparr>"

definition sample_world1 :: ouch_world where
  "sample_world1 = sample_world\<lparr>
     ow_client := sample_client\<lparr>oc_state := PendingWrite, oc_pending_buffer := 10, oc_pending_bytes := 1\<rparr>,
     ow_wire := [7, 8], ow_kernel := sample_kernel\<lparr>calls := 1\<rparr>, ow_sent := [[7, 8, 9]]\<rparr>"

lemma sample_send: "ouch_step sample_world sample_world1"
proof -
  have p: "packet_payload (ow_mem sample_world) 0 = Some [7, 8, 9]" by code_simp
  have l: "load64 (ow_mem sample_world) 0 = Some 3" "mem_read (ow_mem sample_world) 8 3 = Some [7, 8, 9]" by code_simp+
  have s: "send_order (ow_mem sample_world) 0 (ow_client sample_world) (ow_wire sample_world) (ow_kernel sample_world) =
     Some (Inr False, ow_client sample_world1, ow_wire sample_world1, ow_kernel sample_world1)"
    using l by (simp add: send_order_def sample_world1_def sample_world_def sample_client_def sample_kernel_def sys_send_def reply_def)
  show ?thesis using ouch_step.Send [OF p s] by (simp add: sample_world1_def sample_world_def sample_client_def)
qed


text \<open>
  C38: As long as every \<open>send\<close> takes at least one byte, a pending write of \<open>n\<close>
  bytes is finished after at most \<open>n\<close> calls of \<open>handle_write\<close>: none of them throws, the rest of the packet is on the wire, and the client is connected again.
\<close>

theorem ouch_pending_drains:
  assumes "\<forall>i. \<exists>v. replies k i = Ret (Suc v)"
    and "oc_state c = PendingWrite" "pending_slice mem c = Some bs" "bs \<noteq> []" "unat (oc_pending_bytes c) \<le> n"
  shows "\<exists>c' k'. handle_writes n mem c wire k = Some (Inr (), c', wire @ bs, k') \<and> oc_state c' = Connected"
proof -
  have "length bs = unat (oc_pending_bytes c)" using assms(2,3) by (auto simp: pending_slice_def dest: mem_read_length)
  then show ?thesis using handle_writes_drain assms by simp
qed

lemma ouch_pending_drains_witness:
  "\<exists>c' k'. handle_writes 3 [7, 8, 9] (sample_client\<lparr>oc_state := PendingWrite, oc_pending_buffer := 0, oc_pending_bytes := 3\<rparr>) []
     (sample_kernel\<lparr>replies := (\<lambda>n. Ret (Suc 0))\<rparr>) = Some (Inr (), c', [7, 8, 9], k') \<and> oc_state c' = Connected"
  using ouch_pending_drains [of "sample_kernel\<lparr>replies := (\<lambda>n. Ret (Suc 0))\<rparr>"
      "sample_client\<lparr>oc_state := PendingWrite, oc_pending_buffer := 0, oc_pending_bytes := 3\<rparr>" "[7, 8, 9]" "[7, 8, 9]" 3 "[]"]
  by (simp add: pending_slice_def mem_read_def)

text \<open>
  What a caller can conclude from \<open>send_order\<close> for a packet in memory. It throws only with nothing sent
  and the client as before; it returns true only when the whole payload is on the wire. When it
  returns false the client has a pending write in any case: either of an earlier packet, and then this order was not
  taken, or of this very packet, which will go out later. The return value does not tell these two apart.
\<close>

lemma send_order_outcome:
  assumes "packet_payload mem order = Some bs"
  shows "\<exists>r c' wire' k'. send_order mem order c wire k = Some (r, c', wire', k') \<and>
    (case r of
       Inl e \<Rightarrow> c' = c \<and> wire' = wire
     | Inr True \<Rightarrow> c' = c \<and> wire' = wire @ bs
     | Inr False \<Rightarrow> oc_state c' = PendingWrite \<and>
         (if oc_state c = PendingWrite then c' = c \<and> wire' = wire
          else \<exists>rest. rest \<noteq> [] \<and> pending_slice mem c' = Some rest \<and> wire' @ rest = wire @ bs))"
proof (cases "oc_state c = PendingWrite")
  case True
  then show ?thesis by (simp add: send_order_def)
next
  case False
  from False assms show ?thesis
  proof (cases rule: send_order_cases [where wire = wire and k = k])
    case (partly n c' k')
    then show ?thesis using False by (intro exI [of _ "Inr False"] exI [of _ c'] exI [of _ "wire @ take n bs"] exI [of _ k']) auto
  qed auto
qed

text \<open>
  C39: Whatever the kernel answers, a constructor of the client that throws leaves no
  descriptor open and no address list allocated, and a client that is constructed and destroyed
  leaves the resources as they were. Connecting breaks this: each \<open>connect_to_server\<close> whose name resolves leaves one address list behind.
\<close>

theorem ouch_client_releases_resources:
  "case OuchClient k of
     (Inl e, k') \<Rightarrow> same_resources k k'
   | (Inr c, k') \<Rightarrow> same_resources k (OuchClient_destroy c k') \<and>
       (case connect_to_server c k' of
          (Inl e, c', k'') \<Rightarrow> same_resources k (OuchClient_destroy c' k'')
        | (Inr rc, c', k'') \<Rightarrow> addrinfos (OuchClient_destroy c' k'') = Suc (addrinfos k))"
proof -
  obtain r k' where c: "OuchClient k = (r, k')" by fastforce
  show ?thesis
  proof (cases r)
    case (Inl e)
    then show ?thesis using ouch_owner.create_fail c by simp
  next
    case (Inr c0)
    note o = ouch_owner.create_ok [OF c [unfolded Inr]]
    have d: "same_resources k (OuchClient_destroy c0 k1)" if "same_resources k' k1" for k1
      using ouch_owner.destroy_ok [of c0 k1] o that by (auto simp: same_resources_def)
    obtain rc k'' where t: "tcp_connect (oc_socket c0) k' = (rc, k'')" by fastforce
    have "OuchClient_destroy (c0\<lparr>oc_state := s\<rparr>) = OuchClient_destroy c0" for s
      by (simp add: OuchClient_destroy_def fun_eq_iff)
    then show ?thesis
      using c Inr t o d [of k'] d [of k''] tcp_connect_effect [OF t] ouch_owner.destroy_ok [of c0 k'']
      by (auto simp: connect_to_server_def same_resources_def split: sum.splits)
  qed
qed

end
