(* ===== verification/Magic_Buffer.thy ===== *)
theory Magic_Buffer
  imports Posix_Resources Byte_Codec
begin

text \<open>
  \<^verbatim>\<open>src/utils/MagicBuffer.h\<close>: a ring of bytes whose pages are mapped twice, one copy right behind the other, so
  that a read or write which starts anywhere in the ring is contiguous in memory. An address
  below the end of the second copy denotes the byte of the ring at its distance from the start,
  modulo the capacity.
\<close>

section \<open>The code\<close>

text \<open>\<open>mb_pages\<close> is the content of the pages; the other fields are the members of the class.\<close>

record MagicBuffer =
  mb_start :: nat
  mb_second_half_start :: nat
  mb_read_head :: nat
  mb_write_head :: nat
  mb_aligned_capacity :: u64
  mb_fd :: int
  mb_pages :: "u8 list"

text \<open>\<open>ftruncate\<close> takes a signed length.\<close>

definition sys_ftruncate :: "u64 \<Rightarrow> kernel \<Rightarrow> bool \<times> kernel" where
  [kernel_calls]: "sys_ftruncate len k = (case sys_ok k of (ok, k) \<Rightarrow> (ok \<and> unat len < 2 ^ 63, k))"

definition MagicBuffer :: "u64 \<Rightarrow> u64 \<Rightarrow> kernel \<Rightarrow> (error + MagicBuffer) \<times> kernel" where
  "MagicBuffer page_size capacity k =
     (if capacity = 0 then (Inl (Logic_error ''MagicBuffer(): Unable to create magic buffer of size 0''), k) else
      let (fd, k) = sys_fd k in
      if fd = - 1 then (Inl (Runtime_error ''MagicBuffer(): Unable to create file descriptor''), k) else
      let aligned_capacity = page_align page_size capacity in
      let (ok, k) = sys_ftruncate aligned_capacity k in
      if \<not> ok then (Inl (Runtime_error ''MagicBuffer(): Unable to create magic buffer''), sys_close fd k) else
      let (addr, k) = sys_mmap (unat (aligned_capacity * 2)) k in
      case addr of
        None \<Rightarrow> (Inl (Runtime_error ''MagicBuffer(): Unable to mmap, not enough memory''), sys_close fd k)
      | Some buffer \<Rightarrow>
          let (first, k) = sys_mmap_fixed buffer (unat aligned_capacity) k in
          (case first of
             None \<Rightarrow> (Inl (Runtime_error ''MagicBuffer(): mapping start of buffer''),
               sys_close fd (sys_munmap buffer (unat (aligned_capacity * 2)) k))
           | Some start \<Rightarrow>
               let (second, k) = sys_mmap_fixed (buffer + unat aligned_capacity) (unat aligned_capacity) k in
               (case second of
                  None \<Rightarrow> (Inl (Runtime_error ''MagicBuffer(): mapping second start of buffer''),
                    sys_close fd (sys_munmap start (unat (aligned_capacity * 2)) k))
                | Some second_half_start \<Rightarrow>
                    (Inr \<lparr>mb_start = start, mb_second_half_start = second_half_start, mb_read_head = start,
                       mb_write_head = start, mb_aligned_capacity = aligned_capacity, mb_fd = fd,
                       mb_pages = replicate (unat aligned_capacity) 0\<rparr>, k))))"

definition MagicBuffer_destroy :: "MagicBuffer \<Rightarrow> kernel \<Rightarrow> kernel" where
  "MagicBuffer_destroy mb k =
     (let k = (if mb_start mb \<noteq> 0 then sys_munmap (mb_start mb) (unat (mb_aligned_capacity mb * 2)) k else k)
      in if mb_fd mb \<noteq> - 1 then sys_close (mb_fd mb) k else k)"

text \<open>
  The move constructor initialises three of the six members of the new object; the heads and the descriptor
  are whatever was in its memory, given here by \<open>garbage\<close>.
\<close>

definition MagicBuffer_move :: "MagicBuffer \<Rightarrow> MagicBuffer \<Rightarrow> MagicBuffer \<times> MagicBuffer" where
  "MagicBuffer_move garbage other =
     (garbage\<lparr>mb_start := mb_start other, mb_second_half_start := mb_second_half_start other,
        mb_aligned_capacity := mb_aligned_capacity other, mb_pages := mb_pages other\<rparr>,
      other\<lparr>mb_start := 0, mb_second_half_start := 0, mb_pages := []\<rparr>)"

text \<open>The move assignment from another object.\<close>

definition MagicBuffer_assign :: "MagicBuffer \<Rightarrow> MagicBuffer \<Rightarrow> kernel \<Rightarrow> MagicBuffer \<times> MagicBuffer \<times> kernel" where
  "MagicBuffer_assign this other k =
     (let k = (if mb_start this \<noteq> 0
               then sys_close (mb_fd this)
                 (sys_munmap (mb_second_half_start this) (unat (mb_aligned_capacity this))
                   (sys_munmap (mb_start this) (unat (mb_aligned_capacity this)) k))
               else k)
      in (this\<lparr>mb_start := mb_start other, mb_second_half_start := mb_second_half_start other,
            mb_aligned_capacity := mb_aligned_capacity other, mb_pages := mb_pages other\<rparr>,
          other\<lparr>mb_start := 0, mb_second_half_start := 0, mb_pages := []\<rparr>, k))"

definition read_space_left :: "MagicBuffer \<Rightarrow> u64" where
  "read_space_left mb =
     (if mb_write_head mb \<ge> mb_read_head mb then of_nat (mb_write_head mb - mb_read_head mb)
      else mb_aligned_capacity mb - of_nat (mb_read_head mb - mb_write_head mb))"

definition write_space_left :: "MagicBuffer \<Rightarrow> u64" where
  "write_space_left mb = mb_aligned_capacity mb - 1 - read_space_left mb"

definition advance_write :: "nat \<Rightarrow> MagicBuffer \<Rightarrow> MagicBuffer" where
  "advance_write bytes mb =
     (let mb = mb\<lparr>mb_write_head := mb_write_head mb + bytes\<rparr>
      in if mb_write_head mb \<ge> mb_second_half_start mb
         then mb\<lparr>mb_write_head := mb_write_head mb - unat (mb_aligned_capacity mb)\<rparr> else mb)"

definition advance_read :: "nat \<Rightarrow> MagicBuffer \<Rightarrow> MagicBuffer" where
  "advance_read bytes mb =
     (let mb = mb\<lparr>mb_read_head := mb_read_head mb + bytes\<rparr>
      in if mb_read_head mb \<ge> mb_second_half_start mb
         then mb\<lparr>mb_read_head := mb_read_head mb - unat (mb_aligned_capacity mb)\<rparr> else mb)"

definition mb_reset :: "MagicBuffer \<Rightarrow> MagicBuffer" where
  "mb_reset mb = mb\<lparr>mb_read_head := mb_start mb, mb_write_head := mb_start mb\<rparr>"

text \<open>
  A load and a store of consecutive bytes through the double mapping; \<open>None\<close> when they leave it.
\<close>

definition ring_read :: "MagicBuffer \<Rightarrow> nat \<Rightarrow> nat \<Rightarrow> u8 list option" where
  "ring_read mb addr n =
     (let c = length (mb_pages mb) in
      if mb_start mb \<le> addr \<and> addr + n \<le> mb_start mb + 2 * c
      then Some (map (\<lambda>i. mb_pages mb ! ((addr - mb_start mb + i) mod c)) [0..<n]) else None)"

definition put_byte :: "nat \<Rightarrow> nat \<times> u8 \<Rightarrow> u8 list \<Rightarrow> u8 list" where
  "put_byte off ib pages = pages[(off + fst ib) mod length pages := snd ib]"

definition ring_write :: "MagicBuffer \<Rightarrow> nat \<Rightarrow> u8 list \<Rightarrow> MagicBuffer option" where
  "ring_write mb addr bs =
     (let c = length (mb_pages mb) in
      if mb_start mb \<le> addr \<and> addr + length bs \<le> mb_start mb + 2 * c
      then Some (mb\<lparr>mb_pages := fold (put_byte (addr - mb_start mb)) (enumerate 0 bs) (mb_pages mb)\<rparr>) else None)"

section \<open>The invariant and the bytes in the buffer\<close>

definition mb_inv :: "MagicBuffer \<Rightarrow> bool" where
  "mb_inv mb \<longleftrightarrow> mb_start mb \<noteq> 0 \<and> 0 < unat (mb_aligned_capacity mb) \<and>
     length (mb_pages mb) = unat (mb_aligned_capacity mb) \<and>
     mb_second_half_start mb = mb_start mb + unat (mb_aligned_capacity mb) \<and>
     mb_start mb \<le> mb_read_head mb \<and> mb_read_head mb < mb_second_half_start mb \<and>
     mb_start mb \<le> mb_write_head mb \<and> mb_write_head mb < mb_second_half_start mb"

text \<open>The bytes written and not read yet.\<close>

definition mb_bytes :: "MagicBuffer \<Rightarrow> u8 list" where
  "mb_bytes mb = map (\<lambda>i. mb_pages mb ! ((mb_read_head mb - mb_start mb + i) mod length (mb_pages mb))) [0..<unat (read_space_left mb)]"

abbreviation cap_of :: "MagicBuffer \<Rightarrow> nat" where
  "cap_of mb \<equiv> unat (mb_aligned_capacity mb)"

lemma unat_of_nat_less: "n < c \<Longrightarrow> c \<le> unat (w :: u64) \<Longrightarrow> unat (of_nat n :: u64) = n"
proof -
  assume "n < c" "c \<le> unat w"
  moreover have "unat w < 2 ^ 64" using unsigned_less [where w = w and 'a = nat] by simp
  ultimately show ?thesis by (simp add: unat_of_nat take_bit_nat_eq_self)
qed

lemma read_space_nat:
  assumes "mb_inv mb"
  shows "unat (read_space_left mb) = (mb_write_head mb + cap_of mb - mb_read_head mb) mod cap_of mb"
    "unat (read_space_left mb) < cap_of mb"
proof -
  note I = assms [unfolded mb_inv_def]
  show eq: "unat (read_space_left mb) = (mb_write_head mb + cap_of mb - mb_read_head mb) mod cap_of mb"
  proof (cases "mb_read_head mb \<le> mb_write_head mb")
    case True
    have d: "mb_write_head mb - mb_read_head mb < cap_of mb" using I True by linarith
    have "mb_write_head mb + cap_of mb - mb_read_head mb = (mb_write_head mb - mb_read_head mb) + cap_of mb"
      using True by simp
    then have "(mb_write_head mb + cap_of mb - mb_read_head mb) mod cap_of mb = mb_write_head mb - mb_read_head mb"
      using d by (simp only: mod_add_self2 mod_less)
    moreover have "unat (read_space_left mb) = mb_write_head mb - mb_read_head mb"
      using True unat_of_nat_less [OF d order_refl] by (simp only: read_space_left_def if_True)
    ultimately show ?thesis by simp
  next
    case False
    have d: "mb_read_head mb - mb_write_head mb < cap_of mb" using I False by linarith
    have u: "unat (of_nat (mb_read_head mb - mb_write_head mb) :: u64) = mb_read_head mb - mb_write_head mb"
      by (rule unat_of_nat_less [OF d order_refl])
    then have "(of_nat (mb_read_head mb - mb_write_head mb) :: u64) \<le> mb_aligned_capacity mb"
      using d by (simp only: word_le_nat_alt)
    then have "unat (read_space_left mb) = cap_of mb - (mb_read_head mb - mb_write_head mb)"
      using False u by (simp only: read_space_left_def unat_sub if_False)
    then show ?thesis using False d by simp
  qed
  then show "unat (read_space_left mb) < cap_of mb" using I by simp
qed

lemma write_space_nat:
  assumes "mb_inv mb"
  shows "unat (write_space_left mb) = cap_of mb - 1 - unat (read_space_left mb)"
proof -
  have r: "unat (read_space_left mb) < cap_of mb" by (rule read_space_nat(2) [OF assms])
  have c: "unat (mb_aligned_capacity mb - 1) = cap_of mb - 1"
    using assms by (intro unat_minus_one) (auto simp: mb_inv_def)
  have "read_space_left mb \<le> mb_aligned_capacity mb - 1" using r c by (simp add: word_le_nat_alt)
  then show ?thesis by (simp add: write_space_left_def unat_sub c)
qed

lemma length_mb_bytes: "length (mb_bytes mb) = unat (read_space_left mb)"
  by (simp add: mb_bytes_def)

section \<open>Writing through the double mapping\<close>

lemma length_put_bytes [simp]: "length (fold (put_byte off) ibs pages) = length pages"
  by (induction ibs arbitrary: pages) (simp_all add: put_byte_def)

lemma put_bytes_nth:
  assumes "length bs \<le> length pages" "i < length pages"
  shows "fold (put_byte off) (enumerate 0 bs) pages ! ((off + i) mod length pages) =
    (if i < length bs then bs ! i else pages ! ((off + i) mod length pages))"
  using assms
proof (induction bs rule: rev_induct)
  case (snoc b bs)
  let ?c = "length pages" and ?p = "fold (put_byte off) (enumerate 0 bs) pages"
  have e: "fold (put_byte off) (enumerate 0 (bs @ [b])) pages = ?p[(off + length bs) mod ?c := b]"
    by (simp add: enumerate_append_eq put_byte_def)
  have pos: "(off + k) mod ?c < ?c" for k using snoc.prems by (intro mod_less_divisor) linarith
  have "(off + i) mod ?c = (off + length bs) mod ?c \<longleftrightarrow> i = length bs"
    using snoc.prems by (intro mod_offset_eq) simp_all
  then show ?case
    using snoc pos unfolding e by (auto simp: nth_list_update nth_append less_Suc_eq)
qed simp

text \<open>Offsets of the heads, and the number of unread bytes in terms of them.\<close>

abbreviation r_off :: "MagicBuffer \<Rightarrow> nat" where
  "r_off mb \<equiv> mb_read_head mb - mb_start mb"

abbreviation w_off :: "MagicBuffer \<Rightarrow> nat" where
  "w_off mb \<equiv> mb_write_head mb - mb_start mb"

lemma w_off_eq:
  assumes "mb_inv mb"
  shows "w_off mb = (r_off mb + unat (read_space_left mb)) mod cap_of mb" "r_off mb < cap_of mb" "w_off mb < cap_of mb"
proof -
  note I = assms [unfolded mb_inv_def]
  show r: "r_off mb < cap_of mb" and w: "w_off mb < cap_of mb" using I by linarith+
  let ?n = "mb_write_head mb + cap_of mb - mb_read_head mb"
  have "r_off mb + ?n = w_off mb + cap_of mb" using I by linarith
  then have "(r_off mb + ?n) mod cap_of mb = w_off mb" using w by simp
  then show "w_off mb = (r_off mb + unat (read_space_left mb)) mod cap_of mb"
    unfolding read_space_nat(1) [OF assms] by (simp add: mod_add_right_eq)
qed

lemma advance_wrap:
  assumes "mb_inv mb" "x < cap_of mb" "k \<le> cap_of mb"
  shows "(if mb_start mb + x + k \<ge> mb_second_half_start mb then mb_start mb + x + k - cap_of mb else mb_start mb + x + k) =
    mb_start mb + (x + k) mod cap_of mb"
proof (cases "x + k < cap_of mb")
  case False
  then have "(x + k) mod cap_of mb = x + k - cap_of mb" using assms(2,3) by (simp add: mod_if)
  then show ?thesis using assms(1) False by (simp add: mb_inv_def)
qed (use assms in \<open>simp add: mb_inv_def\<close>)

lemma advance_write_eq:
  assumes "mb_inv mb" "k \<le> cap_of mb"
  shows "advance_write k mb = mb\<lparr>mb_write_head := mb_start mb + (w_off mb + k) mod cap_of mb\<rparr>"
proof -
  have "mb_write_head mb = mb_start mb + w_off mb" using assms(1) by (simp add: mb_inv_def)
  then show ?thesis
    using advance_wrap [OF assms(1) w_off_eq(3) [OF assms(1)] assms(2)]
    by (simp add: advance_write_def Let_def split: if_splits)
qed

lemma advance_read_eq:
  assumes "mb_inv mb" "k \<le> cap_of mb"
  shows "advance_read k mb = mb\<lparr>mb_read_head := mb_start mb + (r_off mb + k) mod cap_of mb\<rparr>"
proof -
  have "mb_read_head mb = mb_start mb + r_off mb" using assms(1) by (simp add: mb_inv_def)
  then show ?thesis
    using advance_wrap [OF assms(1) w_off_eq(2) [OF assms(1)] assms(2)]
    by (simp add: advance_read_def Let_def split: if_splits)
qed

section \<open>A queue of bytes\<close>

lemma mb_inv_write: "mb_inv mb \<Longrightarrow> x < cap_of mb \<Longrightarrow> mb_inv (mb\<lparr>mb_write_head := mb_start mb + x\<rparr>)"
  by (simp add: mb_inv_def)

lemma mb_inv_read: "mb_inv mb \<Longrightarrow> x < cap_of mb \<Longrightarrow> mb_inv (mb\<lparr>mb_read_head := mb_start mb + x\<rparr>)"
  by (simp add: mb_inv_def)

text \<open>The number of unread bytes is determined by the offsets of the heads.\<close>

lemma read_space_unique:
  assumes "mb_inv mb" "n < cap_of mb" "w_off mb = (r_off mb + n) mod cap_of mb"
  shows "unat (read_space_left mb) = n"
  using mod_offset_eq [OF read_space_nat(2) [OF assms(1)] assms(2), of "r_off mb"] w_off_eq(1) [OF assms(1)] assms(3)
  by simp

lemma advance_write_space:
  assumes "mb_inv mb" "unat (read_space_left mb) + n < cap_of mb"
  shows "mb_inv (advance_write n mb)" "unat (read_space_left (advance_write n mb)) = unat (read_space_left mb) + n"
proof -
  have c: "0 < cap_of mb" using assms(2) by linarith
  note e = advance_write_eq [OF assms(1), of n]
  show inv: "mb_inv (advance_write n mb)"
    using e assms mb_inv_write [OF assms(1) mod_less_divisor [OF c]] by simp
  show "unat (read_space_left (advance_write n mb)) = unat (read_space_left mb) + n"
    using assms(2) e by (intro read_space_unique [OF inv]) (simp_all add: w_off_eq(1) [OF assms(1)] mod_simps add.assoc)
qed

lemma advance_read_space:
  assumes "mb_inv mb" "n \<le> unat (read_space_left mb)"
  shows "mb_inv (advance_read n mb)" "unat (read_space_left (advance_read n mb)) = unat (read_space_left mb) - n"
proof -
  have l: "unat (read_space_left mb) < cap_of mb" by (rule read_space_nat(2) [OF assms(1)])
  then have c: "0 < cap_of mb" by linarith
  have e: "advance_read n mb = mb\<lparr>mb_read_head := mb_start mb + (r_off mb + n) mod cap_of mb\<rparr>"
    using l assms by (intro advance_read_eq) simp_all
  show inv: "mb_inv (advance_read n mb)"
    using e mb_inv_read [OF assms(1) mod_less_divisor [OF c]] by simp
  show "unat (read_space_left (advance_read n mb)) = unat (read_space_left mb) - n"
  proof (rule read_space_unique [OF inv])
    obtain m where m: "unat (read_space_left mb) = n + m" using assms(2) le_Suc_ex by blast
    show "w_off (advance_read n mb) = (r_off (advance_read n mb) + (unat (read_space_left mb) - n)) mod cap_of (advance_read n mb)"
      using e w_off_eq(1) [OF assms(1)] by (simp add: m mod_simps add.assoc)
  qed (use l e in simp)
qed

lemma advance_read_bytes:
  assumes "mb_inv mb" "n \<le> unat (read_space_left mb)"
  shows "mb_bytes (advance_read n mb) = drop n (mb_bytes mb)"
proof (rule nth_equalityI)
  show "length (mb_bytes (advance_read n mb)) = length (drop n (mb_bytes mb))"
    by (simp add: length_mb_bytes advance_read_space [OF assms])
next
  fix i assume "i < length (mb_bytes (advance_read n mb))"
  then have i: "i < unat (read_space_left mb) - n" by (simp add: length_mb_bytes advance_read_space [OF assms])
  have e: "advance_read n mb = mb\<lparr>mb_read_head := mb_start mb + (r_off mb + n) mod cap_of mb\<rparr>"
    using read_space_nat(2) [OF assms(1)] assms by (intro advance_read_eq) simp_all
  have "length (mb_pages mb) = cap_of mb" using assms(1) by (simp add: mb_inv_def)
  then show "mb_bytes (advance_read n mb) ! i = drop n (mb_bytes mb) ! i"
    using i advance_read_space(2) [OF assms] unfolding mb_bytes_def e by (simp add: mod_simps add_ac nth_upt less_diff_conv)
qed

lemma mb_reset_inv: "mb_inv mb \<Longrightarrow> mb_inv (mb_reset mb) \<and> mb_bytes (mb_reset mb) = []"
  by (simp add: mb_inv_def mb_reset_def mb_bytes_def read_space_left_def)

text \<open>
  How the reactor uses the buffer: \<open>recv\<close> stores bytes at the write head, and the head advances by
  their number; a handler reads at the read head, and that head advances.
\<close>

definition mb_receive :: "u8 list \<Rightarrow> MagicBuffer \<Rightarrow> MagicBuffer option" where
  "mb_receive bs mb = do {
     mb \<leftarrow> ring_write mb (mb_write_head mb) bs;
     Some (advance_write (length bs) mb) }"

definition mb_take :: "nat \<Rightarrow> MagicBuffer \<Rightarrow> (u8 list \<times> MagicBuffer) option" where
  "mb_take n mb = do {
     bs \<leftarrow> ring_read mb (mb_read_head mb) n;
     Some (bs, advance_read n mb) }"

lemma mb_take_ok:
  assumes "mb_inv mb" "n \<le> unat (read_space_left mb)"
  shows "mb_take n mb = Some (take n (mb_bytes mb), advance_read n mb)"
proof -
  have "mb_read_head mb + n \<le> mb_start mb + 2 * length (mb_pages mb)"
    using assms read_space_nat(2) [OF assms(1)] by (simp add: mb_inv_def)
  then show ?thesis
    using assms by (simp add: mb_take_def ring_read_def mb_bytes_def mb_inv_def Let_def take_map)
qed

lemma write_pages_bytes:
  assumes "mb_inv mb" "unat (read_space_left mb) + length bs < cap_of mb"
    and "i < unat (read_space_left mb) + length bs"
  shows "fold (put_byte (w_off mb)) (enumerate 0 bs) (mb_pages mb) ! ((r_off mb + i) mod cap_of mb) =
    (if i < unat (read_space_left mb) then mb_pages mb ! ((r_off mb + i) mod cap_of mb)
     else bs ! (i - unat (read_space_left mb)))"
proof -
  let ?r = "unat (read_space_left mb)" and ?c = "cap_of mb"
  have len: "length (mb_pages mb) = ?c" using assms(1) by (simp add: mb_inv_def)
  define j where "j = (if i < ?r then ?c - ?r + i else i - ?r)"
  have "(?r + j) mod ?c = i mod ?c" using assms(2,3) by (auto simp: j_def)
  then have e: "(r_off mb + (?r + j) mod ?c) mod ?c = (r_off mb + i mod ?c) mod ?c" by (rule arg_cong)
  have pos: "(w_off mb + j) mod ?c = (r_off mb + i) mod ?c"
    using e unfolding w_off_eq(1) [OF assms(1)] mod_add_left_eq mod_add_right_eq add.assoc .
  have "j < ?c" using assms(2,3) by (auto simp: j_def)
  then have "fold (put_byte (w_off mb)) (enumerate 0 bs) (mb_pages mb) ! ((r_off mb + i) mod ?c) =
      (if j < length bs then bs ! j else mb_pages mb ! ((r_off mb + i) mod ?c))"
    using put_bytes_nth [of bs "mb_pages mb" j "w_off mb"] assms(2) len pos by simp
  moreover have "j < length bs \<longleftrightarrow> \<not> i < ?r" using assms(2,3) by (auto simp: j_def)
  ultimately show ?thesis by (simp add: j_def)
qed

lemma mb_receive_ok:
  assumes "mb_inv mb" "length bs \<le> unat (write_space_left mb)"
  shows "\<exists>mb'. mb_receive bs mb = Some mb' \<and> mb_inv mb' \<and> mb_bytes mb' = mb_bytes mb @ bs \<and> cap_of mb' = cap_of mb"
proof -
  have r: "unat (read_space_left mb) + length bs < cap_of mb"
    using assms read_space_nat(2) [OF assms(1)] by (simp add: write_space_nat)
  define m where "m = mb\<lparr>mb_pages := fold (put_byte (w_off mb)) (enumerate 0 bs) (mb_pages mb)\<rparr>"
  have m: "mb_inv m" "read_space_left m = read_space_left mb" "cap_of m = cap_of mb" "r_off m = r_off mb"
    using assms(1) by (simp_all add: m_def mb_inv_def read_space_left_def)
  have rm: "unat (read_space_left m) + length bs < cap_of m" using r m by simp
  have "mb_receive bs mb = Some (advance_write (length bs) m)"
    using assms(1) r by (simp add: mb_receive_def ring_write_def m_def mb_inv_def Let_def)
  moreover have "mb_bytes (advance_write (length bs) m) = mb_bytes mb @ bs"
  proof (rule nth_equalityI)
    show "length (mb_bytes (advance_write (length bs) m)) = length (mb_bytes mb @ bs)"
      by (simp add: length_mb_bytes advance_write_space(2) [OF m(1) rm] m(2))
  next
    fix i assume "i < length (mb_bytes (advance_write (length bs) m))"
    then have i: "i < unat (read_space_left mb) + length bs"
      by (simp add: length_mb_bytes advance_write_space(2) [OF m(1) rm] m(2))
    have e: "mb_pages (advance_write (length bs) m) = mb_pages m" "mb_read_head (advance_write (length bs) m) = mb_read_head mb"
      "mb_start (advance_write (length bs) m) = mb_start mb"
      by (simp_all add: advance_write_def Let_def m_def)
    have "length (mb_pages m) = cap_of mb" using m(1) by (simp add: mb_inv_def m(3))
    then have "mb_bytes (advance_write (length bs) m) ! i = mb_pages m ! ((r_off mb + i) mod cap_of mb)"
      using i by (simp add: mb_bytes_def advance_write_space(2) [OF m(1) rm] m(2) e)
    moreover have "length (mb_pages mb) = cap_of mb" using assms(1) by (simp add: mb_inv_def)
    ultimately show "mb_bytes (advance_write (length bs) m) ! i = (mb_bytes mb @ bs) ! i"
      using write_pages_bytes [OF assms(1) r i] i
      by (simp add: m_def nth_append length_mb_bytes) (simp add: mb_bytes_def)
  qed
  moreover have "cap_of (advance_write (length bs) m) = cap_of mb" by (simp add: advance_write_def Let_def m_def)
  ultimately show ?thesis using advance_write_space(1) [OF m(1) rm] by blast
qed

section \<open>The contract of a receive buffer\<close>

datatype buf_op = Recv "u8 list" | Consume nat | Reset

text \<open>The specification: a queue of at most \<open>limit\<close> bytes. The result is the bytes taken out and the bytes left.\<close>

fun fifo_session :: "nat \<Rightarrow> buf_op list \<Rightarrow> u8 list \<Rightarrow> (u8 list \<times> u8 list) option" where
  "fifo_session limit [] q = Some ([], q)"
| "fifo_session limit (Recv bs # ops) q =
     (if length q + length bs \<le> limit then fifo_session limit ops (q @ bs) else None)"
| "fifo_session limit (Consume n # ops) q =
     (if n \<le> length q
      then case fifo_session limit ops (drop n q) of None \<Rightarrow> None | Some (out, q') \<Rightarrow> Some (take n q @ out, q')
      else None)"
| "fifo_session limit (Reset # ops) q = fifo_session limit ops []"

fun buffer_session ::
  "(u8 list \<Rightarrow> 'b \<Rightarrow> 'b option) \<Rightarrow> (nat \<Rightarrow> 'b \<Rightarrow> (u8 list \<times> 'b) option) \<Rightarrow> ('b \<Rightarrow> 'b) \<Rightarrow>
   buf_op list \<Rightarrow> 'b \<Rightarrow> (u8 list \<times> 'b) option" where
  "buffer_session receive fetch reset [] b = Some ([], b)"
| "buffer_session receive fetch reset (Recv bs # ops) b =
     do { b \<leftarrow> receive bs b; buffer_session receive fetch reset ops b }"
| "buffer_session receive fetch reset (Consume n # ops) b =
     do { (bs, b) \<leftarrow> fetch n b; (out, b) \<leftarrow> buffer_session receive fetch reset ops b; Some (bs @ out, b) }"
| "buffer_session receive fetch reset (Reset # ops) b = buffer_session receive fetch reset ops (reset b)"

locale receive_buffer =
  fixes inv :: "nat \<Rightarrow> 'b \<Rightarrow> bool"
    and contents :: "'b \<Rightarrow> u8 list"
    and receive :: "u8 list \<Rightarrow> 'b \<Rightarrow> 'b option"
    and fetch :: "nat \<Rightarrow> 'b \<Rightarrow> (u8 list \<times> 'b) option"
    and reset :: "'b \<Rightarrow> 'b"
  assumes receive_ok: "inv limit b \<Longrightarrow> length (contents b) + length bs \<le> limit \<Longrightarrow>
      \<exists>b'. receive bs b = Some b' \<and> inv limit b' \<and> contents b' = contents b @ bs"
    and fetch_ok: "inv limit b \<Longrightarrow> n \<le> length (contents b) \<Longrightarrow>
      \<exists>b'. fetch n b = Some (take n (contents b), b') \<and> inv limit b' \<and> contents b' = drop n (contents b)"
    and reset_ok: "inv limit b \<Longrightarrow> inv limit (reset b) \<and> contents (reset b) = []"
begin

lemma session_refines:
  "inv limit b \<Longrightarrow> fifo_session limit ops (contents b) = Some (out, q) \<Longrightarrow>
     \<exists>b'. buffer_session receive fetch reset ops b = Some (out, b') \<and> inv limit b' \<and> contents b' = q"
proof (induction ops arbitrary: b out)
  case (Cons op ops)
  show ?case
  proof (cases op)
    case (Recv bs)
    then show ?thesis
      using Cons.prems Cons.IH receive_ok [OF Cons.prems(1), of bs] by (fastforce split: if_splits)
  next
    case (Consume n)
    then obtain out' where n: "n \<le> length (contents b)" "fifo_session limit ops (drop n (contents b)) = Some (out', q)"
      "out = take n (contents b) @ out'"
      using Cons.prems(2) by (auto split: if_splits option.splits)
    obtain b' where "fetch n b = Some (take n (contents b), b')" "inv limit b'" "contents b' = drop n (contents b)"
      using fetch_ok [OF Cons.prems(1) n(1)] by blast
    then show ?thesis using Consume n Cons.IH [of b' out'] by auto
  next
    case Reset
    then show ?thesis using Cons.prems Cons.IH reset_ok [OF Cons.prems(1)] by simp
  qed
qed simp

end

definition mb_holds :: "nat \<Rightarrow> MagicBuffer \<Rightarrow> bool" where
  "mb_holds limit mb \<longleftrightarrow> mb_inv mb \<and> cap_of mb = Suc limit"

lemma cap_of_heads [simp]:
  "mb_aligned_capacity (advance_read n mb) = mb_aligned_capacity mb"
  "mb_aligned_capacity (mb_reset mb) = mb_aligned_capacity mb"
  by (simp_all add: advance_read_def mb_reset_def Let_def)

interpretation ring: receive_buffer mb_holds mb_bytes mb_receive mb_take mb_reset
proof
  fix limit mb and bs :: "u8 list"
  assume m: "mb_holds limit mb" "length (mb_bytes mb) + length bs \<le> limit"
  then have "length bs \<le> unat (write_space_left mb)"
    by (simp add: mb_holds_def write_space_nat length_mb_bytes)
  then show "\<exists>mb'. mb_receive bs mb = Some mb' \<and> mb_holds limit mb' \<and> mb_bytes mb' = mb_bytes mb @ bs"
    using mb_receive_ok [of mb bs] m(1) by (auto simp: mb_holds_def)
next
  fix limit n mb
  assume "mb_holds limit mb" "n \<le> length (mb_bytes mb)"
  then show "\<exists>mb'. mb_take n mb = Some (take n (mb_bytes mb), mb') \<and> mb_holds limit mb' \<and> mb_bytes mb' = drop n (mb_bytes mb)"
    using mb_take_ok [of mb n] advance_read_space(1) [of mb n] advance_read_bytes [of mb n]
    by (simp add: mb_holds_def length_mb_bytes)
next
  fix limit mb
  assume "mb_holds limit mb"
  then show "mb_holds limit (mb_reset mb) \<and> mb_bytes (mb_reset mb) = []"
    using mb_reset_inv [of mb] by (simp add: mb_holds_def)
qed

section \<open>Construction and destruction\<close>

lemma double_capacity: "unat (c :: u64) < 2 ^ 63 \<Longrightarrow> unat (c * 2) = 2 * unat c"
  using unat_mult_lem [of c 2] by simp

lemma sys_ftruncate_effect:
  "sys_ftruncate len k = (ok, k') \<Longrightarrow>
     fds k' = fds k \<and> mapped k' = mapped k \<and> addrinfos k' = addrinfos k \<and> (ok \<longrightarrow> unat len < 2 ^ 63)"
  using sys_ok_effect [of k] by (auto simp: sys_ftruncate_def split: prod.splits)

definition mb_own_fds :: "MagicBuffer \<Rightarrow> int multiset" where
  "mb_own_fds mb = (if mb_fd mb = - 1 then {#} else {#mb_fd mb#})"

definition mb_own_maps :: "MagicBuffer \<Rightarrow> nat set" where
  "mb_own_maps mb = (if mb_start mb = 0 then {} else {mb_start mb..<mb_start mb + unat (mb_aligned_capacity mb * 2)})"

lemma MagicBuffer_ok:
  assumes "MagicBuffer page_size capacity k = (Inr mb, k')"
  shows "mb_inv mb" "mb_bytes mb = []" "mb_aligned_capacity mb = page_align page_size capacity"
    "mset (fds k') = mb_own_fds mb + mset (fds k)" "mapped k' = mb_own_maps mb \<union> mapped k"
    "mb_own_maps mb \<inter> mapped k = {}" "addrinfos k' = addrinfos k"
proof -
  let ?c = "page_align page_size capacity"
  obtain fd k1 where 1: "sys_fd k = (fd, k1)" by fastforce
  obtain ok k2 where 2: "sys_ftruncate ?c k1 = (ok, k2)" by fastforce
  obtain r k3 where 3: "sys_mmap (unat (?c * 2)) k2 = (r, k3)" by fastforce
  have o: "capacity \<noteq> 0" "fd \<noteq> - 1" "ok" "r \<noteq> None" using assms 1 2 3 by (auto simp: MagicBuffer_def Let_def split: if_splits option.splits)
  then obtain a where a: "r = Some a" by auto
  obtain r4 k4 where 4: "sys_mmap_fixed a (unat ?c) k3 = (r4, k4)" by fastforce
  obtain r5 k5 where 5: "sys_mmap_fixed (a + unat ?c) (unat ?c) k4 = (r5, k5)" by fastforce
  have r45: "r4 = Some a" "r5 = Some (a + unat ?c)"
    using assms 1 2 3 4 5 o a sys_mmap_fixed_effect [OF 4] sys_mmap_fixed_effect [OF 5]
    by (auto simp: MagicBuffer_def Let_def)
  have m: "mb = \<lparr>mb_start = a, mb_second_half_start = a + unat ?c, mb_read_head = a, mb_write_head = a,
      mb_aligned_capacity = ?c, mb_fd = fd, mb_pages = replicate (unat ?c) 0\<rparr>" "k' = k5"
    using assms 1 2 3 4 5 o a r45 by (simp_all add: MagicBuffer_def Let_def)
  note eff = sys_fd_effect [OF 1] sys_ftruncate_effect [OF 2] sys_mmap_effect [OF 3] sys_mmap_fixed_effect [OF 4]
    sys_mmap_fixed_effect [OF 5]
  have c2: "unat (?c * 2) = 2 * unat ?c" using eff(2) o(3) by (intro double_capacity) simp
  have c0: "?c \<noteq> 0" using 3 a by (auto simp: sys_mmap_def reply_def split: reply.splits if_splits)
  then have "0 < unat ?c" by (simp add: unat_gt_0)
  then show "mb_inv mb" "mb_bytes mb = []" "mb_aligned_capacity mb = ?c"
    using eff(3) a unfolding m by (simp_all add: mb_inv_def mb_bytes_def read_space_left_def)
  show "mset (fds k') = mb_own_fds mb + mset (fds k)" "addrinfos k' = addrinfos k"
    using eff o unfolding m by (auto simp: mb_own_fds_def a)
  show "mb_own_maps mb \<inter> mapped k = {}" using eff o unfolding m by (auto simp: mb_own_maps_def a)
  show "mapped k' = mb_own_maps mb \<union> mapped k"
    using eff o r45 a unfolding m by (auto simp: mb_own_maps_def a c2)
qed

lemma MagicBuffer_fail:
  assumes "MagicBuffer page_size capacity k = (Inl e, k')"
  shows "same_resources k k'"
  using assms unfolding MagicBuffer_def same_resources_def
  by (auto simp: Let_def disjoint_iff double_capacity split: if_splits prod.splits option.splits
      dest!: sys_fd_effect sys_ftruncate_effect sys_mmap_effect sys_mmap_fixed_effect)

interpretation buffer_owner: resource_owner "MagicBuffer page_size capacity" MagicBuffer_destroy mb_own_fds mb_own_maps
proof
  fix mb and k :: kernel
  assume "mb_own_fds mb \<subseteq># mset (fds k)"
  then show "mset (fds (MagicBuffer_destroy mb k)) = mset (fds k) - mb_own_fds mb \<and>
      mapped (MagicBuffer_destroy mb k) = mapped k - mb_own_maps mb \<and> addrinfos (MagicBuffer_destroy mb k) = addrinfos k"
    by (auto simp: MagicBuffer_destroy_def mb_own_fds_def mb_own_maps_def Let_def)
qed (simp_all only: MagicBuffer_ok(4-7) MagicBuffer_fail conj_assoc simp_thms)

section \<open>Properties\<close>

text \<open>
  C14: A freshly constructed magic buffer is a queue of bytes that holds up to its capacity minus one,
  however often its heads wrap around and wherever the chunks fall: any sequence of receives,
  consumptions and resets that the queue allows runs without an access outside the mapping, and the
  handler reads exactly the bytes the queue hands out, in order.
\<close>

theorem magic_buffer_is_fifo:
  assumes "MagicBuffer page_size capacity k = (Inr mb, k')"
    and "fifo_session (unat (page_align page_size capacity) - 1) ops [] = Some (out, q)"
  shows "\<exists>mb'. buffer_session mb_receive mb_take mb_reset ops mb = Some (out, mb') \<and> mb_bytes mb' = q \<and>
    unat (read_space_left mb') = length q \<and>
    unat (write_space_left mb') = unat (page_align page_size capacity) - 1 - length q"
proof -
  note ok = MagicBuffer_ok [OF assms(1)]
  have h: "mb_holds (unat (page_align page_size capacity) - 1) mb"
    using ok(1,3) by (simp add: mb_holds_def mb_inv_def)
  from ring.session_refines [OF h] assms(2) obtain mb' where
    mb': "buffer_session mb_receive mb_take mb_reset ops mb = Some (out, mb')"
      "mb_holds (unat (page_align page_size capacity) - 1) mb'" "mb_bytes mb' = q"
    unfolding ok(2) by blast
  then have "unat (read_space_left mb') = length q" by (metis length_mb_bytes)
  then show ?thesis using mb' by (auto simp: mb_holds_def write_space_nat)
qed

definition granting_kernel :: kernel where
  "granting_kernel = \<lparr>fds = [], mapped = {}, addrinfos = 0, errno = 0, replies = (\<lambda>n. Ret (n + 3)), calls = 0\<rparr>"

lemma magic_buffer_is_fifo_witness:
  "fifo_session (unat (page_align 2 3) - 1) [Recv [1, 2, 3], Consume 2, Recv [4, 5], Consume 3] [] = Some ([1, 2, 3, 4, 5], []) \<and>
   (\<exists>mb k' mb'. MagicBuffer 2 3 granting_kernel = (Inr mb, k') \<and>
      buffer_session mb_receive mb_take mb_reset [Recv [1, 2, 3], Consume 2, Recv [4, 5], Consume 3] mb = Some ([1, 2, 3, 4, 5], mb') \<and>
      mb_bytes mb' = [])"
proof -
  have f: "fifo_session (unat (page_align 2 3) - 1) [Recv [1, 2, 3], Consume 2, Recv [4, 5], Consume 3] [] = Some ([1, 2, 3, 4, 5], [])"
    by code_simp
  obtain mb k' where m: "MagicBuffer 2 3 granting_kernel = (Inr mb, k')"
    by (simp add: MagicBuffer_def granting_kernel_def kernel_calls page_align_def)
  show ?thesis using magic_buffer_is_fifo [OF m f] f m by blast
qed

text \<open>
  The move constructor takes the memory but neither the heads nor the
  descriptor: the new object's heads and descriptor are whatever its memory held before, and
  destroying both objects closes, besides the buffer's own descriptor, the descriptor of that
  number, whoever opened it.
\<close>

lemma magic_buffer_move_loses_state:
  assumes "MagicBuffer_move garbage mb = (mb1, mb0)" and "mb_fd garbage \<noteq> - 1" "mb_fd mb \<noteq> - 1"
  shows "mb_read_head mb1 = mb_read_head garbage \<and> mb_write_head mb1 = mb_write_head garbage \<and> mb_start mb1 = mb_start mb \<and>
    mset (fds (MagicBuffer_destroy mb1 (MagicBuffer_destroy mb0 k))) = mset (fds k) - {#mb_fd mb#} - {#mb_fd garbage#}"
  using assms by (auto simp: MagicBuffer_move_def MagicBuffer_destroy_def Let_def)

end
