(* ===== verification/Epoll_Reactor.thy ===== *)
theory Epoll_Reactor
  imports Magic_Buffer TCP_Socket Spsc_Queue
begin

text \<open>
  \<^verbatim>\<open>src/network/EpollReactor.h\<close>: one thread accepts connections and passes their descriptors through a queue; another
  waits for events, receives into one magic buffer per descriptor and calls a handler. The two threads are modelled as
  rounds of their loops; what the kernel delivers (the ready descriptors, the answers to \<open>recv\<close>) is an
  argument of the rounds.
\<close>

section \<open>The code\<close>

definition MAX_EVENTS :: nat where "MAX_EVENTS = 64"

definition MAX_BUFFER_SIZE :: u64 where "MAX_BUFFER_SIZE = 4096"

definition MAX_CONNECTIONS :: nat where "MAX_CONNECTIONS = 1000"

record EpollReactor =
  fd_buffers :: "MagicBuffer list"
  epoll_fd :: int
  event_fd :: int

text \<open>
  The loop of the constructor that fills the vector of buffers. When a buffer cannot be built, the
  vector, a member, is destroyed; the destructor of the reactor does not run.
\<close>

fun make_buffers :: "u64 \<Rightarrow> nat \<Rightarrow> MagicBuffer list \<Rightarrow> kernel \<Rightarrow> (error + MagicBuffer list) \<times> kernel" where
  "make_buffers page_size 0 bufs k = (Inr bufs, k)"
| "make_buffers page_size (Suc n) bufs k =
     (case MagicBuffer page_size MAX_BUFFER_SIZE k of
        (Inl e, k) \<Rightarrow> (Inl e, foldr MagicBuffer_destroy bufs k)
      | (Inr mb, k) \<Rightarrow> make_buffers page_size n (bufs @ [mb]) k)"

definition EpollReactor :: "u64 \<Rightarrow> int \<Rightarrow> bool \<Rightarrow> kernel \<Rightarrow> (error + EpollReactor) \<times> kernel" where
  "EpollReactor page_size ev_fd initialize_buffers k =
     (let (fd, k) = sys_fd k in
      if fd = - 1 then (Inl (Runtime_error ''EpollReactor(): Unable to create epoll instance''), k) else
      if initialize_buffers then
        (case make_buffers page_size MAX_CONNECTIONS [] k of
           (Inl e, k) \<Rightarrow> (Inl e, k)
         | (Inr bufs, k) \<Rightarrow> (Inr \<lparr>fd_buffers = bufs, epoll_fd = fd, event_fd = ev_fd\<rparr>, k))
      else (Inr \<lparr>fd_buffers = [], epoll_fd = fd, event_fd = ev_fd\<rparr>, k))"

text \<open>The body of the destructor, and after it the members.\<close>

definition EpollReactor_destroy :: "EpollReactor \<Rightarrow> kernel \<Rightarrow> kernel" where
  "EpollReactor_destroy r k =
     foldr MagicBuffer_destroy (fd_buffers r) (if epoll_fd r \<noteq> - 1 then sys_close (epoll_fd r) k else k)"

text \<open>The move assignment from another object: only the descriptor of the epoll instance moves.\<close>

definition EpollReactor_assign :: "EpollReactor \<Rightarrow> EpollReactor \<Rightarrow> kernel \<Rightarrow> EpollReactor \<times> EpollReactor \<times> kernel" where
  "EpollReactor_assign this other k =
     (let k = (if epoll_fd this \<noteq> - 1 then sys_close (epoll_fd this) k else k)
      in (this\<lparr>epoll_fd := epoll_fd other\<rparr>, other\<lparr>epoll_fd := - 1\<rparr>, k))"

text \<open>\<open>interest\<close> is the interest list of the epoll instance.\<close>

definition add_socket :: "int \<Rightarrow> int list \<Rightarrow> kernel \<Rightarrow> (error + unit) \<times> int list \<times> kernel" where
  "add_socket fd interest k =
     (if fd = - 1 then (Inl (Runtime_error ''EpollReactor::add_socket(): File descriptor passed in for add_socket is invalid.''), interest, k) else
      let (ok, k) = sys_ok k in
      if \<not> ok then (Inl (Runtime_error ''EpollReactor::add_socket(): Unable to add file descriptor to epoll interest list''), interest, k)
      else (Inr (), interest @ [fd], k))"

text \<open>
  One round of \<open>wait_for_connections\<close>, once the thread is pinned: with no connection at hand it accepts one; with one at hand it tries to
  push it, again and again while the queue is full, and then signals the other thread.
\<close>

definition accept_round ::
  "TCPSocket \<Rightarrow> int option \<Rightarrow> int spsc \<Rightarrow> kernel \<Rightarrow> ((error + unit) \<times> int option \<times> int spsc \<times> kernel) option" where
  "accept_round server_socket at_hand incoming_connections k =
     (case at_hand of
        None \<Rightarrow>
          (case tcp_accept server_socket k of
             (Inl e, k) \<Rightarrow> Some (Inl e, None, incoming_connections, k)
           | (Inr new_connection_fd, k) \<Rightarrow>
               Some (Inr (), if new_connection_fd = - 1 then None else Some new_connection_fd, incoming_connections, k))
      | Some new_connection_fd \<Rightarrow> do {
          (pushed, q) \<leftarrow> push incoming_connections new_connection_fd;
          if \<not> pushed then Some (Inr (), Some new_connection_fd, q, k)
          else let (ok, k) = sys_ok k in
            Some (if ok then Inr ()
                  else Inl (Runtime_error ''EpollReactor::wait_for_connections(): Unable to write to event_fd for new connection''),
              None, q, k) })"

text \<open>The whole function: the thread is pinned to its core and then goes round and round; \<open>n\<close> is the number of rounds looked at.\<close>

fun accept_rounds ::
  "nat \<Rightarrow> TCPSocket \<Rightarrow> int option \<Rightarrow> int spsc \<Rightarrow> kernel \<Rightarrow> ((error + unit) \<times> int option \<times> int spsc \<times> kernel) option" where
  "accept_rounds 0 s at_hand q k = Some (Inr (), at_hand, q, k)"
| "accept_rounds (Suc n) s at_hand q k = do {
     (res, at_hand, q, k) \<leftarrow> accept_round s at_hand q k;
     (case res of Inl e \<Rightarrow> Some (Inl e, at_hand, q, k) | Inr _ \<Rightarrow> accept_rounds n s at_hand q k) }"

definition wait_for_connections ::
  "nat \<Rightarrow> TCPSocket \<Rightarrow> int spsc \<Rightarrow> kernel \<Rightarrow> ((error + unit) \<times> int option \<times> int spsc \<times> kernel) option" where
  "wait_for_connections n server_socket q k =
     (let (pinned, k) = sys_ok k in
      if \<not> pinned then Some (Inl (Runtime_error ''EpollReactor::wait_for_connections(): Unable to pin connections thread to Core 0''), None, q, k)
      else accept_rounds n server_socket None q k)"

text \<open>
  The answer to a \<open>recv\<close>: some bytes, none when the peer has closed the connection, or an error. The kernel stores at most as many
  bytes as there is room, and with no room it answers 0.
\<close>

datatype recv_reply = Data "u8 list" | Fails nat

text \<open>
  The inner loop for a ready descriptor: \<open>replies\<close> are the answers to the calls of \<open>recv\<close>, and the list ends where the thread
  has come to. The handler is called with the buffer as it is before the write head advances.
\<close>

fun recv_loop ::
  "(int \<Rightarrow> MagicBuffer \<Rightarrow> 'h \<Rightarrow> (MagicBuffer \<times> 'h) option) \<Rightarrow> int \<Rightarrow> recv_reply list \<Rightarrow> MagicBuffer \<Rightarrow> 'h \<Rightarrow> kernel \<Rightarrow>
   (MagicBuffer \<times> 'h \<times> kernel) option" where
  "recv_loop on_data fd [] buffer h k = Some (buffer, h, k)"
| "recv_loop on_data fd (Fails e # rs) buffer h k =
     (if e = EAGAIN then Some (buffer, h, k) else Some (mb_reset buffer, h, sys_close fd k))"
| "recv_loop on_data fd (Data bs # rs) buffer h k =
     (let received = take (unat (write_space_left buffer)) bs in
      if received = [] then Some (mb_reset buffer, h, sys_close fd k)
      else do {
        buffer \<leftarrow> ring_write buffer (mb_write_head buffer) received;
        (buffer, h) \<leftarrow> on_data fd buffer h;
        recv_loop on_data fd rs (advance_write (length received) buffer) h k })"

text \<open>The events of one \<open>epoll_wait\<close>; the result also tells whether there are new connections.\<close>

fun run_events ::
  "(int \<Rightarrow> MagicBuffer \<Rightarrow> 'h \<Rightarrow> (MagicBuffer \<times> 'h) option) \<Rightarrow> (int \<times> recv_reply list) list \<Rightarrow> bool \<Rightarrow> EpollReactor \<Rightarrow> 'h \<Rightarrow> kernel \<Rightarrow>
   (bool \<times> EpollReactor \<times> 'h \<times> kernel) option" where
  "run_events on_data [] has_new r h k = Some (has_new, r, h, k)"
| "run_events on_data ((fd, rs) # evs) has_new r h k =
     (if fd = event_fd r then run_events on_data evs True r h k
      else if fd < 0 then None
      else do {
        buffer \<leftarrow> arr_get (fd_buffers r) (nat fd);
        (buffer, h, k) \<leftarrow> recv_loop on_data fd rs buffer h k;
        bufs \<leftarrow> arr_set (fd_buffers r) (nat fd) buffer;
        run_events on_data evs has_new (r\<lparr>fd_buffers := bufs\<rparr>) h k })"

text \<open>
  The new connections: each is made non-blocking and registered, or closed. \<open>n\<close> bounds the rounds; the length of
  the queue plus one is enough.
\<close>

fun add_connections :: "nat \<Rightarrow> int spsc \<Rightarrow> int list \<Rightarrow> kernel \<Rightarrow> ((error + unit) \<times> int spsc \<times> int list \<times> kernel) option" where
  "add_connections 0 q interest k = None"
| "add_connections (Suc n) q interest k = do {
     (popped, q) \<leftarrow> pop q;
     (case popped of
        None \<Rightarrow> Some (Inr (), q, interest, k)
      | Some fd \<Rightarrow>
          let (got, k) = sys_ok k in
          let (set_nb, k) = (if got then sys_ok k else (False, k)) in
          if \<not> set_nb then add_connections n q interest (sys_close fd k)
          else (case add_socket fd interest k of
                  (Inl e, interest, k) \<Rightarrow> Some (Inl e, q, interest, k)
                | (Inr _, interest, k) \<Rightarrow> add_connections n q interest k)) }"

datatype wait_reply = Ready "(int \<times> recv_reply list) list" | Wait_error nat

definition run_round ::
  "(int \<Rightarrow> MagicBuffer \<Rightarrow> 'h \<Rightarrow> (MagicBuffer \<times> 'h) option) \<Rightarrow> wait_reply \<Rightarrow> EpollReactor \<Rightarrow> int spsc \<Rightarrow> int list \<Rightarrow> 'h \<Rightarrow> kernel \<Rightarrow>
   ((error + unit) \<times> EpollReactor \<times> int spsc \<times> int list \<times> 'h \<times> kernel) option" where
  "run_round on_data w r q interest h k =
     (case w of
        Wait_error e \<Rightarrow>
          Some (if e = EINTR then Inr () else Inl (Runtime_error ''EpollReactor::run(): Unexpected error occurred during epoll_wait''),
            r, q, interest, h, k)
      | Ready evs \<Rightarrow> do {
          (has_new, r, h, k) \<leftarrow> run_events on_data (take MAX_EVENTS evs) False r h k;
          if \<not> has_new then Some (Inr (), r, q, interest, h, k)
          else do {
            (res, q, interest, k) \<leftarrow> add_connections (length (data q) + 1) q interest k;
            (case res of
               Inl e \<Rightarrow> Some (Inl e, r, q, interest, h, k)
             | Inr _ \<Rightarrow>
                 let (ok, k) = sys_ok k in
                 Some (if ok then Inr () else Inl (Runtime_error ''EpollReactor::run(): Unexpected error occured when clearing event_fd''),
                   r, q, interest, h, k)) } })"

text \<open>The whole loop, over the answers of \<open>epoll_wait\<close> so far.\<close>

fun reactor_run ::
  "(int \<Rightarrow> MagicBuffer \<Rightarrow> 'h \<Rightarrow> (MagicBuffer \<times> 'h) option) \<Rightarrow> wait_reply list \<Rightarrow> EpollReactor \<Rightarrow> int spsc \<Rightarrow> int list \<Rightarrow> 'h \<Rightarrow> kernel \<Rightarrow>
   ((error + unit) \<times> EpollReactor \<times> int spsc \<times> int list \<times> 'h \<times> kernel) option" where
  "reactor_run on_data [] r q interest h k = Some (Inr (), r, q, interest, h, k)"
| "reactor_run on_data (w # ws) r q interest h k = do {
     (res, r, q, interest, h, k) \<leftarrow> run_round on_data w r q interest h k;
     (case res of Inl e \<Rightarrow> Some (Inl e, r, q, interest, h, k) | Inr _ \<Rightarrow> reactor_run on_data ws r q interest h k) }"

section \<open>Construction and destruction\<close>

lemma make_buffers_eq:
  "make_buffers page_size n bufs k =
     (case buffer_owner.create_all page_size MAX_BUFFER_SIZE n (rev bufs) k of
        (Inl e, k) \<Rightarrow> (Inl e, k) | (Inr xs, k) \<Rightarrow> (Inr (rev xs), k))"
  by (induction n arbitrary: bufs k) (auto simp: foldr_conv_fold split: prod.splits sum.splits)

lemma make_buffers_owned:
  assumes "make_buffers page_size n [] k = (r, k')"
  shows "case r of Inl e \<Rightarrow> same_resources k k' | Inr bufs \<Rightarrow> same_resources k (foldr MagicBuffer_destroy bufs k') \<and>
    length bufs = n \<and> list_all mb_inv bufs"
proof -
  have "length bs = length xs + n \<and> list_all mb_inv bs"
    if "make_buffers page_size n xs k = (Inr bs, k')" "list_all mb_inv xs" for n xs bs k
    using that
  proof (induction n arbitrary: xs k)
    case (Suc n)
    then obtain mb k1 where m: "MagicBuffer page_size MAX_BUFFER_SIZE k = (Inr mb, k1)" "make_buffers page_size n (xs @ [mb]) k1 = (Inr bs, k')"
      by (auto split: prod.splits sum.splits)
    then show ?case using Suc.IH [of "xs @ [mb]" k1] Suc.prems(2) MagicBuffer_ok(1) [OF m(1)] by auto
  qed simp
  then show ?thesis
    using assms buffer_owner.no_leak [of page_size MAX_BUFFER_SIZE n k] make_buffers_eq [of page_size n "[]" k]
    by (fastforce simp: foldr_conv_fold split: prod.splits sum.splits)
qed

text \<open>Closing a descriptor commutes with the destruction of the buffers, as far as resources go.\<close>

lemma destroy_mono:
  "same_resources k k' \<Longrightarrow> same_resources (MagicBuffer_destroy mb k) (MagicBuffer_destroy mb k')"
  by (auto simp: same_resources_def MagicBuffer_destroy_def Let_def)

lemma destroys_mono: "same_resources k k' \<Longrightarrow> same_resources (foldr MagicBuffer_destroy bufs k) (foldr MagicBuffer_destroy bufs k')"
  by (induction bufs) (auto intro: destroy_mono)

text \<open>
  What the constructor leaves behind: nothing, when the epoll instance cannot be created; exactly the descriptor of the epoll
  instance, when a buffer cannot be built.
\<close>

lemma EpollReactor_fails:
  assumes "EpollReactor page_size ev_fd init k = (Inl e, k')"
  shows "mapped k' = mapped k \<and> addrinfos k' = addrinfos k \<and>
    (mset (fds k') = mset (fds k) \<or> (\<exists>fd\<ge>0. mset (fds k') = add_mset fd (mset (fds k))))"
proof -
  obtain fd k1 where f: "sys_fd k = (fd, k1)" by fastforce
  note eff = sys_fd_effect [OF f]
  show ?thesis
  proof (cases "fd = - 1")
    case True
    then show ?thesis using assms f eff by (simp add: EpollReactor_def)
  next
    case False
    then have "make_buffers page_size MAX_CONNECTIONS [] k1 = (Inl e, k')"
      using assms f by (auto simp: EpollReactor_def split: if_splits prod.splits sum.splits)
    from make_buffers_owned [OF this] show ?thesis using eff False by (auto simp: same_resources_def)
  qed
qed

section \<open>Receiving\<close>

lemma advance_commute: "advance_write n (advance_read k mb) = advance_read k (advance_write n mb)"
  by (simp add: advance_write_def advance_read_def Let_def)

lemma cap_advance_write [simp]: "mb_aligned_capacity (advance_write n mb) = mb_aligned_capacity mb"
  by (simp add: advance_write_def Let_def)

text \<open>What a handler may do: look at the buffer and consume some of its readable bytes.\<close>

definition consumes :: "(int \<Rightarrow> MagicBuffer \<Rightarrow> 'h \<Rightarrow> (MagicBuffer \<times> 'h) option) \<Rightarrow> bool" where
  "consumes on_data \<longleftrightarrow> (\<forall>fd mb h. mb_inv mb \<longrightarrow>
     (\<exists>n h'. n \<le> unat (read_space_left mb) \<and> on_data fd mb h = Some (advance_read n mb, h')))"

lemma written_bytes:
  assumes "mb_inv mb" "length c \<le> unat (write_space_left mb)"
  obtains m where "ring_write mb (mb_write_head mb) c = Some m" "mb_inv m" "mb_bytes m = mb_bytes mb" "cap_of m = cap_of mb"
    "read_space_left m = read_space_left mb" "mb_receive c mb = Some (advance_write (length c) m)"
proof -
  obtain mb' where r: "mb_receive c mb = Some mb'" using mb_receive_ok [OF assms] by blast
  then obtain m where m: "ring_write mb (mb_write_head mb) c = Some m" "mb' = advance_write (length c) m"
    by (auto simp: mb_receive_def split: bind_splits)
  have e: "m = mb\<lparr>mb_pages := fold (put_byte (w_off mb)) (enumerate 0 c) (mb_pages mb)\<rparr>"
    using m(1) by (auto simp: ring_write_def Let_def split: if_splits)
  have i: "mb_inv m" "cap_of m = cap_of mb" "read_space_left m = read_space_left mb"
    using assms(1) by (simp_all add: e mb_inv_def read_space_left_def)
  have len: "length (mb_pages mb) = cap_of mb" using assms(1) by (simp add: mb_inv_def)
  have room: "unat (read_space_left mb) + length c < cap_of mb"
    using assms read_space_nat(2) [OF assms(1)] by (simp add: write_space_nat)
  have "mb_bytes m = mb_bytes mb"
  proof (rule nth_equalityI)
    show "length (mb_bytes m) = length (mb_bytes mb)" by (simp add: length_mb_bytes i(3))
  next
    fix j assume "j < length (mb_bytes m)"
    then have "j < unat (read_space_left mb)" by (simp add: length_mb_bytes i(3))
    then show "mb_bytes m ! j = mb_bytes mb ! j"
      using write_pages_bytes [OF assms(1) room, of j] by (simp add: mb_bytes_def i(3)) (simp add: e len)
  qed
  then show ?thesis using that [OF m(1) i(1) _ i(2,3)] r m(2) by simp
qed

lemma recv_data:
  assumes "mb_inv mb" "c \<noteq> []" "length c \<le> unat (write_space_left mb)" "consumes on_data"
  obtains n m h' mb' where "mb_inv m" "mb_bytes m = mb_bytes mb" "n \<le> length (mb_bytes mb)" "on_data fd m h = Some (advance_read n m, h')"
    "\<And>rs k. recv_loop on_data fd (Data c # rs) mb h k = recv_loop on_data fd rs mb' h' k"
    "mb_inv mb'" "mb_bytes mb' = drop n (mb_bytes mb) @ c" "cap_of mb' = cap_of mb"
proof -
  obtain m where m: "ring_write mb (mb_write_head mb) c = Some m" "mb_inv m" "mb_bytes m = mb_bytes mb" "cap_of m = cap_of mb"
    "read_space_left m = read_space_left mb" "mb_receive c mb = Some (advance_write (length c) m)"
    by (rule written_bytes [OF assms(1,3)])
  obtain n h' where n: "n \<le> unat (read_space_left m)" "on_data fd m h = Some (advance_read n m, h')"
    using assms(4) m(2) unfolding consumes_def by blast
  let ?r = "advance_write (length c) m"
  have r: "mb_inv ?r" "mb_bytes ?r = mb_bytes mb @ c" using mb_receive_ok [OF assms(1,3)] m(6) by auto
  have nb: "n \<le> length (mb_bytes mb)" using n(1) m(5) by (simp add: length_mb_bytes)
  then have n2: "n \<le> unat (read_space_left ?r)" using r(2) by (simp add: length_mb_bytes [symmetric])
  have "recv_loop on_data fd (Data c # rs) mb h k = recv_loop on_data fd rs (advance_read n ?r) h' k" for rs k
    using assms(2,3) m(1) n(2) by (simp add: Let_def advance_commute)
  then show ?thesis
    using that [of m n h' "advance_read n ?r"] m n(2) nb advance_read_space(1) [OF r(1) n2] advance_read_bytes [OF r(1) n2] r(2)
    by simp
qed

lemma recv_loop_safe:
  "mb_inv mb \<Longrightarrow> consumes on_data \<Longrightarrow> \<exists>mb' h' k'. recv_loop on_data fd rs mb h k = Some (mb', h', k') \<and> mb_inv mb' \<and> cap_of mb' = cap_of mb"
proof (induction rs arbitrary: mb h)
  case (Cons r rs)
  show ?case
  proof (cases r)
    case (Data bs)
    let ?c = "take (unat (write_space_left mb)) bs"
    have eq: "recv_loop on_data fd (Data bs # rs) mb h k = recv_loop on_data fd (Data ?c # rs) mb h k" by (simp add: Let_def)
    show ?thesis
    proof (cases "?c = []")
      case True
      then show ?thesis using Data mb_reset_inv [OF Cons.prems(1)] by (simp add: Let_def)
    next
      case False
      have l: "length ?c \<le> unat (write_space_left mb)" by simp
      obtain n m h' mb' where m: "recv_loop on_data fd (Data ?c # rs) mb h k = recv_loop on_data fd rs mb' h' k"
        "mb_inv mb'" "cap_of mb' = cap_of mb"
        using recv_data [OF Cons.prems(1) False l Cons.prems(2), of fd h] by metis
      from Cons.IH [OF m(2) Cons.prems(2), of h'] show ?thesis
        unfolding Data eq m(1) using m(3) by auto
    qed
  next
    case (Fails e)
    then show ?thesis using mb_reset_inv [OF Cons.prems(1)] Cons.prems(1) by simp
  qed
qed simp

text \<open>With no room left in the buffer the answer is 0, which the loop takes for the end of the connection.\<close>

lemma full_buffer_disconnects:
  "write_space_left mb = 0 \<Longrightarrow> recv_loop on_data fd (Data bs # rs) mb h k = Some (mb_reset mb, h, sys_close fd k)"
  by simp

text \<open>A handler that takes every byte it can read and keeps them.\<close>

definition eager :: "int \<Rightarrow> MagicBuffer \<Rightarrow> u8 list \<Rightarrow> (MagicBuffer \<times> u8 list) option" where
  "eager fd mb seen = do { (bs, mb) \<leftarrow> mb_take (unat (read_space_left mb)) mb; Some (mb, seen @ bs) }"

lemma eager_eq: "mb_inv mb \<Longrightarrow> eager fd mb seen = Some (advance_read (unat (read_space_left mb)) mb, seen @ mb_bytes mb)"
  by (simp add: eager_def mb_take_ok) (simp add: length_mb_bytes [symmetric])

lemma eager_consumes: "consumes eager"
  unfolding consumes_def using eager_eq by blast

fun pairs_fit :: "nat \<Rightarrow> u8 list \<Rightarrow> u8 list list \<Rightarrow> bool" where
  "pairs_fit limit p [] = True"
| "pairs_fit limit p (c # cs) = (c \<noteq> [] \<and> length p + length c \<le> limit \<and> pairs_fit limit c cs)"

lemma eager_lags:
  assumes "mb_inv mb" "pairs_fit (cap_of mb - 1) (mb_bytes mb) cs"
  shows "\<exists>mb'. mb_inv mb' \<and> mb_bytes mb' = (if cs = [] then mb_bytes mb else last cs) \<and>
    (\<forall>rs. recv_loop eager fd (map Data cs @ rs) mb seen k =
       recv_loop eager fd rs mb' (seen @ concat (butlast (mb_bytes mb # cs))) k)"
  using assms
proof (induction cs arbitrary: mb seen)
  case (Cons c cs)
  have c: "c \<noteq> []" "length c \<le> unat (write_space_left mb)"
    using Cons.prems by (auto simp: write_space_nat length_mb_bytes)
  obtain n m h' mb1 where r: "mb_inv m" "mb_bytes m = mb_bytes mb" "n \<le> length (mb_bytes mb)"
    "eager fd m seen = Some (advance_read n m, h')"
    "\<And>rs k. recv_loop eager fd (Data c # rs) mb seen k = recv_loop eager fd rs mb1 h' k"
    "mb_inv mb1" "mb_bytes mb1 = drop n (mb_bytes mb) @ c" "cap_of mb1 = cap_of mb"
    by (rule recv_data [OF Cons.prems(1) c eager_consumes, where fd = fd and h = seen]) blast
  have h: "h' = seen @ mb_bytes mb" using r(4) eager_eq [OF r(1), of fd seen] r(2) by simp
  have e: "advance_read n m = advance_read (unat (read_space_left m)) m" using r(4) eager_eq [OF r(1), of fd seen] by simp
  have "n \<le> unat (read_space_left m)" using r(2,3) by (simp add: length_mb_bytes [symmetric])
  then have "drop n (mb_bytes m) = mb_bytes (advance_read n m)" by (rule advance_read_bytes [OF r(1), symmetric])
  also have "\<dots> = drop (unat (read_space_left m)) (mb_bytes m)" unfolding e by (rule advance_read_bytes [OF r(1) order_refl])
  also have "\<dots> = []" by (simp add: length_mb_bytes)
  finally have "drop n (mb_bytes m) = []" .
  then have b: "mb_bytes mb1 = c" using r(2,7) by simp
  have "pairs_fit (cap_of mb1 - 1) (mb_bytes mb1) cs" using Cons.prems(2) b r(8) by simp
  from Cons.IH [OF r(6) this, of h'] show ?case using r(5) b h by (auto simp: last_ConsR)
qed auto

section \<open>Rounds of the loop\<close>

definition reactor_inv :: "EpollReactor \<Rightarrow> bool" where
  "reactor_inv r \<longleftrightarrow> list_all mb_inv (fd_buffers r)"

lemma run_events_safe:
  assumes "reactor_inv r" "consumes on_data"
    and "list_all (\<lambda>(fd, rs). fd = event_fd r \<or> 0 \<le> fd \<and> nat fd < length (fd_buffers r)) evs"
  shows "\<exists>new r' h' k'. run_events on_data evs b r h k = Some (new, r', h', k') \<and> reactor_inv r' \<and>
    length (fd_buffers r') = length (fd_buffers r) \<and> event_fd r' = event_fd r \<and> epoll_fd r' = epoll_fd r"
  using assms
proof (induction evs arbitrary: b r h k)
  case (Cons ev evs)
  obtain fd rs where ev: "ev = (fd, rs)" by fastforce
  show ?case
  proof (cases "fd = event_fd r")
    case True
    then show ?thesis using Cons ev by simp
  next
    case False
    then have f: "0 \<le> fd" "nat fd < length (fd_buffers r)" using Cons.prems(3) ev by auto
    then have "mb_inv (fd_buffers r ! nat fd)" using Cons.prems(1) by (simp add: reactor_inv_def list_all_length)
    from recv_loop_safe [OF this Cons.prems(2), of fd rs h k] obtain mb h1 k1 where
      l: "recv_loop on_data fd rs (fd_buffers r ! nat fd) h k = Some (mb, h1, k1)" "mb_inv mb" by blast
    let ?r = "r\<lparr>fd_buffers := (fd_buffers r)[nat fd := mb]\<rparr>"
    have "reactor_inv ?r" using Cons.prems(1) l(2) f(2) by (auto simp: reactor_inv_def list_all_length nth_list_update)
    moreover have "list_all (\<lambda>(fd, rs). fd = event_fd ?r \<or> 0 \<le> fd \<and> nat fd < length (fd_buffers ?r)) evs" using Cons.prems(3) by simp
    ultimately show ?thesis
      using Cons.IH [of ?r b h1 k1] Cons.prems(2) False f l(1) ev by (auto simp: arr_get_def arr_set_def)
  qed
qed simp

lemma add_connections_ok:
  assumes "spsc_inv q" "length (q_list q) < n"
  shows "\<exists>res q' interest' k'. add_connections n q interest k = Some (res, q', interest', k') \<and> spsc_inv q' \<and>
    (res = Inr () \<longrightarrow> q_list q' = []) \<and> (\<exists>new. interest' = interest @ new \<and> set new \<subseteq> set (q_list q))"
  using assms
proof (induction n arbitrary: q interest k)
  case (Suc n)
  obtain q1 where q1: "pop q = Some (if q_list q = [] then None else Some (hd (q_list q)), q1)" "spsc_inv q1" "q_list q1 = tl (q_list q)"
    using pop_spec [OF Suc.prems(1)] by blast
  show ?case
  proof (cases "q_list q")
    case Nil
    then show ?thesis using q1 by auto
  next
    case (Cons fd rest)
    then have IH: "\<exists>res q' i' k'. add_connections n q1 i k2 = Some (res, q', i', k') \<and> spsc_inv q' \<and> (res = Inr () \<longrightarrow> q_list q' = []) \<and>
        (\<exists>new. i' = i @ new \<and> set new \<subseteq> set rest)" for i k2
      using Suc.IH [of q1 i k2] q1(2,3) Suc.prems(2) by simp
    obtain got k1 where g: "sys_ok k = (got, k1)" by fastforce
    obtain nb k2 where s: "(if got then sys_ok k1 else (False, k1)) = (nb, k2)" by fastforce
    obtain res i3 k3 where a: "add_socket fd interest k2 = (res, i3, k3)" by (metis prod_cases3)
    have i3: "(res = Inr () \<and> i3 = interest @ [fd]) \<or> (\<exists>e. res = Inl e \<and> i3 = interest)"
      using a by (auto simp: add_socket_def Let_def split: if_splits prod.splits)
    have eq: "add_connections (Suc n) q interest k =
        (if \<not> nb then add_connections n q1 interest (sys_close fd k2)
         else case res of Inl e \<Rightarrow> Some (Inl e, q1, i3, k3) | Inr _ \<Rightarrow> add_connections n q1 i3 k3)"
      using q1(1) Cons g s a by (simp split: sum.splits)
    show ?thesis
    proof (cases "nb \<and> res = Inr ()")
      case True
      then have "i3 = interest @ [fd]" using i3 by auto
      then show ?thesis using IH [of i3 k3] True Cons unfolding eq by fastforce
    next
      case False
      then show ?thesis using IH [of interest "sys_close fd k2"] i3 q1(2) Cons unfolding eq by (cases nb) fastforce+
    qed
  qed
qed simp

text \<open>The accepting thread loses no connection: what is at hand ends up in the queue, behind those before it.\<close>

lemma accept_round_ok:
  assumes "spsc_inv q"
  shows "\<exists>res at_hand' q' k'. accept_round s at_hand q k = Some (res, at_hand', q', k') \<and> spsc_inv q' \<and>
    (case at_hand of
       None \<Rightarrow> q' = q \<and> mset (fds k') = mset (case at_hand' of None \<Rightarrow> [] | Some fd \<Rightarrow> [fd]) + mset (fds k)
     | Some fd \<Rightarrow> q_list q' @ (case at_hand' of None \<Rightarrow> [] | Some fd \<Rightarrow> [fd]) = q_list q @ [fd] \<and> fds k' = fds k)"
proof (cases at_hand)
  case None
  obtain r k1 where t: "tcp_accept s k = (r, k1)" by fastforce
  then show ?thesis using None assms tcp_accept_effect [OF t] by (auto simp: accept_round_def split: sum.splits if_splits)
next
  case (Some fd)
  obtain q' where q': "push q fd = Some (length (q_list q) < length (data q) - 1, q')" "spsc_inv q'"
    "q_list q' = (if length (q_list q) < length (data q) - 1 then q_list q @ [fd] else q_list q)"
    using push_spec [OF assms] by blast
  obtain ok k1 where "sys_ok k = (ok, k1)" by fastforce
  then show ?thesis using Some q' sys_ok_effect [of k ok k1] by (auto simp: accept_round_def)
qed

lemma accept_rounds_ok:
  "spsc_inv q \<Longrightarrow> \<exists>res at_hand' q' k'. accept_rounds n s at_hand q k = Some (res, at_hand', q', k') \<and> spsc_inv q'"
proof (induction n arbitrary: at_hand q k)
  case (Suc n)
  obtain res ah q1 k1 where r: "accept_round s at_hand q k = Some (res, ah, q1, k1)" "spsc_inv q1"
    using accept_round_ok [OF Suc.prems, of s at_hand k] by blast
  then show ?case using Suc.IH [OF r(2)] by (cases res) auto
qed simp

lemma q_list_short: "spsc_inv q \<Longrightarrow> length (q_list q) < length (data q) + 1"
proof -
  assume "spsc_inv q"
  then obtain e ch h ct t where rel: "spsc_rel q e ch h ct t" by (auto simp: spsc_inv_def)
  then have "length (q_list q) = t - h" "length (data q) = 2 ^ e" "ch \<le> h" "t < ch + 2 ^ e" using q_list_rel [OF rel] by (auto simp: spsc_rel_def)
  then show ?thesis by linarith
qed

definition has_buffer :: "EpollReactor \<Rightarrow> int \<times> recv_reply list \<Rightarrow> bool" where
  "has_buffer r ev \<longleftrightarrow> fst ev = event_fd r \<or> 0 \<le> fst ev \<and> nat (fst ev) < length (fd_buffers r)"

fun served :: "EpollReactor \<Rightarrow> wait_reply \<Rightarrow> bool" where
  "served r (Ready evs) = list_all (has_buffer r) (take MAX_EVENTS evs)"
| "served r (Wait_error e) = True"

lemma run_round_ok:
  assumes "reactor_inv r" "consumes on_data" "spsc_inv q" "served r w"
  shows "\<exists>res r' q' interest' h' k'. run_round on_data w r q interest h k = Some (res, r', q', interest', h', k') \<and>
    reactor_inv r' \<and> length (fd_buffers r') = length (fd_buffers r) \<and> event_fd r' = event_fd r \<and> spsc_inv q'"
proof (cases w)
  case (Ready evs)
  have "list_all (\<lambda>(fd, rs). fd = event_fd r \<or> 0 \<le> fd \<and> nat fd < length (fd_buffers r)) (take MAX_EVENTS evs)"
    using assms(4) Ready by (auto simp: list_all_iff has_buffer_def)
  from run_events_safe [OF assms(1,2) this, of False h k] obtain new r' h' k1 where
    e: "run_events on_data (take MAX_EVENTS evs) False r h k = Some (new, r', h', k1)" "reactor_inv r'"
      "length (fd_buffers r') = length (fd_buffers r)" "event_fd r' = event_fd r" by blast
  obtain res q' i' k2 where a: "add_connections (length (data q) + 1) q interest k1 = Some (res, q', i', k2)" "spsc_inv q'"
    using add_connections_ok [OF assms(3) q_list_short [OF assms(3)], of interest k1] by blast
  obtain ok k3 where "sys_ok k2 = (ok, k3)" by fastforce
  then show ?thesis using Ready e a assms(3) by (cases new; cases res) (auto simp: run_round_def simp del: add_connections.simps)
qed (use assms in \<open>simp add: run_round_def\<close>)

text \<open>A round that is told of new connections and does not throw has emptied the queue; each connection was registered or closed.\<close>

lemma run_round_adds:
  assumes "reactor_inv r" "consumes on_data" "spsc_inv q" "run_events on_data (take MAX_EVENTS evs) False r h k = Some (True, r1, h1, k1)"
    and "run_round on_data (Ready evs) r q interest h k = Some (Inr (), r', q', interest', h', k')"
  shows "q_list q' = [] \<and> (\<exists>new. interest' = interest @ new \<and> set new \<subseteq> set (q_list q))"
proof -
  obtain res q2 i2 k2 where a: "add_connections (length (data q) + 1) q interest k1 = Some (res, q2, i2, k2)"
    "res = Inr () \<longrightarrow> q_list q2 = []" "\<exists>new. i2 = interest @ new \<and> set new \<subseteq> set (q_list q)"
    using add_connections_ok [OF assms(3) q_list_short [OF assms(3)], of interest k1] by blast
  then show ?thesis
    using assms(4,5) by (cases res) (auto simp: run_round_def simp del: add_connections.simps split: prod.splits if_splits)
qed

lemma reactor_run_ok:
  assumes "reactor_inv r" "consumes on_data" "spsc_inv q" "list_all (served r) ws"
  shows "\<exists>res r' q' interest' h' k'. reactor_run on_data ws r q interest h k = Some (res, r', q', interest', h', k') \<and>
    reactor_inv r' \<and> spsc_inv q'"
  using assms
proof (induction ws arbitrary: r q interest h k)
  case (Cons w ws)
  obtain res r1 q1 i1 h1 k1 where r: "run_round on_data w r q interest h k = Some (res, r1, q1, i1, h1, k1)"
    "reactor_inv r1" "length (fd_buffers r1) = length (fd_buffers r)" "event_fd r1 = event_fd r" "spsc_inv q1"
    using run_round_ok [OF Cons.prems(1-3), of w interest h k] Cons.prems(4) by auto
  have "served r1 w' = served r w'" for w' using r(3,4) by (cases w') (simp_all add: has_buffer_def list_all_iff)
  then have "list_all (served r1) ws" using Cons.prems(4) by (simp add: list_all_iff)
  from Cons.IH [OF r(2) Cons.prems(2) r(5) this] show ?case using r by (cases res) auto
qed auto

section \<open>Properties\<close>

text \<open>
  C40: The handler is called before the write head advances, so it never sees the bytes it is called for. For a
  handler that takes all it can read, and chunks that fit the buffer two at a time, the loop hands
  over every chunk but the last, complete and in order, and leaves the last one in the buffer when there is
  nothing more to receive; when instead the peer closes the connection, the last chunk is discarded unseen.
\<close>

theorem reactor_lags_one_chunk:
  assumes "mb_inv mb" "mb_bytes mb = []" "cs \<noteq> []" "pairs_fit (cap_of mb - 1) [] cs"
  shows "(\<exists>mb'. recv_loop eager fd (map Data cs @ [Fails EAGAIN]) mb [] k = Some (mb', concat (butlast cs), k) \<and> mb_bytes mb' = last cs) \<and>
    (\<exists>mb'. recv_loop eager fd (map Data cs @ [Data []]) mb [] k = Some (mb', concat (butlast cs), sys_close fd k) \<and> mb_bytes mb' = [])"
proof -
  obtain mb' where m: "mb_inv mb'" "mb_bytes mb' = last cs"
    "\<And>rs. recv_loop eager fd (map Data cs @ rs) mb [] k = recv_loop eager fd rs mb' (concat (butlast cs)) k"
    using eager_lags [OF assms(1), of cs fd "[]" k] assms(2-4) by auto
  show ?thesis using m mb_reset_inv [OF m(1)] by (simp add: m(3))
qed

lemma reactor_lags_one_chunk_witness:
  "\<exists>mb k' mb1 mb2. MagicBuffer 4 6 granting_kernel = (Inr mb, k') \<and>
     recv_loop eager 5 (map Data [[1, 2, 3], [4, 5]] @ [Fails EAGAIN]) mb [] k' = Some (mb1, [1, 2, 3], k') \<and> mb_bytes mb1 = [4, 5] \<and>
     recv_loop eager 5 (map Data [[1, 2, 3], [4, 5]] @ [Data []]) mb [] k' = Some (mb2, [1, 2, 3], sys_close 5 k') \<and> mb_bytes mb2 = []"
proof -
  obtain mb k' where m: "MagicBuffer 4 6 granting_kernel = (Inr mb, k')"
    by (simp add: MagicBuffer_def granting_kernel_def kernel_calls page_align_def)
  note ok = MagicBuffer_ok [OF m]
  have "unat (page_align 4 6) = 8" by (simp add: page_align_def)
  then have "pairs_fit (cap_of mb - 1) [] [[1, 2, 3], [4, 5]]" using ok(3) by simp
  from reactor_lags_one_chunk [OF ok(1,2) _ this, of 5 k'] m show ?thesis by (simp del: recv_loop.simps)
qed

text \<open>
  C22: As long as every ready descriptor has a buffer and the handler only consumes bytes that it can read, the reactor's loop
  runs without an access out of bounds, whatever arrives in whatever chunks, however connections come and go and whichever system call
  fails; its buffers and the queue of new connections stay well formed. A ready descriptor without a
  buffer, such as any descriptor from 1000 on, is an access out of bounds.
\<close>

theorem reactor_run_is_safe:
  assumes "reactor_inv r" "consumes on_data" "spsc_inv q"
  shows "(list_all (served r) ws \<longrightarrow>
     (\<exists>res r' q' interest' h' k'. reactor_run on_data ws r q interest h k = Some (res, r', q', interest', h', k') \<and>
        reactor_inv r' \<and> spsc_inv q')) \<and>
    (fd \<noteq> event_fd r \<longrightarrow> int (length (fd_buffers r)) \<le> fd \<longrightarrow> reactor_run on_data (Ready ((fd, rs) # evs) # ws) r q interest h k = None)"
proof (intro conjI impI)
  assume f: "fd \<noteq> event_fd r" "int (length (fd_buffers r)) \<le> fd"
  then have "\<not> nat fd < length (fd_buffers r)" "\<not> fd < 0" by linarith+
  then show "reactor_run on_data (Ready ((fd, rs) # evs) # ws) r q interest h k = None"
    using f(1) by (simp add: run_round_def MAX_EVENTS_def arr_get_def)
qed (rule reactor_run_ok [OF assms])

definition sample_buffer :: "nat \<Rightarrow> nat \<Rightarrow> nat \<Rightarrow> int \<Rightarrow> MagicBuffer" where
  "sample_buffer a r w fd = \<lparr>mb_start = a, mb_second_half_start = a + 4, mb_read_head = r, mb_write_head = w,
     mb_aligned_capacity = 4, mb_fd = fd, mb_pages = [0, 0, 0, 0]\<rparr>"

definition sample_reactor :: EpollReactor where
  "sample_reactor = \<lparr>fd_buffers = [sample_buffer 16 16 16 3], epoll_fd = 4, event_fd = 7\<rparr>"

lemma reactor_run_is_safe_witness:
  "(\<exists>res r' q' interest' h' k'. reactor_run eager [Ready [(0, [Data [1, 2], Fails EAGAIN]), (7, [])]] sample_reactor (SPSCQueue [0, 0]) [7] [] granting_kernel =
      Some (res, r', q', interest', h', k') \<and> reactor_inv r') \<and>
   reactor_run eager [Ready [(1, [])]] sample_reactor (SPSCQueue [0, 0]) [7] [] granting_kernel = None"
proof -
  have i: "reactor_inv sample_reactor" by (simp add: reactor_inv_def sample_reactor_def sample_buffer_def mb_inv_def)
  have q: "spsc_inv (SPSCQueue [0, 0 :: int])" by (rule spsc_inv_new(1) [of _ 1]) simp_all
  have s: "list_all (served sample_reactor) [Ready [(0, [Data [1, 2], Fails EAGAIN]), (7, [])]]"
    by (simp add: has_buffer_def sample_reactor_def MAX_EVENTS_def)
  have f: "1 \<noteq> event_fd sample_reactor" "int (length (fd_buffers sample_reactor)) \<le> 1" by (simp_all add: sample_reactor_def)
  show ?thesis
    using reactor_run_is_safe [OF i eager_consumes q, of "[Ready [(0, [Data [1, 2], Fails EAGAIN]), (7, [])]]" "[7]" "[]" granting_kernel 1 "[]" "[]"]
      reactor_run_is_safe [OF i eager_consumes q, of "[]" "[7]" "[]" granting_kernel 1 "[]" "[]"] s f
    by (auto simp del: reactor_run.simps)
qed

end
