(* ===== verification/Bpf_Filter.thy ===== *)
theory Bpf_Filter
  imports Byte_Codec
begin

text \<open>
  The packet filter of \<^verbatim>\<open>src/network/MulticastReceiver.h\<close>: a program of the classic BPF machine, as
  \<^verbatim>\<open>struct sock_filter\<close> words, and the meaning of the seven instructions it uses (an accumulator, an index register,
  loads from the frame that drop it when they leave it, forward jumps, and the number of bytes to keep).
\<close>

section \<open>The machine and the program\<close>

record sock_filter =
  f_code :: u16
  f_jt :: nat
  f_jf :: nat
  f_k :: u32

definition insn :: "u16 \<Rightarrow> nat \<Rightarrow> nat \<Rightarrow> u32 \<Rightarrow> sock_filter" where
  "insn c jt jf k = \<lparr>f_code = c, f_jt = jt, f_jf = jf, f_k = k\<rparr>"

definition bpf_code :: "sock_filter list" where
  "bpf_code =
    [insn 0x28 0 0 0x0000000c,
     insn 0x15 0 7 0x00000800,
     insn 0x30 0 0 0x00000017,
     insn 0x15 0 11 0x00000011,
     insn 0x28 0 0 0x00000014,
     insn 0x45 9 0 0x00001fff,
     insn 0xb1 0 0 0x0000000e,
     insn 0x48 0 0 0x00000010,
     insn 0x15 5 6 0x0000e3fa,
     insn 0x15 0 5 0x000086dd,
     insn 0x30 0 0 0x00000014,
     insn 0x15 0 3 0x00000011,
     insn 0x28 0 0 0x00000038,
     insn 0x15 0 1 0x0000e3fa,
     insn 0x6 0 0 0x00040000,
     insn 0x6 0 0 0x00000000]"

text \<open>Loads in network byte order.\<close>

definition pkt8 :: "u8 list \<Rightarrow> nat \<Rightarrow> u32 option" where
  "pkt8 pkt i = map_option (\<lambda>bs. of_nat (le_nat bs)) (mem_read pkt i 1)"

definition pkt16 :: "u8 list \<Rightarrow> nat \<Rightarrow> u32 option" where
  "pkt16 pkt i = map_option (\<lambda>bs. of_nat (le_nat (rev bs))) (mem_read pkt i 2)"

text \<open>
  The instructions that follow the current one are the rest of the list, and a jump drops some of
  them, so the program always ends. \<open>None\<close> is a program that runs off its end or has an unknown
  instruction, which the kernel does not accept.
\<close>

function bpf_run :: "sock_filter list \<Rightarrow> u8 list \<Rightarrow> u32 \<Rightarrow> u32 \<Rightarrow> u32 option" where
  "bpf_run [] pkt a x = None"
| "bpf_run (i # rest) pkt a x =
     (if f_code i = 0x28 then (case pkt16 pkt (unat (f_k i)) of None \<Rightarrow> Some 0 | Some v \<Rightarrow> bpf_run rest pkt v x)
      else if f_code i = 0x30 then (case pkt8 pkt (unat (f_k i)) of None \<Rightarrow> Some 0 | Some v \<Rightarrow> bpf_run rest pkt v x)
      else if f_code i = 0x48 then (case pkt16 pkt (unat (x + f_k i)) of None \<Rightarrow> Some 0 | Some v \<Rightarrow> bpf_run rest pkt v x)
      else if f_code i = 0xb1 then (case pkt8 pkt (unat (f_k i)) of None \<Rightarrow> Some 0 | Some v \<Rightarrow> bpf_run rest pkt a ((v AND 0xf) * 4))
      else if f_code i = 0x15 then bpf_run (drop (if a = f_k i then f_jt i else f_jf i) rest) pkt a x
      else if f_code i = 0x45 then bpf_run (drop (if a AND f_k i \<noteq> 0 then f_jt i else f_jf i) rest) pkt a x
      else if f_code i = 0x06 then Some (f_k i)
      else None)"
  by pat_completeness auto
termination by (relation "measure (\<lambda>(prog, pkt, a, x). length prog)") auto

section \<open>What it accepts\<close>

text \<open>
  UDP to port 58362: over IPv4, with the protocol field 17, a fragment offset of 0 and the port found behind a header of the length
  that its first byte gives; or over IPv6, with next header 17 and the port behind the fixed header of 40 bytes.
\<close>

definition feed_frame :: "u8 list \<Rightarrow> bool" where
  "feed_frame pkt \<longleftrightarrow>
     (case pkt16 pkt 12 of
        None \<Rightarrow> False
      | Some ethertype \<Rightarrow>
          if ethertype = 0x800 then
            pkt8 pkt (14 + 9) = Some 17 \<and>
            (case pkt16 pkt (14 + 6) of None \<Rightarrow> False | Some frag \<Rightarrow> frag AND 0x1fff = 0) \<and>
            (case pkt8 pkt 14 of None \<Rightarrow> False | Some v \<Rightarrow> pkt16 pkt (14 + 4 * unat (v AND 0xf) + 2) = Some 58362)
          else ethertype = 0x86dd \<and> pkt8 pkt (14 + 6) = Some 17 \<and> pkt16 pkt (14 + 40 + 2) = Some 58362)"

lemma header_offset: "unat ((v AND 0xf) * 4 + 16 :: u32) = 14 + 4 * unat (v AND 0xf) + 2"
proof -
  have "v AND 0xf \<le> (0xf :: u32)" by (rule word_and_le1)
  then have "unat (v AND 0xf) \<le> 15" by (simp add: word_le_nat_alt)
  then show ?thesis by (simp add: unat_word_ariths)
qed

lemma bpf_code_accepts: "bpf_run bpf_code pkt 0 0 = Some (if feed_frame pkt then 0x40000 else 0)"
  by (simp add: bpf_code_def insn_def feed_frame_def header_offset split: option.splits)

text \<open>An IPv4 datagram in an Ethernet frame, as the network delivers it.\<close>

record ipv4_frame =
  if_macs :: "u8 list"
  if_header :: "u8 list"
  if_udp :: "u8 list"
  if_payload :: "u8 list"

definition ipv4_bytes :: "ipv4_frame \<Rightarrow> u8 list" where
  "ipv4_bytes f = if_macs f @ [8, 0] @ if_header f @ if_udp f @ if_payload f"

definition ipv4_ok :: "ipv4_frame \<Rightarrow> bool" where
  "ipv4_ok f \<longleftrightarrow> length (if_macs f) = 12 \<and> length (if_udp f) = 8 \<and> 20 \<le> length (if_header f) \<and>
     length (if_header f) = 4 * unat (if_header f ! 0 AND 0xf)"

definition is_udp :: "ipv4_frame \<Rightarrow> bool" where
  "is_udp f \<longleftrightarrow> if_header f ! 9 = 17"

definition is_first_fragment :: "ipv4_frame \<Rightarrow> bool" where
  "is_first_fragment f \<longleftrightarrow> if_header f ! 6 AND 0x1f = 0 \<and> if_header f ! 7 = 0"

definition udp_port :: "ipv4_frame \<Rightarrow> nat" where
  "udp_port f = 256 * unat (if_udp f ! 2) + unat (if_udp f ! 3)"

lemma pkt8_nth: "pkt8 pkt i = (if i < length pkt then Some (ucast (pkt ! i)) else None)"
proof (cases "i < length pkt")
  case True
  then have "take 1 (drop i pkt) = [pkt ! i]" by (simp add: take_Suc_conv_app_nth)
  then show ?thesis using True by (simp add: pkt8_def mem_read_def unsigned_of_nat)
qed (simp add: pkt8_def mem_read_def)

lemma pkt16_nth:
  "pkt16 pkt i = (if i + 1 < length pkt then Some (of_nat (256 * unat (pkt ! i) + unat (pkt ! (i + 1)))) else None)"
proof (cases "i + 1 < length pkt")
  case True
  then have "take 2 (drop i pkt) = [pkt ! i, pkt ! (i + 1)]"
    by (simp add: numeral_2_eq_2 take_Suc_conv_app_nth)
  then show ?thesis using True by (simp add: pkt16_def mem_read_def add.commute)
qed (simp add: pkt16_def mem_read_def)

lemma of_nat_eq32: "m < 2 ^ 32 \<Longrightarrow> n < 2 ^ 32 \<Longrightarrow> (of_nat m :: u32) = of_nat n \<longleftrightarrow> m = n"
  by (simp add: of_nat_inverse word_unat_eq_iff unat_of_nat take_bit_nat_eq_self)

lemma unat_byte: "unat (ucast (w :: u8) :: u32) = unat w"
  using unsigned_less [where w = w and 'a = nat] by (simp add: unsigned_ucast_eq take_bit_nat_eq_self)

lemma nibble: "unat ((ucast (w :: u8) :: u32) AND 0xf) = unat (w AND 0xf)"
proof -
  have "(v :: u32) AND 0xf = take_bit 4 v" for v by (simp add: take_bit_eq_mask mask_eq_exp_minus_1)
  moreover have "(v :: u8) AND 0xf = take_bit 4 v" for v by (simp add: take_bit_eq_mask mask_eq_exp_minus_1)
  ultimately show ?thesis by (simp add: unsigned_take_bit_eq unat_byte)
qed

lemma half_word_eq:
  assumes "n < 2 ^ 16"
  shows "(of_nat (256 * unat (a :: u8) + unat (b :: u8)) :: u32) = of_nat n \<longleftrightarrow> 256 * unat a + unat b = n"
proof -
  have "unat a < 256" "unat b < 256" using unsigned_less [where w = a and 'a = nat] unsigned_less [where w = b and 'a = nat] by simp_all
  then have "256 * unat a + unat b < 2 ^ 32" "n < 2 ^ 32" using assms by simp_all
  then show ?thesis by (rule of_nat_eq32)
qed

lemma fragment_bits:
  "(of_nat (256 * unat (a :: u8) + unat (b :: u8)) :: u32) AND 0x1fff = 0 \<longleftrightarrow> a AND 0x1f = 0 \<and> b = 0"
proof -
  have b: "unat b < 256" using unsigned_less [where w = b and 'a = nat] by simp
  have "(w :: u32) AND 0x1fff = take_bit 13 w" for w by (simp add: take_bit_eq_mask mask_eq_exp_minus_1)
  moreover have "(w :: u8) AND 0x1f = take_bit 5 w" for w by (simp add: take_bit_eq_mask mask_eq_exp_minus_1)
  moreover have "take_bit 13 (of_nat n :: u32) = 0 \<longleftrightarrow> n mod 8192 = 0" for n
    by (simp add: word_unat_eq_iff unsigned_take_bit_eq unat_of_nat take_bit_take_bit) (simp add: take_bit_eq_mod mod_mod_cancel)
  moreover have "take_bit 5 a = 0 \<longleftrightarrow> unat a mod 32 = 0"
    by (simp add: word_unat_eq_iff unsigned_take_bit_eq) (simp add: take_bit_eq_mod)
  moreover have "b = 0 \<longleftrightarrow> unat b = 0" by (simp add: unat_eq_0)
  moreover have "(256 * x + y) mod 8192 = 0 \<longleftrightarrow> x mod 32 = 0 \<and> y = 0" if "y < 256" for x y :: nat
    using that mod_mult2_eq [of "256 * x + y" 256 32] by simp
  ultimately show ?thesis using b by (simp only:)
qed

lemma ipv4_bytes_nth:
  assumes "ipv4_ok f"
  shows "i < length (if_header f) \<Longrightarrow> ipv4_bytes f ! (14 + i) = if_header f ! i"
    "j < 8 \<Longrightarrow> ipv4_bytes f ! (14 + length (if_header f) + j) = if_udp f ! j"
    "ipv4_bytes f ! 12 = 8" "ipv4_bytes f ! 13 = 0"
    "length (ipv4_bytes f) = 22 + length (if_header f) + length (if_payload f)"
  using assms by (auto simp: ipv4_bytes_def ipv4_ok_def nth_append)

lemma feed_frame_ipv4:
  assumes f: "ipv4_ok f"
  shows "feed_frame (ipv4_bytes f) \<longleftrightarrow> is_udp f \<and> is_first_fragment f \<and> udp_port f = 58362"
proof -
  note n = ipv4_bytes_nth [OF f]
  let ?b = "ipv4_bytes f"
  have h: "20 \<le> length (if_header f)" "length (if_header f) = 4 * unat (if_header f ! 0 AND 0xf)" using f by (simp_all add: ipv4_ok_def)
  have e: "pkt16 ?b 12 = Some 0x800" using n(3-5) by (simp add: pkt16_nth)
  have p: "pkt8 ?b (14 + 9) = Some 17 \<longleftrightarrow> is_udp f"
    using n(1) [of 9] n(5) h(1) by (simp add: pkt8_nth is_udp_def) (simp add: word_unat_eq_iff unat_byte)
  have g: "pkt16 ?b (14 + 6) = Some (of_nat (256 * unat (if_header f ! 6) + unat (if_header f ! 7)))"
    using n(1) [of 6] n(1) [of 7] n(5) h(1) by (simp add: pkt16_nth)
  have v: "pkt8 ?b 14 = Some (ucast (if_header f ! 0))" using n(1) [of 0] n(5) h(1) by (cases "if_header f") (simp_all add: pkt8_nth)
  have "14 + 4 * unat ((ucast (if_header f ! 0) :: u32) AND 0xf) + 2 = 14 + length (if_header f) + 2" using h(2) by (simp add: nibble)
  moreover have "pkt16 ?b (14 + length (if_header f) + 2) = Some 58362 \<longleftrightarrow> udp_port f = 58362"
    using n(2) [of 2] n(2) [of 3] n(5) half_word_eq [of 58362 "if_udp f ! 2" "if_udp f ! 3"] by (simp add: pkt16_nth udp_port_def)
  ultimately show ?thesis
    unfolding feed_frame_def e option.case p g v fragment_bits by (simp add: is_first_fragment_def)
qed

text \<open>
  C21: The filter program keeps an IPv4 frame exactly when it carries the first fragment of a UDP datagram
  to port 58362, whatever the length of the IP header; it never runs off its end and never
  executes an unknown instruction on any frame of any length, and it drops every frame that is too short.
\<close>

theorem filter_accepts_feed:
  "(\<exists>n. bpf_run bpf_code pkt 0 0 = Some n) \<and> (length pkt < 14 \<longrightarrow> bpf_run bpf_code pkt 0 0 = Some 0) \<and>
   (ipv4_ok f \<longrightarrow> bpf_run bpf_code (ipv4_bytes f) 0 0 =
      Some (if is_udp f \<and> is_first_fragment f \<and> udp_port f = 58362 then 0x40000 else 0))"
proof (intro conjI impI)
  assume "length pkt < 14"
  then show "bpf_run bpf_code pkt 0 0 = Some 0" by (simp add: bpf_code_accepts feed_frame_def pkt16_nth)
qed (simp_all add: bpf_code_accepts feed_frame_ipv4)

definition sample_frame :: ipv4_frame where
  "sample_frame = \<lparr>if_macs = replicate 12 1, if_header = [0x45, 0, 0, 0, 0, 0, 0, 0, 0, 17] @ replicate 10 0,
     if_udp = [0, 0, 0xe3, 0xfa, 0, 0, 0, 0], if_payload = [7, 8, 9]\<rparr>"

lemma sample_frame_ok: "ipv4_ok sample_frame" "is_udp sample_frame" "is_first_fragment sample_frame" "udp_port sample_frame = 58362"
  by (simp_all add: sample_frame_def ipv4_ok_def is_udp_def is_first_fragment_def udp_port_def)

lemma filter_accepts_feed_witness:
  "bpf_run bpf_code [] 0 0 = Some 0 \<and> bpf_run bpf_code (ipv4_bytes sample_frame) 0 0 = Some 0x40000"
  using filter_accepts_feed [of "[]" sample_frame] sample_frame_ok by simp

end
