(* ===== verification/Multicast_Receiver.thy ===== *)
theory Multicast_Receiver
  imports Bpf_Filter Posix_Resources
begin

text \<open>
  \<^verbatim>\<open>src/network/MulticastReceiver.h\<close>: the receiver and its ring of frames, shared with the kernel, or in
  mock mode with a thread that replays a file. This theory has the constructors, the destructor and the moves;
  the ring is in the next one.
\<close>

section \<open>The code\<close>

definition RX_BLOCK_SIZE :: nat where "RX_BLOCK_SIZE = 65536"

definition RX_FRAME_SIZE :: nat where "RX_FRAME_SIZE = 2048"

definition RX_BLOCK_NR :: nat where "RX_BLOCK_NR = 128"

definition RX_FRAME_NR :: nat where "RX_FRAME_NR = RX_BLOCK_SIZE * RX_BLOCK_NR div RX_FRAME_SIZE"

record MulticastReceiver =
  mr_ring :: nat
  mr_curr_frame_idx :: nat
  mr_fd :: int
  mr_total_size :: nat
  mr_total_packets :: u64

text \<open>
  The hardware address for the membership: four of its six bytes are set, the last two are what was
  on the stack (\<open>garbage\<close>).
\<close>

definition mr_address :: "u8 list \<Rightarrow> u8 list \<Rightarrow> u8 list" where
  "mr_address garbage raw_address_bytes = [0x01, 0x00, 0x5E, raw_address_bytes ! 1 AND 0x7F] @ drop 4 garbage"

text \<open>
  The constructor for the network. \<open>inet_pton\<close> is the library function: -1, 0 for a malformed address, or
  1 with the four bytes of the address. The result has the address of the membership
  that the kernel was asked for. The name is copied with its terminator into an array of 16 bytes.
\<close>

definition MulticastReceiver ::
  "(string \<Rightarrow> int \<times> u8 list) \<Rightarrow> u8 list \<Rightarrow> string \<Rightarrow> string \<Rightarrow> kernel \<Rightarrow>
   ((error + MulticastReceiver \<times> u8 list) \<times> kernel) option" where
  "MulticastReceiver inet_pton garbage interface_name multicast_addr k =
     (let (fd, k) = sys_fd k in
      if fd = - 1 then Some (Inl (Runtime_error ''MulticastReceiver(): Unable to create AF_PACKET socket''), k) else
      if 16 < length interface_name + 1 then None else
      let (ok, k) = sys_ok k in
      if \<not> ok then Some (Inl (Runtime_error ''MulticastReceiver(): Unable to retrieve interface index''), sys_close fd k) else
      let (ret, ip_addr) = inet_pton multicast_addr in
      if ret = - 1 then Some (Inl (Runtime_error ''MulticastReceiver(): Unable to retrieve integer network representation''), sys_close fd k) else
      if ret = 0 then Some (Inl (Runtime_error ''MulticastReceiver(): Invalid network format.''), sys_close fd k) else
      let address = mr_address garbage ip_addr; (ok, k) = sys_ok k in
      if \<not> ok then Some (Inl (Runtime_error ''MulticastReceiver(): Unable to add multicast packet membership''), sys_close fd k) else
      let (ok, k) = sys_ok k in
      if \<not> ok then Some (Inl (Runtime_error ''MulticastReceiver(): Unable to attach BPF filter''), sys_close fd k) else
      let (ok, k) = sys_ok k in
      if \<not> ok then Some (Inl (Runtime_error ''MulticastReceiver(): Unable to set TPACKET_VERSION''), sys_close fd k) else
      let (ok, k) = sys_ok k in
      if \<not> ok then Some (Inl (Runtime_error ''MulticastReceiver(): Unable to setup RX ring''), sys_close fd k) else
      let total_size = RX_BLOCK_SIZE * RX_BLOCK_NR; (ring_addr, k) = sys_mmap total_size k in
      case ring_addr of
        None \<Rightarrow> Some (Inl (Runtime_error ''MulticastReceiver(): Unable to mmap RX ring buffer''), sys_close fd k)
      | Some ring \<Rightarrow>
          Some (Inr (\<lparr>mr_ring = ring, mr_curr_frame_idx = 0, mr_fd = fd, mr_total_size = total_size, mr_total_packets = 0\<rparr>, address), k))"

definition MulticastReceiver_mock :: "bool \<Rightarrow> kernel \<Rightarrow> (error + MulticastReceiver) \<times> kernel" where
  "MulticastReceiver_mock mock_mode k =
     (if mock_mode then
        let total_size = RX_BLOCK_SIZE * RX_BLOCK_NR; (ring_addr, k) = sys_mmap total_size k in
        case ring_addr of
          None \<Rightarrow> (Inl (Runtime_error ''MulticastReceiver(): Unable to create mock RX ring buffer''), k)
        | Some ring \<Rightarrow>
            (Inr \<lparr>mr_ring = ring, mr_curr_frame_idx = 0, mr_fd = - 1, mr_total_size = total_size, mr_total_packets = 0\<rparr>, k)
      else (Inl (Runtime_error ''MulticastReceiver(): Mock mode constructor should only be used when mock_mode is true.''), k))"

definition MulticastReceiver_destroy :: "MulticastReceiver \<Rightarrow> kernel \<Rightarrow> kernel" where
  "MulticastReceiver_destroy r k =
     (let k = (if mr_ring r \<noteq> 0 then sys_munmap (mr_ring r) (mr_total_size r) k else k)
      in if mr_fd r \<noteq> - 1 then sys_close (mr_fd r) k else k)"

definition MulticastReceiver_move :: "MulticastReceiver \<Rightarrow> MulticastReceiver \<times> MulticastReceiver" where
  "MulticastReceiver_move other =
     (\<lparr>mr_ring = mr_ring other, mr_curr_frame_idx = 0, mr_fd = mr_fd other, mr_total_size = mr_total_size other, mr_total_packets = 0\<rparr>,
      other\<lparr>mr_ring := 0, mr_fd := - 1\<rparr>)"

text \<open>The move assignment from another object. It tests \<open>fd_\<close> as a truth value.\<close>

definition MulticastReceiver_assign ::
  "MulticastReceiver \<Rightarrow> MulticastReceiver \<Rightarrow> kernel \<Rightarrow> MulticastReceiver \<times> MulticastReceiver \<times> kernel" where
  "MulticastReceiver_assign this other k =
     (let k = (if mr_fd this \<noteq> 0 then sys_munmap (mr_ring this) (mr_total_size this) (sys_close (mr_fd this) k) else k)
      in (this\<lparr>mr_ring := mr_ring other, mr_fd := mr_fd other, mr_total_size := mr_total_size other\<rparr>,
          other\<lparr>mr_ring := 0, mr_fd := - 1\<rparr>, k))"

definition open_failed :: error where
  "open_failed = Runtime_error ''MulticastReceiver::simulate_packets(): Unable to open file''"

definition mmap_failed :: error where
  "mmap_failed = Runtime_error ''MulticastReceiver::simulate_packets(): Unable to mmap for file''"

definition madvise_failed :: error where
  "madvise_failed = Runtime_error ''MulticastReceiver::simulate_packets(): Unable to set MADV_SEQUENTIAL''"

text \<open>
  \<open>simulate_packets\<close> around its loop: it opens and maps the file, of \<open>st_size\<close> bytes, and releases both at the end. \<open>loop\<close> is the
  part in between.
\<close>

definition simulate_packets :: "nat \<Rightarrow> (kernel \<Rightarrow> kernel) \<Rightarrow> kernel \<Rightarrow> (error + unit) \<times> kernel" where
  "simulate_packets st_size loop k =
     (let (pinned, k) = sys_ok k; (fd, k) = sys_fd k in
      if fd = - 1 then (Inl open_failed, k) else
      let (stated, k) = sys_ok k; (data_addr, k) = sys_mmap st_size k in
      case data_addr of
        None \<Rightarrow> (Inl mmap_failed, k)
      | Some addr \<Rightarrow>
          let (ok, k) = sys_ok k in
          if \<not> ok then (Inl madvise_failed, k) else
          (Inr (), sys_munmap addr st_size (sys_close fd (loop k))))"

text \<open>
  \<open>print_statistics\<close>: the code of a failed pinning and the counts of each second, until the socket
  does not give them. The answers of \<open>getsockopt\<close> are an argument.
\<close>

datatype statistics_line = Pin_failed nat | Statistics_failed | Per_second u32 u32

fun statistics_rounds :: "(u32 \<times> u32) option list \<Rightarrow> statistics_line list" where
  "statistics_rounds [] = []"
| "statistics_rounds (None # answers) = [Statistics_failed]"
| "statistics_rounds (Some (tp_packets, tp_drops) # answers) = Per_second tp_packets tp_drops # statistics_rounds answers"

definition print_statistics :: "nat \<Rightarrow> (u32 \<times> u32) option list \<Rightarrow> statistics_line list" where
  "print_statistics ret answers = (if ret \<noteq> 0 then [Pin_failed ret] else []) @ statistics_rounds answers"

lemma print_statistics_until_failure:
  "print_statistics ret (map Some counts @ None # answers) =
     (if ret = 0 then [] else [Pin_failed ret]) @ map (\<lambda>(packets, drops). Per_second packets drops) counts @ [Statistics_failed]"
  by (simp add: print_statistics_def) (induction counts; auto)

lemma replay_errors [simp]:
  "mmap_failed \<noteq> open_failed" "madvise_failed \<noteq> open_failed" "mmap_failed \<noteq> madvise_failed" "madvise_failed \<noteq> mmap_failed"
  "open_failed \<noteq> mmap_failed" "open_failed \<noteq> madvise_failed"
  by (simp_all add: open_failed_def mmap_failed_def madvise_failed_def)

section \<open>Ownership\<close>

definition mr_own_fds :: "MulticastReceiver \<Rightarrow> int multiset" where
  "mr_own_fds r = (if mr_fd r = - 1 then {#} else {#mr_fd r#})"

definition mr_own_maps :: "MulticastReceiver \<Rightarrow> nat set" where
  "mr_own_maps r = (if mr_ring r = 0 then {} else {mr_ring r..<mr_ring r + mr_total_size r})"

lemma MulticastReceiver_ok:
  assumes "MulticastReceiver inet_pton garbage name addr k = Some (Inr (r, a), k')"
  shows "mset (fds k') = mr_own_fds r + mset (fds k)" "mapped k' = mr_own_maps r \<union> mapped k"
    "mr_own_maps r \<inter> mapped k = {}" "addrinfos k' = addrinfos k"
    "a = mr_address garbage (snd (inet_pton addr))" "mr_total_size r = RX_FRAME_NR * RX_FRAME_SIZE"
  using assms unfolding MulticastReceiver_def
  by (auto simp: Let_def mr_own_fds_def mr_own_maps_def RX_FRAME_NR_def RX_FRAME_SIZE_def RX_BLOCK_SIZE_def RX_BLOCK_NR_def disjoint_iff
      split: if_splits prod.splits option.splits dest!: sys_fd_effect sys_ok_effect sys_mmap_effect)

lemma MulticastReceiver_fail:
  assumes "MulticastReceiver inet_pton garbage name addr k = Some (Inl e, k')"
  shows "same_resources k k'"
  using assms unfolding MulticastReceiver_def same_resources_def
  by (auto simp: Let_def split: if_splits prod.splits option.splits dest!: sys_fd_effect sys_ok_effect sys_mmap_effect)
lemma receiver_destroy_ok:
  "mr_own_fds r \<subseteq># mset (fds k) \<Longrightarrow> mset (fds (MulticastReceiver_destroy r k)) = mset (fds k) - mr_own_fds r \<and>
     mapped (MulticastReceiver_destroy r k) = mapped k - mr_own_maps r \<and> addrinfos (MulticastReceiver_destroy r k) = addrinfos k"
  by (auto simp: MulticastReceiver_destroy_def mr_own_fds_def mr_own_maps_def Let_def)

interpretation mock_receiver: resource_owner "MulticastReceiver_mock True" MulticastReceiver_destroy mr_own_fds mr_own_maps
proof
  fix k r k'
  assume "MulticastReceiver_mock True k = (Inr r, k')"
  then show "mset (fds k') = mr_own_fds r + mset (fds k) \<and> mapped k' = mr_own_maps r \<union> mapped k \<and>
      mr_own_maps r \<inter> mapped k = {} \<and> addrinfos k' = addrinfos k"
    by (auto simp: MulticastReceiver_mock_def Let_def mr_own_fds_def mr_own_maps_def disjoint_iff
        split: prod.splits option.splits dest!: sys_mmap_effect)
next
  fix k e k'
  assume "MulticastReceiver_mock True k = (Inl e, k')"
  then show "same_resources k k'"
    by (auto simp: MulticastReceiver_mock_def Let_def same_resources_def split: prod.splits option.splits dest!: sys_mmap_effect)
qed (rule receiver_destroy_ok)

lemma receiver_move_ok:
  "MulticastReceiver_move r = (r1, r0) \<Longrightarrow> mr_own_fds r1 = mr_own_fds r \<and> mr_own_maps r1 = mr_own_maps r \<and>
     mr_own_fds r0 = {#} \<and> mr_own_maps r0 = {}"
  by (auto simp: MulticastReceiver_move_def mr_own_fds_def mr_own_maps_def)

lemma receiver_moved_destroy:
  assumes "mr_own_fds r \<subseteq># mset (fds k)" "MulticastReceiver_move r = (r1, r0)"
  shows "same_resources (MulticastReceiver_destroy r k) (MulticastReceiver_destroy r1 (MulticastReceiver_destroy r0 k))"
  using assms receiver_move_ok [OF assms(2)] receiver_destroy_ok [of r k] receiver_destroy_ok [of r0 k]
    receiver_destroy_ok [of r1 "MulticastReceiver_destroy r0 k"]
  by (auto simp: same_resources_def)

section \<open>Properties\<close>


definition sample_pton :: "string \<Rightarrow> int \<times> u8 list" where
  "sample_pton s = (1, [233, 54, 12, 1])"

definition willing :: kernel where
  "willing = \<lparr>fds = [], mapped = {}, addrinfos = 0, errno = 0, replies = (\<lambda>n. Ret (n + 3)), calls = 0\<rparr>"


text \<open>
  Two ways in which the move assignment of the receiver goes wrong. A target with descriptor 0
  keeps its socket open and its ring mapped, with nothing left that refers to them. A target that was itself moved
  from passes the test, since its descriptor is -1, and the addresses from 0 up to the size of the ring are unmapped.
\<close>

lemma receiver_assign_flaws:
  "(mr_fd this = 0 \<longrightarrow> MulticastReceiver_assign this other k = (this', other', k') \<longrightarrow> k' = k \<and>
      mr_fd this' = mr_fd other \<and> mr_ring this' = mr_ring other) \<and>
   (MulticastReceiver_move this = (new, old) \<longrightarrow> MulticastReceiver_assign old other k = (this', other', k') \<longrightarrow>
      mapped k' = mapped k - {0..<mr_total_size this})"
  by (auto simp: MulticastReceiver_assign_def MulticastReceiver_move_def)

text \<open>
  The replay of a file releases its descriptor and its mapping when it reaches the end of the data, provided
  the loop itself keeps the resources. On an exception it does not: when the file cannot be mapped its descriptor stays open, and when the
  advice is refused both the descriptor and the mapping stay.
\<close>

lemma simulate_packets_resources:
  assumes "\<And>k. same_resources k (loop k)" and "simulate_packets st_size loop k = (res, k')"
  shows "if res = Inr () \<or> res = Inl open_failed then same_resources k k'
    else \<exists>fd \<ge> 0. mset (fds k') = add_mset fd (mset (fds k)) \<and> addrinfos k' = addrinfos k \<and>
      (res = Inl mmap_failed \<and> mapped k' = mapped k \<or>
       res = Inl madvise_failed \<and>
         (\<exists>addr. mapped k' = mapped k \<union> {addr..<addr + st_size} \<and> mapped k \<inter> {addr..<addr + st_size} = {}))"
proof -
  obtain pinned k1 where 1: "sys_ok k = (pinned, k1)" by fastforce
  obtain fd k2 where 2: "sys_fd k1 = (fd, k2)" by fastforce
  obtain st k3 where 3: "sys_ok k2 = (st, k3)" by fastforce
  obtain a k4 where 4: "sys_mmap st_size k3 = (a, k4)" by fastforce
  obtain ok k5 where 5: "sys_ok k4 = (ok, k5)" by fastforce
  note eff = sys_ok_effect [OF 1] sys_fd_effect [OF 2] sys_ok_effect [OF 3] sys_mmap_effect [OF 4] sys_ok_effect [OF 5]
  note sp = assms(2) [unfolded simulate_packets_def, simplified 1 2 3 4 5 Let_def prod.case]
  show ?thesis
  proof (cases "fd = - 1 \<or> a = None \<or> \<not> ok")
    case True
    then show ?thesis using sp eff by (auto simp: same_resources_def split: if_splits option.splits)
  next
    case False
    then obtain addr where addr: "a = Some addr" by auto
    then have "res = Inr ()" "k' = sys_munmap addr st_size (sys_close fd (loop k5))" using sp False by auto
    then show ?thesis using eff addr False assms(1) [of k5] by (auto simp: same_resources_def)
  qed
qed

text \<open>
  The membership is for the right group only when the two bytes that are never set happen to be the last two of its address.
\<close>

lemma membership_address:
  assumes "length garbage = 6"
  shows "mr_address garbage ip = [0x01, 0x00, 0x5E, ip ! 1 AND 0x7F, ip ! 2, ip ! 3] \<longleftrightarrow> garbage ! 4 = ip ! 2 \<and> garbage ! 5 = ip ! 3"
proof -
  have "drop 4 garbage = [garbage ! 4, garbage ! 5]"
    using assms by (simp add: list_eq_iff_nth_eq less_Suc_eq numeral_2_eq_2)
  then show ?thesis by (simp add: mr_address_def)
qed

end
