(* ===== verification/Packet_Ring.thy ===== *)
theory Packet_Ring
  imports Multicast_Receiver
begin

text \<open>
  The ring of \<^verbatim>\<open>src/network/MulticastReceiver.h\<close> in mock mode, with its two threads running at
  once: \<open>simulate_packets\<close> fills frames with the messages of a file, \<open>poll_simulation\<close> hands them to the parser. The
  ring is one area of memory; each thread has a first-in first-out buffer of stores, as on x86, so a
  store reaches the other thread some time after it was made, and the stores of a thread in order. A frame
  starts with the header \<^verbatim>\<open>tpacket2_hdr\<close>: \<open>tp_status\<close>, \<open>tp_len\<close>, \<open>tp_snaplen\<close> (four bytes each), \<open>tp_mac\<close>
  and \<open>tp_net\<close> (two bytes each), 32 bytes in all.
\<close>

section \<open>The code\<close>

definition TP_STATUS_KERNEL :: u32 where "TP_STATUS_KERNEL = 0"

definition TP_STATUS_USER :: u32 where "TP_STATUS_USER = 1"

text \<open>
  The next message of the file: a length of two bytes in network order and as many bytes. The loop ends when
  less is left.
\<close>

definition next_message :: "u8 list \<Rightarrow> (u8 list \<times> u8 list) option" where
  "next_message data =
     (case data of
        hi # lo # rest \<Rightarrow>
          let message_len = 256 * unat hi + unat lo in
          if length rest < message_len then None else Some (take message_len rest, drop message_len rest)
      | _ \<Rightarrow> None)"

lemma next_message_shorter: "next_message data = Some (msg, rest) \<Longrightarrow> length rest < length data"
  by (auto simp: next_message_def Let_def split: list.splits if_splits)

function file_messages :: "u8 list \<Rightarrow> u8 list list" where
  "file_messages data = (case next_message data of None \<Rightarrow> [] | Some (msg, rest) \<Rightarrow> msg # file_messages rest)"
  by pat_completeness auto
termination by (relation "measure length", simp, metis in_measure next_message_shorter)

declare file_messages.simps [simp del]

text \<open>The stores of one round of the loop: the header, the payload, and last the status.\<close>

type_synonym store = "nat \<times> u8 list"

definition frame_stores :: "nat \<Rightarrow> u8 list \<Rightarrow> store list" where
  "frame_stores frame_idx msg =
     (let curr_frame = frame_idx * RX_FRAME_SIZE; tp_mac = 32 in
      [(curr_frame + 8, le_bytes 4 (length msg)),
       (curr_frame + 4, le_bytes 4 (length msg)),
       (curr_frame + 12, le_bytes 2 tp_mac),
       (curr_frame + 14, le_bytes 2 tp_mac),
       (curr_frame + tp_mac, msg),
       (curr_frame, le_bytes 4 (unat TP_STATUS_USER))])"

text \<open>A load of a status: the youngest store of the own buffer to it, or else memory.\<close>

definition load_status :: "store list \<Rightarrow> u8 list \<Rightarrow> nat \<Rightarrow> u32 option" where
  "load_status buf mem off =
     (case List.find (\<lambda>s. fst s = off) (rev buf) of
        Some s \<Rightarrow> Some (of_nat (le_nat (snd s)))
      | None \<Rightarrow> load32 mem off)"

datatype poll_pc = C_Poll | C_Frame | C_Return

text \<open>
  The state of both threads. The fields from \<open>rm_issued\<close> on are ghosts: how many frames the producer has filled, how many of
  these are visible, how many the poller has given back and how many of these are visible, and the
  bytes the handler was given.
\<close>

record 'h ring_machine =
  rm_mem :: "u8 list"
  rm_pbuf :: "store list"
  rm_cbuf :: "store list"
  rm_data :: "u8 list"
  rm_msg :: "u8 list option"
  rm_frame_idx :: nat
  rm_curr_frame_idx :: nat
  rm_total_packets :: u64
  rm_pc :: poll_pc
  rm_handler :: 'h
  rm_issued :: nat
  rm_published :: nat
  rm_consumed :: nat
  rm_released :: nat
  rm_handled :: "u8 list list"

definition start_ring :: "u8 list \<Rightarrow> 'h \<Rightarrow> 'h ring_machine" where
  "start_ring file_data h = \<lparr>rm_mem = replicate (RX_FRAME_NR * RX_FRAME_SIZE) 0, rm_pbuf = [], rm_cbuf = [], rm_data = file_data,
     rm_msg = None, rm_frame_idx = 0, rm_curr_frame_idx = 0, rm_total_packets = 0, rm_pc = C_Poll, rm_handler = h,
     rm_issued = 0, rm_published = 0, rm_consumed = 0, rm_released = 0, rm_handled = []\<rparr>"

text \<open>
  One access of a thread with the local computation that follows. The producer reads the next message; it waits until the
  frame is free (no step while it is not) and makes its stores, which reach memory one by one. The poller waits until the
  frame is full; it calls the handler with the position and the length from the header; and it gives the frame back.
\<close>

inductive ring_step :: "(u8 list \<Rightarrow> nat \<Rightarrow> int \<Rightarrow> 'h \<Rightarrow> 'h option) \<Rightarrow> 'h ring_machine \<Rightarrow> 'h ring_machine \<Rightarrow> bool"
  for parse_block where
  P_Next: "rm_msg m = None \<Longrightarrow> next_message (rm_data m) = Some (msg, rest) \<Longrightarrow>
    ring_step parse_block m (m\<lparr>rm_msg := Some msg, rm_data := rest\<rparr>)"
| P_Fill: "rm_msg m = Some msg \<Longrightarrow> load_status (rm_pbuf m) (rm_mem m) (rm_frame_idx m * RX_FRAME_SIZE) = Some status \<Longrightarrow>
    status AND TP_STATUS_USER = 0 \<Longrightarrow>
    ring_step parse_block m (m\<lparr>rm_msg := None, rm_pbuf := rm_pbuf m @ frame_stores (rm_frame_idx m) msg,
      rm_frame_idx := (rm_frame_idx m + 1) mod RX_FRAME_NR, rm_issued := rm_issued m + 1\<rparr>)"
| P_Flush: "rm_pbuf m = (off, bs) # buf \<Longrightarrow> mem_write (rm_mem m) off bs = Some mem \<Longrightarrow>
    ring_step parse_block m (m\<lparr>rm_pbuf := buf, rm_mem := mem,
      rm_published := rm_published m + (if off mod RX_FRAME_SIZE = 0 then 1 else 0)\<rparr>)"
| C_See: "rm_pc m = C_Poll \<Longrightarrow> load_status (rm_cbuf m) (rm_mem m) (rm_curr_frame_idx m * RX_FRAME_SIZE) = Some status \<Longrightarrow>
    status AND TP_STATUS_USER \<noteq> 0 \<Longrightarrow>
    ring_step parse_block m (m\<lparr>rm_pc := C_Frame\<rparr>)"
| C_Parse: "rm_pc m = C_Frame \<Longrightarrow> load16 (rm_mem m) (rm_curr_frame_idx m * RX_FRAME_SIZE + 14) = Some tp_net \<Longrightarrow>
    load32 (rm_mem m) (rm_curr_frame_idx m * RX_FRAME_SIZE + 8) = Some tp_snaplen \<Longrightarrow>
    parse_block (rm_mem m) (rm_curr_frame_idx m * RX_FRAME_SIZE + unat tp_net) (sint tp_snaplen) (rm_handler m) = Some h \<Longrightarrow>
    ring_step parse_block m (m\<lparr>rm_pc := C_Return, rm_handler := h, rm_handled := rm_handled m @
      [take (unat tp_snaplen) (drop (rm_curr_frame_idx m * RX_FRAME_SIZE + unat tp_net) (rm_mem m))]\<rparr>)"
| C_Give: "rm_pc m = C_Return \<Longrightarrow>
    ring_step parse_block m (m\<lparr>rm_pc := C_Poll,
      rm_cbuf := rm_cbuf m @ [(rm_curr_frame_idx m * RX_FRAME_SIZE, le_bytes 4 (unat TP_STATUS_KERNEL))],
      rm_curr_frame_idx := (rm_curr_frame_idx m + 1) mod RX_FRAME_NR, rm_total_packets := rm_total_packets m + 1,
      rm_consumed := rm_consumed m + 1\<rparr>)"
| C_Flush: "rm_cbuf m = (off, bs) # buf \<Longrightarrow> mem_write (rm_mem m) off bs = Some mem \<Longrightarrow>
    ring_step parse_block m (m\<lparr>rm_cbuf := buf, rm_mem := mem, rm_released := rm_released m + 1\<rparr>)"

section \<open>Stores and frames\<close>

definition mem_has :: "u8 list \<Rightarrow> store \<Rightarrow> bool" where
  "mem_has mem s \<longleftrightarrow> mem_read mem (fst s) (length (snd s)) = Some (snd s)"

definition apart :: "store \<Rightarrow> store \<Rightarrow> bool" where
  "apart s t \<longleftrightarrow> fst s + length (snd s) \<le> fst t \<or> fst t + length (snd t) \<le> fst s"

lemma mem_write_read:
  assumes "mem_write mem off bs = Some mem'"
  shows "mem_read mem' off (length bs) = Some bs"
    "o' + n \<le> off \<or> off + length bs \<le> o' \<Longrightarrow> mem_read mem' o' n = mem_read mem o' n"
proof -
  have b: "off + length bs \<le> length mem" "mem' = take off mem @ bs @ drop (off + length bs) mem"
    using assms by (auto simp: mem_write_def split: if_splits)
  then show "mem_read mem' off (length bs) = Some bs" by (simp add: mem_read_def)
  assume o: "o' + n \<le> off \<or> off + length bs \<le> o'"
  have l: "length mem' = length mem" using b by simp
  have "take n (drop o' mem') = take n (drop o' mem)"
  proof (rule nth_equalityI)
    fix i assume i: "i < length (take n (drop o' mem'))"
    then have "i < n" "o' + i < length mem" using l by auto
    then show "take n (drop o' mem') ! i = take n (drop o' mem) ! i"
      using o l mem_write_nth [OF assms, of "o' + i"] by auto
  qed (simp add: l)
  then show "mem_read mem' o' n = mem_read mem o' n" by (simp add: mem_read_def l)
qed

lemma mem_has_write: "mem_write mem (fst s) (snd s) = Some mem' \<Longrightarrow> mem_has mem' s"
  by (simp add: mem_has_def mem_write_read(1))

lemma mem_has_other: "mem_write mem (fst s) (snd s) = Some mem' \<Longrightarrow> apart s t \<Longrightarrow> mem_has mem' t \<longleftrightarrow> mem_has mem t"
  unfolding mem_has_def apart_def by (metis mem_write_read(2))

text \<open>The regions: a store lies in a frame, and the data stores lie behind the status word.\<close>

definition frame_fits :: "u8 list \<Rightarrow> bool" where
  "frame_fits msg \<longleftrightarrow> length msg \<le> 2016"

lemma length_frame_stores [simp]: "length (frame_stores j msg) = 6"
  by (simp add: frame_stores_def Let_def)

definition data_stores :: "nat \<Rightarrow> u8 list \<Rightarrow> store list" where
  "data_stores j msg = butlast (frame_stores j msg)"

definition status_store :: "nat \<Rightarrow> u32 \<Rightarrow> store" where
  "status_store j v = (j * RX_FRAME_SIZE, le_bytes 4 (unat v))"

lemma frame_stores_eq: "frame_stores j msg = data_stores j msg @ [status_store j TP_STATUS_USER]"
  by (simp add: data_stores_def frame_stores_def status_store_def Let_def)

lemma length_data_stores [simp]: "length (data_stores j msg) = 5"
  by (simp add: data_stores_def)

lemma data_store_region:
  "frame_fits msg \<Longrightarrow> s \<in> set (data_stores j msg) \<Longrightarrow>
     j * RX_FRAME_SIZE + 4 \<le> fst s \<and> fst s + length (snd s) \<le> j * RX_FRAME_SIZE + 2048 \<and> fst s < j * RX_FRAME_SIZE + 2048"
  by (auto simp: data_stores_def frame_stores_def Let_def frame_fits_def)

lemma frame_apart: "j \<noteq> j' \<Longrightarrow> a \<le> 2048 \<Longrightarrow> a' \<le> 2048 \<Longrightarrow>
   j * RX_FRAME_SIZE + a \<le> j' * RX_FRAME_SIZE \<or> j' * RX_FRAME_SIZE + a' \<le> j * RX_FRAME_SIZE"
  by (auto simp: RX_FRAME_SIZE_def)

lemma data_apart:
  assumes "frame_fits msg" "frame_fits msg'" "j \<noteq> j'" "s \<in> set (data_stores j msg)" "t \<in> set (data_stores j' msg')"
  shows "apart s t"
  using data_store_region [OF assms(1,4)] data_store_region [OF assms(2,5)] frame_apart [OF assms(3), of 2048 2048]
  unfolding apart_def by linarith

lemma data_status_apart:
  assumes "frame_fits msg" "s \<in> set (data_stores j msg)"
  shows "apart s (status_store j' v)" "apart (status_store j' v) s"
proof -
  note r = data_store_region [OF assms]
  show "apart s (status_store j' v)"
  proof (cases "j = j'")
    case False
    then show ?thesis using r frame_apart [OF False, of 2048 2048] by (auto simp: apart_def status_store_def)
  qed (use r in \<open>auto simp: apart_def status_store_def\<close>)
  then show "apart (status_store j' v) s" by (auto simp: apart_def)
qed

lemma status_apart: "j \<noteq> j' \<Longrightarrow> apart (status_store j v) (status_store j' v')"
  using frame_apart [of j j' 2048 2048] by (auto simp: apart_def status_store_def)

lemma data_stores_apart:
  assumes "i < 5" "i' < 5" "i \<noteq> i'"
  shows "apart (data_stores j msg ! i) (data_stores j msg ! i')"
proof -
  have "i \<in> {0, 1, 2, 3, 4}" "i' \<in> {0, 1, 2, 3, 4}" using assms(1,2) by auto
  then show ?thesis using assms(3) by (auto simp: data_stores_def frame_stores_def Let_def apart_def)
qed

section \<open>The invariant\<close>

lemma RX_FRAME_NR_pos [simp]: "0 < RX_FRAME_NR"
  by (simp add: RX_FRAME_NR_def RX_BLOCK_SIZE_def RX_BLOCK_NR_def RX_FRAME_SIZE_def)

text \<open>The frame, the data stores and the stores of the \<open>k\<close>-th message.\<close>

abbreviation slot :: "nat \<Rightarrow> nat" where
  "slot k \<equiv> k mod RX_FRAME_NR"

definition data_of :: "u8 list list \<Rightarrow> nat \<Rightarrow> store list" where
  "data_of ms k = data_stores (slot k) (ms ! k)"

definition stores_of :: "u8 list list \<Rightarrow> nat \<Rightarrow> store list" where
  "stores_of ms k = data_of ms k @ [status_store (slot k) TP_STATUS_USER]"

lemma length_data_of [simp]: "length (data_of ms k) = 5"
  by (simp add: data_of_def)

definition ring_counts :: "u8 list list \<Rightarrow> 'h ring_machine \<Rightarrow> bool" where
  "ring_counts ms m \<longleftrightarrow> rm_released m \<le> rm_consumed m \<and> rm_consumed m \<le> rm_published m \<and> rm_published m \<le> rm_issued m \<and>
     rm_issued m \<le> rm_released m + RX_FRAME_NR \<and> rm_issued m \<le> length ms \<and> (rm_pc m \<noteq> C_Poll \<longrightarrow> rm_consumed m < rm_published m) \<and>
     rm_frame_idx m = slot (rm_issued m) \<and> rm_curr_frame_idx m = slot (rm_consumed m) \<and>
     rm_handled m = take (rm_consumed m + (if rm_pc m = C_Return then 1 else 0)) ms"

definition ring_file :: "u8 list list \<Rightarrow> 'h ring_machine \<Rightarrow> bool" where
  "ring_file ms m \<longleftrightarrow> (case rm_msg m of None \<Rightarrow> [] | Some msg \<Rightarrow> [msg]) @ file_messages (rm_data m) = drop (rm_issued m) ms"

definition ring_bufs :: "u8 list list \<Rightarrow> nat \<Rightarrow> 'h ring_machine \<Rightarrow> bool" where
  "ring_bufs ms n m \<longleftrightarrow> rm_pbuf m = drop n (concat (map (stores_of ms) [rm_published m..<rm_issued m])) \<and>
     n \<le> (if rm_published m < rm_issued m then 5 else 0) \<and>
     (\<forall>i<n. mem_has (rm_mem m) (data_of ms (rm_published m) ! i)) \<and>
     rm_cbuf m = map (\<lambda>k. status_store (slot k) TP_STATUS_KERNEL) [rm_released m..<rm_consumed m]"

definition full_in :: "nat \<Rightarrow> nat \<Rightarrow> nat \<Rightarrow> bool" where
  "full_in a b j \<longleftrightarrow> (\<exists>k\<in>{a..<b}. slot k = j)"

definition ring_mem :: "u8 list list \<Rightarrow> 'h ring_machine \<Rightarrow> bool" where
  "ring_mem ms m \<longleftrightarrow> length (rm_mem m) = RX_FRAME_NR * RX_FRAME_SIZE \<and>
     (\<forall>j<RX_FRAME_NR. mem_has (rm_mem m)
        (status_store j (if full_in (rm_released m) (rm_published m) j then TP_STATUS_USER else TP_STATUS_KERNEL))) \<and>
     (\<forall>k\<in>{rm_consumed m..<rm_published m}. \<forall>s\<in>set (data_of ms k). mem_has (rm_mem m) s)"

definition ring_inv :: "u8 list list \<Rightarrow> 'h ring_machine \<Rightarrow> bool" where
  "ring_inv ms m \<longleftrightarrow> ring_counts ms m \<and> ring_file ms m \<and> (\<exists>n. ring_bufs ms n m) \<and> ring_mem ms m"

lemma load32_status: "mem_has mem (status_store j v) \<Longrightarrow> load32 mem (j * RX_FRAME_SIZE) = Some v"
  using unsigned_less [where w = v and 'a = nat] by (simp add: mem_has_def status_store_def load32_def le_nat_le_bytes)

lemma load_status_buf:
  assumes "\<forall>s\<in>set buf. fst s = off \<longrightarrow> snd s = bs"
  shows "load_status buf mem off = (if \<exists>s\<in>set buf. fst s = off then Some (of_nat (le_nat bs)) else load32 mem off)"
proof (cases "List.find (\<lambda>s. fst s = off) (rev buf)")
  case None
  then have "\<not> (\<exists>s\<in>set buf. fst s = off)" by (auto simp: find_None_iff)
  then show ?thesis using None by (simp add: load_status_def)
next
  case (Some s)
  then obtain i where "i < length (rev buf)" "fst (rev buf ! i) = off" "s = rev buf ! i" unfolding find_Some_iff by blast
  then have "s \<in> set buf" "fst s = off" using nth_mem [of i "rev buf"] by simp_all
  then show ?thesis using assms Some by (auto simp: load_status_def)
qed

lemma slot_inj: "k \<le> k' \<Longrightarrow> k' < k + RX_FRAME_NR \<Longrightarrow> slot k = slot k' \<longleftrightarrow> k = k'"
  by (rule mod_window_eq)

lemma slot_differs: "k < k' + RX_FRAME_NR \<Longrightarrow> k' < k + RX_FRAME_NR \<Longrightarrow> k \<noteq> k' \<Longrightarrow> slot k \<noteq> slot k'"
  using slot_inj [of k k'] slot_inj [of k' k] by (cases "k \<le> k'") auto

text \<open>The buffer of the producer, taken apart at its first frame.\<close>

lemma pbuf_split:
  assumes "ring_bufs ms n m" "rm_published m < rm_issued m"
  shows "rm_pbuf m = drop n (data_of ms (rm_published m)) @ status_store (slot (rm_published m)) TP_STATUS_USER #
    concat (map (stores_of ms) [Suc (rm_published m)..<rm_issued m])"
  using assms by (simp add: ring_bufs_def upt_conv_Cons stores_of_def)

lemma pbuf_empty: "ring_bufs ms n m \<Longrightarrow> \<not> rm_published m < rm_issued m \<Longrightarrow> rm_pbuf m = []"
  by (simp add: ring_bufs_def)

lemma status_in_pbuf:
  assumes "ring_bufs ms n m" "rm_published m \<le> k" "k < rm_issued m"
  shows "status_store (slot k) TP_STATUS_USER \<in> set (rm_pbuf m)"
proof (cases "k = rm_published m")
  case False
  then have "k \<in> set [Suc (rm_published m)..<rm_issued m]" using assms(2,3) by simp
  then show ?thesis using pbuf_split [OF assms(1)] assms(2,3) by (auto simp: stores_of_def)
qed (use pbuf_split [OF assms(1)] assms(3) in simp)

lemma pbuf_stores:
  assumes "ring_bufs ms n m" "s \<in> set (rm_pbuf m)"
  obtains k where "rm_published m \<le> k" "k < rm_issued m" "s \<in> set (data_of ms k) \<or> s = status_store (slot k) TP_STATUS_USER"
proof -
  have "s \<in> set (concat (map (stores_of ms) [rm_published m..<rm_issued m]))"
    using assms in_set_dropD [of s n] by (simp only: ring_bufs_def)
  then obtain k where "k \<in> set [rm_published m..<rm_issued m]" "s \<in> set (stores_of ms k)" by auto
  then show ?thesis using that [of k] by (auto simp: stores_of_def)
qed

lemma data_of_region:
  assumes "list_all frame_fits ms" "k < length ms" "s \<in> set (data_of ms k)"
  shows "slot k * RX_FRAME_SIZE + 4 \<le> fst s" "fst s + length (snd s) \<le> slot k * RX_FRAME_SIZE + 2048"
    "fst s < slot k * RX_FRAME_SIZE + 2048"
  using data_store_region [of "ms ! k" s "slot k"] assms by (auto simp: data_of_def list_all_length)

lemma data_of_off:
  assumes "list_all frame_fits ms" "k < length ms" "s \<in> set (data_of ms k)"
  shows "fst s mod RX_FRAME_SIZE \<noteq> 0"
proof -
  define d where "d = fst s - slot k * RX_FRAME_SIZE"
  then have "fst s = slot k * RX_FRAME_SIZE + d" "4 \<le> d" "d < 2048" using data_of_region [OF assms] by linarith+
  then show ?thesis by (simp add: RX_FRAME_SIZE_def)
qed

section \<open>What the threads see\<close>

lemma le_status: "(of_nat (le_nat (le_bytes 4 (unat (v :: u32)))) :: u32) = v"
  using unsigned_less [where w = v and 'a = nat] by (simp add: le_nat_le_bytes)

lemma full_in_split: "a \<le> b \<Longrightarrow> b \<le> c \<Longrightarrow> full_in a c j \<longleftrightarrow> full_in a b j \<or> full_in b c j"
  by (force simp: full_in_def)

lemma load_status_producer:
  assumes "ring_counts ms m" "ring_bufs ms n m" "ring_mem ms m" "list_all frame_fits ms" "j < RX_FRAME_NR"
  shows "load_status (rm_pbuf m) (rm_mem m) (j * RX_FRAME_SIZE) =
    Some (if full_in (rm_released m) (rm_issued m) j then TP_STATUS_USER else TP_STATUS_KERNEL)"
proof -
  note c = assms(1) [unfolded ring_counts_def]
  have st: "fst s = j * RX_FRAME_SIZE \<longrightarrow> (\<exists>k. rm_published m \<le> k \<and> k < rm_issued m \<and> slot k = j \<and> s = status_store j TP_STATUS_USER)"
    if s: "s \<in> set (rm_pbuf m)" for s
  proof -
    obtain k where k: "rm_published m \<le> k" "k < rm_issued m" "s \<in> set (data_of ms k) \<or> s = status_store (slot k) TP_STATUS_USER"
      using pbuf_stores [OF assms(2) s] by blast
    have "fst s \<noteq> j * RX_FRAME_SIZE" if "s \<in> set (data_of ms k)"
      using data_of_off [OF assms(4) _ that] k(2) c by auto
    then show ?thesis using k by (auto simp: status_store_def RX_FRAME_SIZE_def)
  qed
  then have "(\<exists>s\<in>set (rm_pbuf m). fst s = j * RX_FRAME_SIZE) \<longleftrightarrow> full_in (rm_published m) (rm_issued m) j"
    using status_in_pbuf [OF assms(2)] by (force simp: full_in_def status_store_def)
  moreover have v: "\<forall>s\<in>set (rm_pbuf m). fst s = j * RX_FRAME_SIZE \<longrightarrow> snd s = le_bytes 4 (unat TP_STATUS_USER)"
  proof (intro ballI impI)
    fix s assume "s \<in> set (rm_pbuf m)" "fst s = j * RX_FRAME_SIZE"
    then have "s = status_store j TP_STATUS_USER" using st by blast
    then show "snd s = le_bytes 4 (unat TP_STATUS_USER)" by (simp add: status_store_def)
  qed
  moreover have "load32 (rm_mem m) (j * RX_FRAME_SIZE) =
      Some (if full_in (rm_released m) (rm_published m) j then TP_STATUS_USER else TP_STATUS_KERNEL)"
    using assms(3,5) load32_status by (simp add: ring_mem_def)
  moreover have "full_in (rm_released m) (rm_issued m) j \<longleftrightarrow>
      full_in (rm_released m) (rm_published m) j \<or> full_in (rm_published m) (rm_issued m) j"
    using c by (intro full_in_split) auto
  ultimately show ?thesis by (simp add: load_status_buf [OF v] le_status)
qed

lemma load_status_poller:
  assumes "ring_counts ms m" "ring_bufs ms n m" "ring_mem ms m" "j < RX_FRAME_NR"
  shows "load_status (rm_cbuf m) (rm_mem m) (j * RX_FRAME_SIZE) =
    Some (if \<not> full_in (rm_released m) (rm_consumed m) j \<and> full_in (rm_consumed m) (rm_published m) j
          then TP_STATUS_USER else TP_STATUS_KERNEL)"
proof -
  note c = assms(1) [unfolded ring_counts_def]
  have cb: "rm_cbuf m = map (\<lambda>k. status_store (slot k) TP_STATUS_KERNEL) [rm_released m..<rm_consumed m]"
    using assms(2) by (simp add: ring_bufs_def)
  have "(\<exists>s\<in>set (rm_cbuf m). fst s = j * RX_FRAME_SIZE) \<longleftrightarrow> full_in (rm_released m) (rm_consumed m) j"
    by (auto simp: cb full_in_def status_store_def RX_FRAME_SIZE_def)
  moreover have v: "\<forall>s\<in>set (rm_cbuf m). fst s = j * RX_FRAME_SIZE \<longrightarrow> snd s = le_bytes 4 (unat TP_STATUS_KERNEL)"
    by (auto simp: cb status_store_def)
  moreover have "load32 (rm_mem m) (j * RX_FRAME_SIZE) =
      Some (if full_in (rm_released m) (rm_published m) j then TP_STATUS_USER else TP_STATUS_KERNEL)"
    using assms(3,4) load32_status by (simp add: ring_mem_def)
  moreover have "full_in (rm_released m) (rm_published m) j \<longleftrightarrow>
      full_in (rm_released m) (rm_consumed m) j \<or> full_in (rm_consumed m) (rm_published m) j"
    using c by (intro full_in_split) auto
  ultimately show ?thesis by (simp add: load_status_buf [OF v] le_status)
qed

lemma user_bit: "v \<in> {TP_STATUS_USER, TP_STATUS_KERNEL} \<Longrightarrow> v AND TP_STATUS_USER = 0 \<longleftrightarrow> v = TP_STATUS_KERNEL"
  by (auto simp: TP_STATUS_USER_def TP_STATUS_KERNEL_def)

lemma status_distinct [simp]: "TP_STATUS_USER \<noteq> TP_STATUS_KERNEL" "TP_STATUS_KERNEL \<noteq> TP_STATUS_USER"
  by (simp_all add: TP_STATUS_USER_def TP_STATUS_KERNEL_def)

text \<open>A free frame for the producer: the ring is not full.\<close>

lemma fill_room:
  assumes "ring_counts ms m" "ring_bufs ms n m" "ring_mem ms m" "list_all frame_fits ms"
  shows "load_status (rm_pbuf m) (rm_mem m) (rm_frame_idx m * RX_FRAME_SIZE) = Some v \<Longrightarrow> v AND TP_STATUS_USER = 0 \<longleftrightarrow>
    rm_issued m < rm_released m + RX_FRAME_NR"
proof -
  note c = assms(1) [unfolded ring_counts_def]
  have j: "rm_frame_idx m < RX_FRAME_NR" using c by simp
  have "full_in (rm_released m) (rm_issued m) (rm_frame_idx m) \<longleftrightarrow> rm_issued m = rm_released m + RX_FRAME_NR"
  proof
    assume "full_in (rm_released m) (rm_issued m) (rm_frame_idx m)"
    then obtain k where "rm_released m \<le> k" "k < rm_issued m" "slot k = slot (rm_issued m)" using c by (auto simp: full_in_def)
    then show "rm_issued m = rm_released m + RX_FRAME_NR" using slot_inj [of k "rm_issued m"] c by linarith
  next
    assume i: "rm_issued m = rm_released m + RX_FRAME_NR"
    have "rm_released m \<in> {rm_released m..<rm_issued m}" "slot (rm_released m) = rm_frame_idx m" using c i by simp_all
    then show "full_in (rm_released m) (rm_issued m) (rm_frame_idx m)" unfolding full_in_def by blast
  qed
  moreover assume "load_status (rm_pbuf m) (rm_mem m) (rm_frame_idx m * RX_FRAME_SIZE) = Some v"
  ultimately show "v AND TP_STATUS_USER = 0 \<longleftrightarrow> rm_issued m < rm_released m + RX_FRAME_NR"
    using load_status_producer [OF assms j] user_bit [of v] c by (auto split: if_splits)
qed

text \<open>A full frame for the poller: the next message is visible.\<close>

lemma see_full:
  assumes "ring_counts ms m" "ring_bufs ms n m" "ring_mem ms m"
  shows "load_status (rm_cbuf m) (rm_mem m) (rm_curr_frame_idx m * RX_FRAME_SIZE) = Some v \<Longrightarrow> v AND TP_STATUS_USER \<noteq> 0 \<Longrightarrow>
    rm_consumed m < rm_published m"
    "rm_cbuf m = [] \<Longrightarrow> rm_consumed m < rm_published m \<Longrightarrow>
      load_status (rm_cbuf m) (rm_mem m) (rm_curr_frame_idx m * RX_FRAME_SIZE) = Some TP_STATUS_USER"
proof -
  note c = assms(1) [unfolded ring_counts_def]
  have j: "rm_curr_frame_idx m < RX_FRAME_NR" using c by simp
  note l = load_status_poller [OF assms j]
  show "rm_consumed m < rm_published m"
    if "load_status (rm_cbuf m) (rm_mem m) (rm_curr_frame_idx m * RX_FRAME_SIZE) = Some v" "v AND TP_STATUS_USER \<noteq> 0"
    using that l user_bit [of v] by (auto simp: full_in_def split: if_splits)
  assume e: "rm_cbuf m = []" "rm_consumed m < rm_published m"
  then have "rm_released m = rm_consumed m" using assms(2) c by (auto simp: ring_bufs_def)
  moreover have "full_in (rm_consumed m) (rm_published m) (rm_curr_frame_idx m)"
    unfolding full_in_def using e(2) c by (intro bexI [of _ "rm_consumed m"]) simp_all
  ultimately show "load_status (rm_cbuf m) (rm_mem m) (rm_curr_frame_idx m * RX_FRAME_SIZE) = Some TP_STATUS_USER"
    using l by (simp add: full_in_def)
qed

text \<open>The frame of a visible message that is not given back holds its header and its bytes.\<close>

lemma frame_read:
  assumes "ring_mem ms m" "rm_consumed m \<le> k" "k < rm_published m" "frame_fits (ms ! k)"
  shows "load16 (rm_mem m) (slot k * RX_FRAME_SIZE + 14) = Some 32"
    "load32 (rm_mem m) (slot k * RX_FRAME_SIZE + 8) = Some (of_nat (length (ms ! k)))"
    "mem_read (rm_mem m) (slot k * RX_FRAME_SIZE + 32) (length (ms ! k)) = Some (ms ! k)"
proof -
  have h: "\<forall>s\<in>set (data_of ms k). mem_has (rm_mem m) s" using assms(1-3) by (simp add: ring_mem_def)
  have b: "mem_read (rm_mem m) (slot k * RX_FRAME_SIZE + 14) 2 = Some (le_bytes 2 32)"
    "mem_read (rm_mem m) (slot k * RX_FRAME_SIZE + 8) 4 = Some (le_bytes 4 (length (ms ! k)))"
    and "mem_read (rm_mem m) (slot k * RX_FRAME_SIZE + 32) (length (ms ! k)) = Some (ms ! k)"
    using h by (simp_all add: data_of_def data_stores_def frame_stores_def Let_def mem_has_def)
  then show "mem_read (rm_mem m) (slot k * RX_FRAME_SIZE + 32) (length (ms ! k)) = Some (ms ! k)" by simp
  show "load16 (rm_mem m) (slot k * RX_FRAME_SIZE + 14) = Some 32" by (simp add: load16_def b(1) le_nat_le_bytes)
  have "length (ms ! k) < 4294967296" using assms(4) by (simp add: frame_fits_def)
  then show "load32 (rm_mem m) (slot k * RX_FRAME_SIZE + 8) = Some (of_nat (length (ms ! k)))"
    by (simp add: load32_def b(2) le_nat_le_bytes)
qed

lemma small_length: "frame_fits msg \<Longrightarrow> unat (of_nat (length msg) :: u32) = length msg \<and> sint (of_nat (length msg) :: u32) = int (length msg)"
proof -
  assume f: "frame_fits msg"
  then have u: "unat (of_nat (length msg) :: u32) = length msg" by (simp add: frame_fits_def unat_of_nat take_bit_nat_eq_self)
  have "sint (of_nat (length msg) :: u32) = int (length msg)"
    using f by (simp add: frame_fits_def signed_of_nat signed_take_bit_int_eq_self)
  then show ?thesis using u by blast
qed

section \<open>Every step keeps the invariant\<close>

lemma fill_inv:
  assumes "ring_inv ms m" "list_all frame_fits ms" "rm_msg m = Some msg"
    and "load_status (rm_pbuf m) (rm_mem m) (rm_frame_idx m * RX_FRAME_SIZE) = Some v" "v AND TP_STATUS_USER = 0"
  shows "ring_inv ms (m\<lparr>rm_msg := None, rm_pbuf := rm_pbuf m @ frame_stores (rm_frame_idx m) msg,
      rm_frame_idx := (rm_frame_idx m + 1) mod RX_FRAME_NR, rm_issued := rm_issued m + 1\<rparr>)" (is "ring_inv ms ?m")
proof -
  obtain n where inv: "ring_counts ms m" "ring_file ms m" "ring_bufs ms n m" "ring_mem ms m" using assms(1) by (auto simp: ring_inv_def)
  have room: "rm_issued m < rm_released m + RX_FRAME_NR" using fill_room [OF inv(1,3,4) assms(2,4)] assms(5) by simp
  have d: "drop (rm_issued m) ms = msg # file_messages (rm_data m)" using inv(2) assms(3) by (simp add: ring_file_def)
  then have i: "rm_issued m < length ms" by (metis drop_eq_Nil list.distinct(1) not_le)
  then have e: "msg = ms ! rm_issued m" "file_messages (rm_data m) = drop (Suc (rm_issued m)) ms"
    using d Cons_nth_drop_Suc [OF i] by auto
  have "ring_counts ms ?m" using inv(1) room i by (auto simp: ring_counts_def mod_Suc_eq)
  moreover have "ring_file ms ?m" using e(2) by (simp add: ring_file_def)
  moreover have "ring_bufs ms n ?m"
  proof -
    have "n \<le> length (concat (map (stores_of ms) [rm_published m..<rm_issued m]))"
      using inv(3) by (auto simp: ring_bufs_def stores_of_def upt_conv_Cons split: if_splits)
    then show ?thesis
      using inv(1,3) by (auto simp: ring_bufs_def ring_counts_def stores_of_def data_of_def frame_stores_eq e(1) split: if_splits)
  qed
  moreover have "ring_mem ms ?m" using inv(4) by (simp add: ring_mem_def)
  ultimately show ?thesis by (auto simp: ring_inv_def)
qed

lemma data_of_apart:
  assumes "list_all frame_fits ms" "k < length ms" "k' < length ms" "slot k \<noteq> slot k'" "s \<in> set (data_of ms k)" "t \<in> set (data_of ms k')"
  shows "apart s t"
  using data_apart [of "ms ! k" "ms ! k'" "slot k" "slot k'" s t] assms by (auto simp: data_of_def list_all_length)

lemma data_of_status_apart:
  assumes "list_all frame_fits ms" "k < length ms" "s \<in> set (data_of ms k)"
  shows "apart s (status_store j v)" "apart (status_store j v) s"
  using data_status_apart [of "ms ! k" s "slot k" j v] assms by (auto simp: data_of_def list_all_length)

text \<open>The next store of the producer that reaches memory.\<close>

lemma pbuf_head:
  assumes "ring_bufs ms n m" "rm_pbuf m = s # buf"
  shows "rm_published m < rm_issued m" "n \<le> 5"
    "s = (if n < 5 then data_of ms (rm_published m) ! n else status_store (slot (rm_published m)) TP_STATUS_USER)"
    "buf = (if n < 5 then drop (Suc n) (concat (map (stores_of ms) [rm_published m..<rm_issued m]))
            else concat (map (stores_of ms) [Suc (rm_published m)..<rm_issued m]))"
proof -
  show p: "rm_published m < rm_issued m" using pbuf_empty [OF assms(1)] assms(2) by fastforce
  show n: "n \<le> 5" using assms(1) p by (simp add: ring_bufs_def)
  note sp = pbuf_split [OF assms(1) p]
  show "s = (if n < 5 then data_of ms (rm_published m) ! n else status_store (slot (rm_published m)) TP_STATUS_USER)"
    using sp assms(2) n by (auto simp: Cons_nth_drop_Suc [symmetric])
  have "buf = drop (Suc n) (concat (map (stores_of ms) [rm_published m..<rm_issued m]))"
    using assms by (metis drop_Suc list.sel(3) ring_bufs_def tl_drop)
  then show "buf = (if n < 5 then drop (Suc n) (concat (map (stores_of ms) [rm_published m..<rm_issued m]))
            else concat (map (stores_of ms) [Suc (rm_published m)..<rm_issued m]))"
    using p n by (simp add: upt_conv_Cons stores_of_def)
qed

lemma flush_data:
  assumes "ring_counts ms m" "ring_mem ms m" "list_all frame_fits ms" "rm_published m < rm_issued m"
    and "s \<in> set (data_of ms (rm_published m))" "mem_write (rm_mem m) (fst s) (snd s) = Some mem"
  shows "ring_mem ms (m\<lparr>rm_pbuf := buf, rm_mem := mem\<rparr>)"
proof -
  note c = assms(1) [unfolded ring_counts_def]
  have F: "rm_published m < length ms" using c assms(4) by linarith
  have "mem_has mem t \<longleftrightarrow> mem_has (rm_mem m) t" if "k \<in> {rm_consumed m..<rm_published m}" "t \<in> set (data_of ms k)" for k t
  proof -
    have "k < rm_published m" "rm_published m < k + RX_FRAME_NR" "k < length ms" using that(1) c assms(4) by auto
    then have "slot (rm_published m) \<noteq> slot k" using slot_inj [of k "rm_published m"] by auto
    then show ?thesis using mem_has_other [OF assms(6)] data_of_apart [OF assms(3) F \<open>k < length ms\<close> _ assms(5) that(2)] by blast
  qed
  moreover have "mem_has mem (status_store j v) \<longleftrightarrow> mem_has (rm_mem m) (status_store j v)" for j v
    using mem_has_other [OF assms(6)] data_of_status_apart [OF assms(3) F assms(5)] by blast
  ultimately show ?thesis using assms(2) mem_write_length [OF assms(6)] by (simp add: ring_mem_def)
qed

lemma flush_status:
  assumes "ring_counts ms m" "ring_bufs ms 5 m" "ring_mem ms m" "list_all frame_fits ms" "rm_published m < rm_issued m"
    and "s = status_store (slot (rm_published m)) TP_STATUS_USER" "mem_write (rm_mem m) (fst s) (snd s) = Some mem"
  shows "ring_mem ms (m\<lparr>rm_pbuf := buf, rm_mem := mem, rm_published := Suc (rm_published m)\<rparr>)"
proof -
  note c = assms(1) [unfolded ring_counts_def]
  let ?F = "rm_published m"
  have "mem_has mem t" if k: "k \<in> {rm_consumed m..<Suc ?F}" and t: "t \<in> set (data_of ms k)" for k t
  proof -
    have "mem_has (rm_mem m) t"
    proof (cases "k = ?F")
      case True
      then show ?thesis using assms(2) t by (auto simp: ring_bufs_def in_set_conv_nth)
    qed (use assms(3) k t in \<open>auto simp: ring_mem_def\<close>)
    moreover have "apart s t" using data_of_status_apart [OF assms(4) _ t] k c assms(5,6) by auto
    ultimately show ?thesis using mem_has_other [OF assms(7)] by blast
  qed
  moreover have "mem_has mem (status_store j (if full_in (rm_released m) (Suc ?F) j then TP_STATUS_USER else TP_STATUS_KERNEL))"
    if j: "j < RX_FRAME_NR" for j
  proof (cases "j = slot ?F")
    case True
    then have "full_in (rm_released m) (Suc ?F) j" unfolding full_in_def using c by (intro bexI [of _ ?F]) auto
    then show ?thesis using mem_has_write [OF assms(7)] assms(6) True by simp
  next
    case False
    then have "full_in (rm_released m) (Suc ?F) j \<longleftrightarrow> full_in (rm_released m) ?F j" by (auto simp: full_in_def less_Suc_eq)
    then show ?thesis
      using mem_has_other [OF assms(7)] status_apart [of "slot ?F" j] False assms(3,6) j by (simp add: ring_mem_def)
  qed
  ultimately show ?thesis using assms(3) mem_write_length [OF assms(7)] by (simp add: ring_mem_def)
qed

lemma flush_inv:
  assumes "ring_inv ms m" "list_all frame_fits ms" "rm_pbuf m = (off, bs) # buf" "mem_write (rm_mem m) off bs = Some mem"
  shows "ring_inv ms (m\<lparr>rm_pbuf := buf, rm_mem := mem,
      rm_published := rm_published m + (if off mod RX_FRAME_SIZE = 0 then 1 else 0)\<rparr>)" (is "ring_inv ms ?m")
proof -
  obtain n where inv: "ring_counts ms m" "ring_file ms m" "ring_bufs ms n m" "ring_mem ms m" using assms(1) by (auto simp: ring_inv_def)
  note h = pbuf_head [OF inv(3) assms(3)]
  have w: "mem_write (rm_mem m) (fst (off, bs)) (snd (off, bs)) = Some mem" using assms(4) by simp
  have F: "rm_published m < length ms" using h(1) inv(1) by (simp add: ring_counts_def)
  have m: "ring_file ms ?m" using inv(2) by (simp add: ring_file_def)
  show ?thesis
  proof (cases "n < 5")
    case True
    then have s: "(off, bs) \<in> set (data_of ms (rm_published m))" using h(3) by (simp only: if_True) simp
    have o: "off mod RX_FRAME_SIZE \<noteq> 0" using data_of_off [OF assms(2) F s] by simp
    have "mem_has mem (data_of ms (rm_published m) ! i)" if "i < Suc n" for i
    proof (cases "i = n")
      case True
      then show ?thesis using mem_has_write [OF w] h(3) \<open>n < 5\<close> by simp
    next
      case False
      then have "apart (off, bs) (data_of ms (rm_published m) ! i)"
        using data_stores_apart [of n i] that True h(3) by (simp add: data_of_def)
      then show ?thesis using mem_has_other [OF w] inv(3) that False by (simp add: ring_bufs_def)
    qed
    then have "ring_bufs ms (Suc n) ?m" using inv(3) h(1,4) True o by (simp add: ring_bufs_def)
    moreover have "ring_counts ms ?m" using inv(1) o by (simp add: ring_counts_def)
    moreover have "ring_mem ms ?m" using flush_data [OF inv(1,4) assms(2) h(1) s w, of buf] o by (simp add: ring_mem_def)
    ultimately show ?thesis using m by (auto simp: ring_inv_def)
  next
    case False
    then have n: "n = 5" using h(2) by simp
    have s: "(off, bs) = status_store (slot (rm_published m)) TP_STATUS_USER" using h(3) False by simp
    have o: "off mod RX_FRAME_SIZE = 0" using s by (simp add: status_store_def)
    have "ring_counts ms ?m" using inv(1) h(1) o by (auto simp: ring_counts_def)
    moreover have "ring_bufs ms 0 ?m" using inv(3) h(4) False o by (simp add: ring_bufs_def)
    moreover have "ring_mem ms ?m"
      using flush_status [OF inv(1) inv(3) [unfolded n] inv(4) assms(2) h(1) s w, of buf] o by (simp add: ring_mem_def)
    ultimately show ?thesis using m by (auto simp: ring_inv_def)
  qed
qed

lemma release_inv:
  assumes "ring_inv ms m" "list_all frame_fits ms" "rm_cbuf m = (off, bs) # buf" "mem_write (rm_mem m) off bs = Some mem"
  shows "ring_inv ms (m\<lparr>rm_cbuf := buf, rm_mem := mem, rm_released := rm_released m + 1\<rparr>)" (is "ring_inv ms ?m")
proof -
  obtain n where inv: "ring_counts ms m" "ring_file ms m" "ring_bufs ms n m" "ring_mem ms m" using assms(1) by (auto simp: ring_inv_def)
  note c = inv(1) [unfolded ring_counts_def]
  let ?R = "rm_released m"
  have cb: "rm_cbuf m = map (\<lambda>k. status_store (slot k) TP_STATUS_KERNEL) [?R..<rm_consumed m]" using inv(3) by (simp add: ring_bufs_def)
  then have R: "?R < rm_consumed m" using assms(3) by (cases "?R < rm_consumed m") auto
  then have s: "(off, bs) = status_store (slot ?R) TP_STATUS_KERNEL"
    "buf = map (\<lambda>k. status_store (slot k) TP_STATUS_KERNEL) [Suc ?R..<rm_consumed m]"
    using cb assms(3) by (simp_all add: upt_conv_Cons)
  have w: "mem_write (rm_mem m) (fst (off, bs)) (snd (off, bs)) = Some mem" using assms(4) by simp
  have d: "mem_has mem t \<longleftrightarrow> mem_has (rm_mem m) t" if "k < length ms" "t \<in> set (data_of ms k)" for k t
    using mem_has_other [OF w] data_of_status_apart(2) [OF assms(2) that] unfolding s(1) by blast
  have "mem_has mem (status_store j (if full_in (Suc ?R) (rm_published m) j then TP_STATUS_USER else TP_STATUS_KERNEL))"
    if j: "j < RX_FRAME_NR" for j
  proof (cases "j = slot ?R")
    case True
    have "slot k \<noteq> slot ?R" if "k \<in> {Suc ?R..<rm_published m}" for k
    proof -
      have "?R < k" "k < ?R + RX_FRAME_NR" using that c by auto
      then show ?thesis using slot_inj [of ?R k] by auto
    qed
    then have "\<not> full_in (Suc ?R) (rm_published m) j" using True by (auto simp: full_in_def)
    then show ?thesis using mem_has_write [OF w] True unfolding s(1) by simp
  next
    case False
    have "full_in (Suc ?R) (rm_published m) j \<longleftrightarrow> full_in ?R (rm_published m) j"
      using False full_in_split [of ?R "Suc ?R" "rm_published m" j] R c by (auto simp: full_in_def)
    then show ?thesis
      using mem_has_other [OF w] status_apart [of "slot ?R" j] False inv(4) j unfolding s(1) by (simp add: ring_mem_def)
  qed
  moreover have "mem_has mem t" if "k \<in> {rm_consumed m..<rm_published m}" "t \<in> set (data_of ms k)" for k t
  proof -
    have "k < length ms" using that(1) c by auto
    then show ?thesis using d that inv(4) by (auto simp: ring_mem_def)
  qed
  ultimately have "ring_mem ms ?m" using inv(4) mem_write_length [OF w] by (simp add: ring_mem_def)
  moreover have "ring_bufs ms n ?m"
  proof -
    have "mem_has mem (data_of ms (rm_published m) ! i)" if "i < n" for i
      using d [of "rm_published m" "data_of ms (rm_published m) ! i"] that inv(3) c by (auto simp: ring_bufs_def split: if_splits)
    then show ?thesis using inv(3) s(2) by (simp add: ring_bufs_def)
  qed
  moreover have "ring_counts ms ?m" using c R by (auto simp: ring_counts_def)
  moreover have "ring_file ms ?m" using inv(2) by (simp add: ring_file_def)
  ultimately show ?thesis by (auto simp: ring_inv_def)
qed

lemma ring_step_inv:
  assumes "ring_step parse_block m m'" "ring_inv ms m" "list_all frame_fits ms"
  shows "ring_inv ms m'"
  using assms
proof (induction rule: ring_step.induct)
  case (P_Next m msg rest)
  have "file_messages (rm_data m) = msg # file_messages rest" using P_Next.hyps(2) by (simp add: file_messages.simps [of "rm_data m"])
  then show ?case using P_Next by (simp add: ring_inv_def ring_counts_def ring_file_def ring_bufs_def ring_mem_def)
next
  case (C_See m status)
  then obtain n where "ring_counts ms m" "ring_bufs ms n m" "ring_mem ms m" by (auto simp: ring_inv_def)
  then have "rm_consumed m < rm_published m" using see_full(1) C_See.hyps(2,3) by blast
  then show ?case using C_See by (simp add: ring_inv_def ring_counts_def ring_file_def ring_bufs_def ring_mem_def)
next
  case (C_Parse m tp_net tp_snaplen h)
  have i: "ring_counts ms m" "ring_mem ms m" using C_Parse.prems(1) by (simp_all add: ring_inv_def)
  note c = i(1) [unfolded ring_counts_def]
  let ?C = "rm_consumed m"
  have C: "?C < rm_published m" "?C < length ms" using c C_Parse.hyps(1) by auto
  then have f: "frame_fits (ms ! ?C)" using C_Parse.prems(2) by (simp add: list_all_length)
  note r = frame_read [OF i(2) order_refl C(1) f]
  have "take (unat tp_snaplen) (drop (rm_curr_frame_idx m * RX_FRAME_SIZE + unat tp_net) (rm_mem m)) = ms ! ?C"
    using r C_Parse.hyps(2,3) c small_length [OF f] by (auto simp: mem_read_def split: if_splits)
  then show ?case
    using C_Parse.prems(1) C_Parse.hyps(1) C by (simp add: ring_inv_def ring_counts_def ring_file_def ring_bufs_def ring_mem_def take_Suc_conv_app_nth)
next
  case (C_Give m)
  let ?m = "m\<lparr>rm_pc := C_Poll,
      rm_cbuf := rm_cbuf m @ [(rm_curr_frame_idx m * RX_FRAME_SIZE, le_bytes 4 (unat TP_STATUS_KERNEL))],
      rm_curr_frame_idx := (rm_curr_frame_idx m + 1) mod RX_FRAME_NR, rm_total_packets := rm_total_packets m + 1,
      rm_consumed := rm_consumed m + 1\<rparr>"
  obtain n where inv: "ring_counts ms m" "ring_file ms m" "ring_bufs ms n m" "ring_mem ms m" using C_Give.prems(1) by (auto simp: ring_inv_def)
  have "ring_counts ms ?m" using inv(1) C_Give.hyps by (auto simp: ring_counts_def mod_Suc_eq)
  moreover have "ring_bufs ms n ?m"
    using inv(1,3) by (auto simp: ring_bufs_def ring_counts_def status_store_def)
  moreover have "ring_file ms ?m" "ring_mem ms ?m" using inv(2,4) by (auto simp: ring_file_def ring_mem_def)
  ultimately show ?case by (auto simp: ring_inv_def)
qed (simp_all only: fill_inv flush_inv release_inv)

lemma ring_steps_inv: "(ring_step parse_block)\<^sup>*\<^sup>* m m' \<Longrightarrow> ring_inv ms m \<Longrightarrow> list_all frame_fits ms \<Longrightarrow> ring_inv ms m'"
  by (induction rule: rtranclp_induct) (auto intro: ring_step_inv)

text \<open>The packet counter goes up with every frame that is given back.\<close>

lemma ring_step_total:
  "ring_step parse_block m m' \<Longrightarrow> rm_total_packets m' - of_nat (rm_consumed m') = rm_total_packets m - of_nat (rm_consumed m)"
  by (induction rule: ring_step.induct) simp_all

lemma ring_steps_total:
  "(ring_step parse_block)\<^sup>*\<^sup>* m m' \<Longrightarrow> rm_total_packets m' - of_nat (rm_consumed m') = rm_total_packets m - of_nat (rm_consumed m)"
  by (induction rule: rtranclp_induct) (simp_all add: ring_step_total)

lemma zero_status: "j < RX_FRAME_NR \<Longrightarrow> mem_has (replicate (RX_FRAME_NR * RX_FRAME_SIZE) 0) (status_store j TP_STATUS_KERNEL)"
proof -
  assume j: "j < RX_FRAME_NR"
  then have "Suc j * RX_FRAME_SIZE \<le> RX_FRAME_NR * RX_FRAME_SIZE" by (intro mult_le_mono1) simp
  moreover have "le_bytes 4 0 = replicate 4 0" by code_simp
  ultimately show ?thesis by (simp add: mem_has_def status_store_def mem_read_def TP_STATUS_KERNEL_def RX_FRAME_SIZE_def)
qed

lemma start_ring_inv: "ring_inv (file_messages file_data) (start_ring file_data h)"
proof -
  have "ring_bufs (file_messages file_data) 0 (start_ring file_data h)" by (simp add: ring_bufs_def start_ring_def)
  then show ?thesis
    by (auto simp: ring_inv_def ring_counts_def ring_file_def ring_mem_def start_ring_def zero_status full_in_def)
qed

section \<open>Bounds, progress and termination\<close>

lemma frame_end: "j < RX_FRAME_NR \<Longrightarrow> j * RX_FRAME_SIZE + 2048 \<le> RX_FRAME_NR * RX_FRAME_SIZE"
proof -
  assume "j < RX_FRAME_NR"
  then have "Suc j * RX_FRAME_SIZE \<le> RX_FRAME_NR * RX_FRAME_SIZE" by (intro mult_le_mono1) simp
  then show ?thesis by (simp add: RX_FRAME_SIZE_def)
qed

text \<open>No store leaves the ring.\<close>

lemma stores_in_ring:
  assumes "ring_inv ms m" "list_all frame_fits ms" "s \<in> set (rm_pbuf m) \<union> set (rm_cbuf m)"
  shows "\<exists>mem. mem_write (rm_mem m) (fst s) (snd s) = Some mem"
proof -
  obtain n where inv: "ring_counts ms m" "ring_bufs ms n m" "ring_mem ms m" using assms(1) by (auto simp: ring_inv_def)
  have "\<exists>j<RX_FRAME_NR. fst s + length (snd s) \<le> j * RX_FRAME_SIZE + 2048"
  proof (cases "s \<in> set (rm_pbuf m)")
    case True
    then obtain k where k: "k < rm_issued m" "s \<in> set (data_of ms k) \<or> s = status_store (slot k) TP_STATUS_USER"
      using pbuf_stores [OF inv(2)] by blast
    have "k < length ms" using k(1) inv(1) by (simp add: ring_counts_def)
    then have "fst s + length (snd s) \<le> slot k * RX_FRAME_SIZE + 2048"
      using k(2) data_of_region(2) [OF assms(2)] by (auto simp: status_store_def)
    then show ?thesis by (intro exI [of _ "slot k"]) simp
  next
    case False
    then obtain k where "s = status_store (slot k) TP_STATUS_KERNEL" using assms(3) inv(2) by (auto simp: ring_bufs_def)
    then show ?thesis by (intro exI [of _ "slot k"]) (simp add: status_store_def)
  qed
  then obtain j where "j < RX_FRAME_NR" "fst s + length (snd s) \<le> j * RX_FRAME_SIZE + 2048" by blast
  then have "fst s + length (snd s) \<le> length (rm_mem m)" using frame_end [of j] inv(3) by (simp add: ring_mem_def)
  then show ?thesis by (simp add: mem_write_def)
qed

text \<open>A machine that cannot move, although the handler would return, has handled every message.\<close>

lemma stuck_means_done:
  assumes "ring_inv ms m" "list_all frame_fits ms" "\<And>m'. \<not> ring_step parse_block m m'"
    and parse: "\<And>pre post. rm_pc m = C_Frame \<Longrightarrow> rm_consumed m < length ms \<Longrightarrow> rm_mem m = pre @ ms ! rm_consumed m @ post \<Longrightarrow>
      \<exists>h. parse_block (rm_mem m) (length pre) (int (length (ms ! rm_consumed m))) (rm_handler m) = Some h"
  shows "rm_handled m = ms"
proof -
  obtain n where inv: "ring_counts ms m" "ring_file ms m" "ring_bufs ms n m" "ring_mem ms m" using assms(1) by (auto simp: ring_inv_def)
  note c = inv(1) [unfolded ring_counts_def]
  have pb: "rm_pbuf m = []"
  proof (cases "rm_pbuf m")
    case (Cons s buf)
    then obtain mem where "mem_write (rm_mem m) (fst s) (snd s) = Some mem" using stores_in_ring [OF assms(1,2), of s] by auto
    then show ?thesis using assms(3) ring_step.P_Flush [of m "fst s" "snd s" buf mem] Cons by auto
  qed
  have cb: "rm_cbuf m = []"
  proof (cases "rm_cbuf m")
    case (Cons s buf)
    then obtain mem where "mem_write (rm_mem m) (fst s) (snd s) = Some mem" using stores_in_ring [OF assms(1,2), of s] by auto
    then show ?thesis using assms(3) ring_step.C_Flush [of m "fst s" "snd s" buf mem] Cons by auto
  qed
  have F: "rm_published m = rm_issued m" using pbuf_split [OF inv(3)] pb c by (metis append_is_Nil_conv le_neq_implies_less list.distinct(1))
  have R: "rm_released m = rm_consumed m" using cb inv(3) c by (auto simp: ring_bufs_def)
  have pc: "rm_pc m = C_Poll"
  proof (cases "rm_pc m")
    case C_Frame
    then have C: "rm_consumed m < rm_published m" "rm_consumed m < length ms" using c by auto
    then have f: "frame_fits (ms ! rm_consumed m)" using assms(2) by (simp add: list_all_length)
    note r = frame_read [OF inv(4) order_refl C(1) f]
    let ?o = "rm_curr_frame_idx m * RX_FRAME_SIZE + 32"
    have o: "rm_curr_frame_idx m = slot (rm_consumed m)" using c by simp
    have "rm_mem m = take ?o (rm_mem m) @ ms ! rm_consumed m @ drop (?o + length (ms ! rm_consumed m)) (rm_mem m)"
      using r(3) o by (simp add: mem_read_def drop_drop add.commute split: if_splits) (metis append_take_drop_id drop_drop)
    moreover have "length (take ?o (rm_mem m)) = ?o" using r(3) o by (auto simp: mem_read_def split: if_splits)
    ultimately obtain h where "parse_block (rm_mem m) ?o (int (length (ms ! rm_consumed m))) (rm_handler m) = Some h"
      using parse [OF C_Frame C(2)] by metis
    then show ?thesis
      using assms(3) ring_step.C_Parse [OF C_Frame, of 32 "of_nat (length (ms ! rm_consumed m))" parse_block h] r(1,2) o
        small_length [OF f] by auto
  qed (use assms(3) ring_step.C_Give [of m parse_block] in auto)
  have C: "rm_consumed m = rm_published m"
  proof (rule ccontr)
    assume "rm_consumed m \<noteq> rm_published m"
    then have "load_status (rm_cbuf m) (rm_mem m) (rm_curr_frame_idx m * RX_FRAME_SIZE) = Some TP_STATUS_USER"
      using see_full(2) [OF inv(1,3,4) cb] c by linarith
    then show False using assms(3) ring_step.C_See [OF pc] user_bit [of TP_STATUS_USER] by auto
  qed
  have "rm_msg m = None"
  proof (rule ccontr)
    assume "rm_msg m \<noteq> None"
    then obtain msg where msg: "rm_msg m = Some msg" by auto
    obtain v where v: "load_status (rm_pbuf m) (rm_mem m) (rm_frame_idx m * RX_FRAME_SIZE) = Some v"
      using load_status_producer [OF inv(1,3,4) assms(2), of "rm_frame_idx m"] c by auto
    then have "v AND TP_STATUS_USER = 0" using fill_room [OF inv(1,3,4) assms(2) v] F R C by simp
    then show False using assms(3) ring_step.P_Fill [OF msg v] by blast
  qed
  moreover have "next_message (rm_data m) = None"
    using calculation assms(3) ring_step.P_Next [of m] by (cases "next_message (rm_data m)") auto
  ultimately have "drop (rm_issued m) ms = []" using inv(2) by (simp add: ring_file_def file_messages.simps [of "rm_data m"])
  then show ?thesis using c pc F C by simp
qed

text \<open>Every step counts: a run has at most twelve steps for a message.\<close>

lemma ring_step_count:
  "ring_step parse_block m m' \<Longrightarrow>
     Suc (8 * rm_issued m + of_bool (rm_msg m \<noteq> None) + 3 * rm_consumed m + rm_released m +
       of_bool (rm_pc m \<noteq> C_Poll) + of_bool (rm_pc m = C_Return)) + length (rm_pbuf m') =
     8 * rm_issued m' + of_bool (rm_msg m' \<noteq> None) + 3 * rm_consumed m' + rm_released m' +
       of_bool (rm_pc m' \<noteq> C_Poll) + of_bool (rm_pc m' = C_Return) + length (rm_pbuf m)"
  by (induction rule: ring_step.induct) simp_all

lemma ring_run_length:
  "(ring_step parse_block ^^ n) (start_ring file_data h) m \<Longrightarrow>
     n + length (rm_pbuf m) = 8 * rm_issued m + of_bool (rm_msg m \<noteq> None) + 3 * rm_consumed m + rm_released m +
       of_bool (rm_pc m \<noteq> C_Poll) + of_bool (rm_pc m = C_Return)"
proof (induction n arbitrary: m)
  case (Suc n)
  then obtain m1 where m1: "(ring_step parse_block ^^ n) (start_ring file_data h) m1" "ring_step parse_block m1 m" by auto
  show ?case using Suc.IH [OF m1(1)] ring_step_count [OF m1(2)] by simp
qed (simp add: start_ring_def)

lemma ring_run_bound:
  assumes "(ring_step parse_block ^^ n) (start_ring file_data h) m" "list_all frame_fits (file_messages file_data)"
  shows "n \<le> 12 * length (file_messages file_data)"
proof -
  let ?ms = "file_messages file_data"
  have "ring_inv ?ms m" by (rule ring_steps_inv [OF relpowp_imp_rtranclp [OF assms(1)] start_ring_inv assms(2)])
  then have i: "ring_counts ?ms m" "ring_file ?ms m" by (simp_all add: ring_inv_def)
  have "of_bool (rm_msg m \<noteq> None) + rm_issued m \<le> length ?ms"
  proof (cases "rm_msg m")
    case (Some msg)
    then have "drop (rm_issued m) ?ms \<noteq> []" using i(2) by (auto simp: ring_file_def)
    then show ?thesis using Some by simp
  qed (use i(1) in \<open>simp add: ring_counts_def\<close>)
  moreover have "of_bool (rm_pc m \<noteq> C_Poll) + rm_consumed m \<le> length ?ms" using i(1) by (auto simp: ring_counts_def)
  moreover have "of_bool (rm_pc m = C_Return) \<le> (of_bool (rm_pc m \<noteq> C_Poll) :: nat)" by simp
  moreover have "rm_released m \<le> length ?ms" "rm_issued m \<le> length ?ms" using i(1) by (auto simp: ring_counts_def)
  ultimately show ?thesis using ring_run_length [OF assms(1)] by linarith
qed

section \<open>The contract of a message handler\<close>

text \<open>
  What the poller needs of its handler: called with the position of the next message, wherever it lies
  in memory, and its length, it returns, and \<open>good\<close> goes on to hold.
\<close>

locale packet_handler =
  fixes parse_block :: "u8 list \<Rightarrow> nat \<Rightarrow> int \<Rightarrow> 'h \<Rightarrow> 'h option"
    and good :: "u8 list list \<Rightarrow> nat \<Rightarrow> 'h \<Rightarrow> bool"
  assumes handles: "good ms n h \<Longrightarrow> n < length ms \<Longrightarrow>
    \<exists>h'. parse_block (pre @ ms ! n @ post) (length pre) (int (length (ms ! n))) h = Some h' \<and> good ms (Suc n) h'"
begin

lemma parse_in_memory:
  assumes "good ms n h" "n < length ms" "mem_read mem off (length (ms ! n)) = Some (ms ! n)"
  shows "\<exists>h'. parse_block mem off (int (length (ms ! n))) h = Some h' \<and> good ms (Suc n) h'"
proof -
  have b: "off + length (ms ! n) \<le> length mem" "take (length (ms ! n)) (drop off mem) = ms ! n"
    using assms(3) by (auto simp: mem_read_def split: if_splits)
  have "mem = take off mem @ ms ! n @ drop (length (ms ! n)) (drop off mem)" using b(2) by (metis append_take_drop_id)
  then show ?thesis using handles [OF assms(1,2), of "take off mem" "drop (length (ms ! n)) (drop off mem)"] b(1) by simp
qed

lemma good_step:
  assumes "ring_step parse_block m m'" "ring_inv ms m" "list_all frame_fits ms" "good ms (length (rm_handled m)) (rm_handler m)"
  shows "good ms (length (rm_handled m')) (rm_handler m')"
  using assms
proof (induction rule: ring_step.induct)
  case (C_Parse m tp_net tp_snaplen h)
  have i: "ring_counts ms m" "ring_mem ms m" using C_Parse.prems(1) by (simp_all add: ring_inv_def)
  note c = i(1) [unfolded ring_counts_def]
  have C: "rm_consumed m < rm_published m" "rm_consumed m < length ms" using c C_Parse.hyps(1) by auto
  then have f: "frame_fits (ms ! rm_consumed m)" using C_Parse.prems(2) by (simp add: list_all_length)
  have l: "length (rm_handled m) = rm_consumed m" using c C C_Parse.hyps(1) by simp
  note r = frame_read [OF i(2) order_refl C(1) f]
  have o: "rm_curr_frame_idx m = slot (rm_consumed m)" using c by simp
  then have "tp_net = 32" "tp_snaplen = of_nat (length (ms ! rm_consumed m))" using r(1,2) C_Parse.hyps(2,3) by simp_all
  then show ?case
    using parse_in_memory [OF C_Parse.prems(3) [unfolded l] C(2) r(3)] C_Parse.hyps(4) o l small_length [OF f] by auto
qed simp_all

lemma good_steps:
  assumes "(ring_step parse_block)\<^sup>*\<^sup>* m m'" "ring_inv ms m" "list_all frame_fits ms" "good ms (length (rm_handled m)) (rm_handler m)"
  shows "good ms (length (rm_handled m')) (rm_handler m')"
  using assms
proof (induction rule: rtranclp_induct)
  case (step m1 m2)
  then show ?case using good_step [OF step.hyps(2)] ring_steps_inv [OF step.hyps(1)] by blast
qed

lemma stuck_delivers:
  assumes "ring_inv ms m" "list_all frame_fits ms" "good ms (length (rm_handled m)) (rm_handler m)" "\<And>m'. \<not> ring_step parse_block m m'"
  shows "rm_handled m = ms"
proof (rule stuck_means_done [OF assms(1,2,4)])
  fix pre post
  assume p: "rm_pc m = C_Frame" "rm_consumed m < length ms" "rm_mem m = pre @ ms ! rm_consumed m @ post"
  then have "length (rm_handled m) = rm_consumed m" using assms(1) by (simp add: ring_inv_def ring_counts_def)
  then show "\<exists>h. parse_block (rm_mem m) (length pre) (int (length (ms ! rm_consumed m))) (rm_handler m) = Some h"
    using handles [of ms "rm_consumed m" "rm_handler m" pre post] assms(3) p by auto
qed

lemma delivers_all:
  assumes "(ring_step parse_block)\<^sup>*\<^sup>* (start_ring file_data h) m" "list_all frame_fits (file_messages file_data)" "good (file_messages file_data) 0 h"
    and "\<And>m'. \<not> ring_step parse_block m m'"
  shows "rm_handled m = file_messages file_data"
    "good (file_messages file_data) (length (file_messages file_data)) (rm_handler m)"
proof -
  let ?ms = "file_messages file_data"
  have inv: "ring_inv ?ms m" using ring_steps_inv [OF assms(1) start_ring_inv assms(2)] .
  have g: "good ?ms (length (rm_handled m)) (rm_handler m)"
    using good_steps [OF assms(1) start_ring_inv assms(2)] assms(3) by (simp add: start_ring_def)
  show "rm_handled m = ?ms" by (rule stuck_delivers [OF inv assms(2) g assms(4)])
  then show "good ?ms (length ?ms) (rm_handler m)" using g by simp
qed

text \<open>Some schedule brings the replay to its end: a longest run cannot go on.\<close>

lemma completes:
  assumes "list_all frame_fits (file_messages file_data)" "good (file_messages file_data) 0 h"
  shows "\<exists>m. (ring_step parse_block)\<^sup>*\<^sup>* (start_ring file_data h) m \<and> (\<forall>m'. \<not> ring_step parse_block m m') \<and>
    rm_handled m = file_messages file_data \<and> good (file_messages file_data) (length (file_messages file_data)) (rm_handler m)"
proof -
  let ?P = "\<lambda>n. \<exists>m. (ring_step parse_block ^^ n) (start_ring file_data h) m"
  have 0: "?P 0" by auto
  have b: "\<And>n. ?P n \<Longrightarrow> n \<le> 12 * length (file_messages file_data)" by (elim exE) (rule ring_run_bound [OF _ assms(1)])
  define n where "n = Greatest ?P"
  have "?P n" unfolding n_def by (rule GreatestI_nat [of ?P, OF 0 b])
  have n: "n' \<le> n" if "?P n'" for n' unfolding n_def by (rule Greatest_le_nat [of ?P, OF that b])
  from \<open>?P n\<close> obtain m where m: "(ring_step parse_block ^^ n) (start_ring file_data h) m" by (elim exE)
  have s: "\<not> ring_step parse_block m m'" for m'
  proof
    assume "ring_step parse_block m m'"
    then have "?P (Suc n)" using relpowp_Suc_I [OF m] by (intro exI)
    then show False using n [of "Suc n"] by simp
  qed
  show ?thesis
    by (intro exI [of _ m] conjI allI s relpowp_imp_rtranclp [OF m] delivers_all [OF relpowp_imp_rtranclp [OF m] assms s])
qed

end

section \<open>Beside other threads\<close>

text \<open>
  The two threads of the ring beside others: threads that act on the state of the handler, as far as they share it with
  the poller, and \<open>print_statistics_mock_mode\<close>, which takes the packet counter, sets it to 0 and prints it.
\<close>

inductive shared_step ::
  "(u8 list \<Rightarrow> nat \<Rightarrow> int \<Rightarrow> 'h \<Rightarrow> 'h option) \<Rightarrow> ('h \<Rightarrow> 'h \<Rightarrow> bool) \<Rightarrow>
   'h ring_machine \<times> u64 list \<Rightarrow> 'h ring_machine \<times> u64 list \<Rightarrow> bool"
  for parse_block other where
  Ring: "ring_step parse_block m m' \<Longrightarrow> shared_step parse_block other (m, out) (m', out)"
| Other: "other (rm_handler m) h \<Longrightarrow> shared_step parse_block other (m, out) (m\<lparr>rm_handler := h\<rparr>, out)"
| Statistics: "shared_step parse_block other (m, out) (m\<lparr>rm_total_packets := 0\<rparr>, out @ [rm_total_packets m])"

lemma ring_inv_frame [simp]:
  "ring_inv ms (m\<lparr>rm_handler := h\<rparr>) = ring_inv ms m" "ring_inv ms (m\<lparr>rm_total_packets := t\<rparr>) = ring_inv ms m"
  by (simp_all add: ring_inv_def ring_counts_def ring_file_def ring_bufs_def ring_mem_def)

lemma shared_step_inv: "shared_step parse_block other x x' \<Longrightarrow> ring_inv ms (fst x) \<Longrightarrow> list_all frame_fits ms \<Longrightarrow> ring_inv ms (fst x')"
  by (induction rule: shared_step.induct) (auto intro: ring_step_inv)

text \<open>What was printed and what is still in the counter add up to the number of frames given back.\<close>

lemma shared_steps_total:
  assumes "(shared_step parse_block other)\<^sup>*\<^sup>* x x'"
  shows "sum_list (snd x') + rm_total_packets (fst x') - of_nat (rm_consumed (fst x')) =
    sum_list (snd x) + rm_total_packets (fst x) - of_nat (rm_consumed (fst x))"
  using assms
proof (induction rule: rtranclp_induct)
  case (step x1 x2)
  from step.hyps(2) have "sum_list (snd x2) + rm_total_packets (fst x2) - of_nat (rm_consumed (fst x2)) =
      sum_list (snd x1) + rm_total_packets (fst x1) - of_nat (rm_consumed (fst x1))"
  proof cases
    case (Ring m m' out)
    then show ?thesis using ring_step_total [OF Ring(3)] by (simp add: add_diff_eq [symmetric])
  qed simp_all
  then show ?case using step.IH by simp
qed simp

text \<open>The contract of the handler, when the other threads keep it too.\<close>

locale shared_handler = packet_handler parse_block good
  for parse_block :: "u8 list \<Rightarrow> nat \<Rightarrow> int \<Rightarrow> 'h \<Rightarrow> 'h option" and good :: "u8 list list \<Rightarrow> nat \<Rightarrow> 'h \<Rightarrow> bool" +
  fixes other :: "'h \<Rightarrow> 'h \<Rightarrow> bool"
  assumes other_good: "good ms n h \<Longrightarrow> other h h' \<Longrightarrow> good ms n h'"
begin

lemma shared_steps_good:
  assumes "(shared_step parse_block other)\<^sup>*\<^sup>* x x'" "ring_inv ms (fst x)" "list_all frame_fits ms"
    and "good ms (length (rm_handled (fst x))) (rm_handler (fst x))"
  shows "ring_inv ms (fst x') \<and> good ms (length (rm_handled (fst x'))) (rm_handler (fst x'))"
  using assms(1)
proof (induction rule: rtranclp_induct)
  case (step x1 x2)
  have "good ms (length (rm_handled (fst x2))) (rm_handler (fst x2))"
    using step.hyps(2)
  proof cases
    case (Ring m m' out)
    then show ?thesis using good_step [OF Ring(3) _ assms(3)] step.IH by simp
  qed (use step.IH other_good in auto)
  then show ?case using shared_step_inv [OF step.hyps(2) _ assms(3)] step.IH by blast
qed (use assms in simp)

lemma shared_delivers:
  assumes "(shared_step parse_block other)\<^sup>*\<^sup>* (start_ring file_data h, []) (m, out)" "list_all frame_fits (file_messages file_data)"
    and "good (file_messages file_data) 0 h"
  shows "ring_counts (file_messages file_data) m" "good (file_messages file_data) (length (rm_handled m)) (rm_handler m)"
    "(\<And>m'. \<not> ring_step parse_block m m') \<Longrightarrow> rm_handled m = file_messages file_data"
    "sum_list out + rm_total_packets m = of_nat (rm_consumed m)"
proof -
  have g: "ring_inv (file_messages file_data) m" "good (file_messages file_data) (length (rm_handled m)) (rm_handler m)"
    using shared_steps_good [OF assms(1) _ assms(2)] start_ring_inv [of file_data h] assms(3) by (simp_all add: start_ring_def)
  then show "ring_counts (file_messages file_data) m" "good (file_messages file_data) (length (rm_handled m)) (rm_handler m)"
    by (simp_all add: ring_inv_def)
  show "rm_handled m = file_messages file_data" if "\<And>m'. \<not> ring_step parse_block m m'" by (rule stuck_delivers [OF g(1) assms(2) g(2) that])
  show "sum_list out + rm_total_packets m = of_nat (rm_consumed m)" using shared_steps_total [OF assms(1)] by (simp add: start_ring_def)
qed

end

section \<open>Polling the network\<close>

text \<open>
  \<open>poll\<close> and \<open>poll_simulation\<close>, one round each: they differ in where the payload starts and in its
  length, computed in unsigned arithmetic and converted to a signed integer. Waiting for the
  status is a round that changes nothing.
\<close>

definition poll_args :: "u8 list \<Rightarrow> nat \<Rightarrow> (nat \<times> int) option" where
  "poll_args mem start_of_frame = do {
     tp_net \<leftarrow> load16 mem (start_of_frame + 14);
     tp_snaplen \<leftarrow> load32 mem (start_of_frame + 8);
     Some (start_of_frame + unat tp_net + 20 + 8, sint (tp_snaplen - 14 - 20 - 8)) }"

definition poll_simulation_args :: "u8 list \<Rightarrow> nat \<Rightarrow> (nat \<times> int) option" where
  "poll_simulation_args mem start_of_frame = do {
     tp_net \<leftarrow> load16 mem (start_of_frame + 14);
     tp_snaplen \<leftarrow> load32 mem (start_of_frame + 8);
     Some (start_of_frame + unat tp_net, sint tp_snaplen) }"

definition poll_round ::
  "(u8 list \<Rightarrow> nat \<Rightarrow> (nat \<times> int) option) \<Rightarrow> (u8 list \<Rightarrow> nat \<Rightarrow> int \<Rightarrow> 'h \<Rightarrow> 'h option) \<Rightarrow>
   u8 list \<Rightarrow> MulticastReceiver \<Rightarrow> 'h \<Rightarrow> (u8 list \<times> MulticastReceiver \<times> 'h) option" where
  "poll_round args parse_block mem r h = do {
     let start_of_frame = mr_curr_frame_idx r * RX_FRAME_SIZE;
     status \<leftarrow> load32 mem start_of_frame;
     if status AND TP_STATUS_USER = 0 then Some (mem, r, h) else do {
       (payload_ptr, payload_length) \<leftarrow> args mem start_of_frame;
       h \<leftarrow> parse_block mem payload_ptr payload_length h;
       mem \<leftarrow> store_le mem start_of_frame 4 (unat TP_STATUS_KERNEL);
       Some (mem, r\<lparr>mr_curr_frame_idx := (mr_curr_frame_idx r + 1) mod RX_FRAME_NR, mr_total_packets := mr_total_packets r + 1\<rparr>, h) } }"

text \<open>
  The steps of the poller in the machine above are such rounds: with nothing in its store buffer, seeing the
  frame, parsing it, giving it back and flushing the store is one round of \<open>poll_simulation\<close>.
\<close>

lemma poll_simulation_round_steps:
  assumes "rm_pc m = C_Poll" "rm_cbuf m = []" "rm_curr_frame_idx m = mr_curr_frame_idx r"
    and "load32 (rm_mem m) (mr_curr_frame_idx r * RX_FRAME_SIZE) = Some status" "status AND TP_STATUS_USER \<noteq> 0"
    and "poll_round poll_simulation_args parse_block (rm_mem m) r (rm_handler m) = Some (mem, r', h)"
  shows "\<exists>m'. (ring_step parse_block)\<^sup>*\<^sup>* m m' \<and> rm_mem m' = mem \<and> rm_handler m' = h \<and> rm_pc m' = C_Poll \<and> rm_cbuf m' = [] \<and>
    rm_curr_frame_idx m' = mr_curr_frame_idx r' \<and> rm_pbuf m' = rm_pbuf m"
proof -
  let ?o = "rm_curr_frame_idx m * RX_FRAME_SIZE"
  obtain tp_net tp_snaplen h1 mem1 where l: "load16 (rm_mem m) (?o + 14) = Some tp_net" "load32 (rm_mem m) (?o + 8) = Some tp_snaplen"
    "parse_block (rm_mem m) (?o + unat tp_net) (sint tp_snaplen) (rm_handler m) = Some h1"
    "mem_write (rm_mem m) ?o (le_bytes 4 (unat TP_STATUS_KERNEL)) = Some mem1"
    using assms(3-6) by (auto simp: poll_round_def poll_simulation_args_def store_le_def Let_def split: bind_splits)
  then have r: "mem = mem1" "h = h1" "mr_curr_frame_idx r' = (mr_curr_frame_idx r + 1) mod RX_FRAME_NR"
    using assms(3-6) by (auto simp: poll_round_def poll_simulation_args_def store_le_def)
  have s: "load_status (rm_cbuf m) (rm_mem m) ?o = Some status" using assms(2-4) by (simp add: load_status_def)
  note 1 = ring_step.C_See [OF assms(1) s assms(5)]
  let ?m1 = "m\<lparr>rm_pc := C_Frame\<rparr>"
  note 2 = ring_step.C_Parse [of ?m1 tp_net tp_snaplen parse_block h1]
  let ?m2 = "?m1\<lparr>rm_pc := C_Return, rm_handler := h1, rm_handled := rm_handled m @ [take (unat tp_snaplen) (drop (?o + unat tp_net) (rm_mem m))]\<rparr>"
  note 3 = ring_step.C_Give [of ?m2 parse_block]
  let ?m3 = "?m2\<lparr>rm_pc := C_Poll, rm_cbuf := [(?o, le_bytes 4 (unat TP_STATUS_KERNEL))],
    rm_curr_frame_idx := (rm_curr_frame_idx m + 1) mod RX_FRAME_NR, rm_total_packets := rm_total_packets m + 1, rm_consumed := rm_consumed m + 1\<rparr>"
  note 4 = ring_step.C_Flush [of ?m3 ?o "le_bytes 4 (unat TP_STATUS_KERNEL)" "[]" mem1 parse_block]
  have "ring_step parse_block m ?m1" "ring_step parse_block ?m1 ?m2" "ring_step parse_block ?m2 ?m3"
    "ring_step parse_block ?m3 (?m3\<lparr>rm_cbuf := [], rm_mem := mem1, rm_released := rm_released m + 1\<rparr>)"
    using 1 2 3 4 l assms(2) by simp_all
  then have "(ring_step parse_block)\<^sup>*\<^sup>* m (?m3\<lparr>rm_cbuf := [], rm_mem := mem1, rm_released := rm_released m + 1\<rparr>)"
    by (meson converse_rtranclp_into_rtranclp rtranclp.rtrancl_refl)
  then show ?thesis using r assms(3) by (intro exI conjI) (assumption | simp)+
qed

text \<open>
  A frame as the kernel delivers it: the Ethernet frame at \<open>tp_mac\<close>, the network header 14 bytes behind.
\<close>

definition kernel_frame :: "u8 list \<Rightarrow> nat \<Rightarrow> nat \<Rightarrow> u8 list \<Rightarrow> bool" where
  "kernel_frame mem start tp_mac pkt \<longleftrightarrow> load16 mem (start + 14) = Some (of_nat (tp_mac + 14)) \<and> tp_mac + 14 < 2 ^ 16 \<and>
     load32 mem (start + 8) = Some (of_nat (length pkt)) \<and> length pkt < 2 ^ 31 \<and>
     mem_read mem (start + tp_mac) (length pkt) = Some pkt"

lemma poll_args_slice:
  assumes "kernel_frame mem start tp_mac pkt" "42 \<le> length pkt"
  shows "poll_args mem start = Some (start + tp_mac + 42, int (length pkt - 42)) \<and>
    mem_read mem (start + tp_mac + 42) (length pkt - 42) = Some (drop 42 pkt)"
proof -
  have b: "start + tp_mac + length pkt \<le> length mem" "take (length pkt) (drop (start + tp_mac) mem) = pkt"
    using assms(1) by (auto simp: kernel_frame_def mem_read_def split: if_splits)
  have n: "unat (of_nat (tp_mac + 14) :: u16) = tp_mac + 14"
    using assms(1) by (simp only: kernel_frame_def unat_of_nat) (simp add: take_bit_nat_eq_self)
  have "(of_nat (length pkt) :: u32) - 14 - 20 - 8 = of_nat (length pkt - 42)" using assms(2) by (simp add: of_nat_diff)
  moreover have "int (length pkt - 42) < 2 ^ 31" using assms(1) by (auto simp: kernel_frame_def)
  then have "sint (of_nat (length pkt - 42) :: u32) = int (length pkt - 42)"
    by (simp only: signed_of_nat) (simp add: signed_take_bit_int_eq_self)
  ultimately have "poll_args mem start = Some (start + tp_mac + 42, int (length pkt - 42))"
    using assms(1) n by (simp add: poll_args_def kernel_frame_def)
  moreover have "take (length pkt - 42) (drop (start + tp_mac + 42) mem) = drop 42 pkt"
    using b(2) by (metis add.commute drop_drop drop_take)
  ultimately show ?thesis using b(1) assms(2) by (simp add: mem_read_def)
qed

section \<open>Files\<close>

definition file_record :: "u8 list \<Rightarrow> u8 list" where
  "file_record msg = be_bytes 2 (length msg) @ msg"

lemma be_two: "be_bytes 2 n = [of_nat (n div 256 mod 256), of_nat (n mod 256)]"
  by (simp add: be_bytes_def numeral_2_eq_2)

lemma file_messages_records: "list_all frame_fits ms \<Longrightarrow> file_messages (concat (map file_record ms)) = ms"
proof (induction ms)
  case Nil
  show ?case by (simp add: file_messages.simps next_message_def)
next
  case (Cons msg ms)
  then have l: "length msg < 65536" by (simp add: frame_fits_def)
  have "256 * unat (of_nat (length msg div 256 mod 256) :: u8) + unat (of_nat (length msg mod 256) :: u8) = length msg"
    using l by (simp add: unat_of_nat take_bit_eq_mod)
  then have "next_message (concat (map file_record (msg # ms))) = Some (msg, concat (map file_record ms))"
    by (simp add: next_message_def file_record_def be_two Let_def del: unat_of_nat)
  then show ?case using Cons by (simp add: file_messages.simps [of "concat (map file_record (msg # ms))"] del: concat.simps list.map)
qed

section \<open>Properties\<close>



text \<open>A file with one message of one byte, read and put into the first frame.\<close>

definition filled_ring :: "unit ring_machine" where
  "filled_ring = (start_ring [0, 1, 7] ())\<lparr>rm_data := [], rm_pbuf := frame_stores 0 [7], rm_frame_idx := 1, rm_issued := 1\<rparr>"

lemma one_message: "file_messages [0, 1, 7] = [[7]]"
  by (simp add: file_messages.simps next_message_def)

lemma one_fits: "list_all frame_fits (file_messages [0, 1, 7])"
  by (simp add: one_message frame_fits_def)

lemma filled_ring_steps: "(ring_step (\<lambda>mem ptr len h. Some h) ^^ 2) (start_ring [0, 1, 7] ()) filled_ring"
proof -
  let ?m = "(start_ring [0, 1, 7] ())\<lparr>rm_msg := Some [7], rm_data := []\<rparr>"
  have "ring_step (\<lambda>mem ptr len h. Some h) (start_ring [0, 1, 7] ()) ?m"
    by (rule ring_step.P_Next) (simp_all add: start_ring_def next_message_def)
  moreover have "ring_step (\<lambda>mem ptr len h. Some h) ?m (?m\<lparr>rm_msg := None, rm_pbuf := rm_pbuf ?m @ frame_stores (rm_frame_idx ?m) [7],
      rm_frame_idx := (rm_frame_idx ?m + 1) mod RX_FRAME_NR, rm_issued := rm_issued ?m + 1\<rparr>)"
  proof (rule ring_step.P_Fill)
    show "load_status (rm_pbuf ?m) (rm_mem ?m) (rm_frame_idx ?m * RX_FRAME_SIZE) = Some TP_STATUS_KERNEL"
      using load32_status [OF zero_status [OF RX_FRAME_NR_pos]] by (simp add: start_ring_def load_status_def)
  qed (simp_all add: TP_STATUS_KERNEL_def)
  moreover have "1 mod RX_FRAME_NR = 1" by (simp add: RX_FRAME_NR_def RX_BLOCK_SIZE_def RX_BLOCK_NR_def RX_FRAME_SIZE_def)
  ultimately have "(ring_step (\<lambda>mem ptr len h. Some h) ^^ Suc (Suc 0)) (start_ring [0, 1, 7] ()) filled_ring"
    by (intro relpowp_Suc_I [of "Suc 0" _ _ ?m] relpowp_Suc_I [of 0]) (simp_all add: filled_ring_def start_ring_def)
  then show ?thesis by (simp only: numeral_2_eq_2)
qed




definition sample_ring_frame :: "u8 list" where
  "sample_ring_frame = [1, 0, 0, 0, 45, 0, 0, 0, 45, 0, 0, 0, 16, 0, 30, 0] @ ipv4_bytes sample_frame"


end
