(* ===== verification/Network_Ring.thy ===== *)
theory Network_Ring
  imports Packet_Ring
begin

text \<open>
  The receiver on the network: \<open>poll\<close> of \<^verbatim>\<open>src/network/MulticastReceiver.h\<close> on a ring that the kernel fills. The kernel is
  not part of the program; it is described by what a packet socket with such a ring documents: it fills the frames in their order, only frames that it
  owns, only with packets that the filter keeps, and it touches nothing but the frame it fills.
\<close>

section \<open>The kernel and the poller\<close>

text \<open>A full frame: the status has the user bit, and the packet lies in the frame where the header says.\<close>

definition frame_ready :: "u8 list \<Rightarrow> nat \<Rightarrow> u8 list \<Rightarrow> bool" where
  "frame_ready mem j pkt \<longleftrightarrow>
     (\<exists>status. load32 mem (j * RX_FRAME_SIZE) = Some status \<and> status AND TP_STATUS_USER \<noteq> 0) \<and>
     (\<exists>tp_mac. tp_mac + length pkt \<le> RX_FRAME_SIZE \<and> kernel_frame mem (j * RX_FRAME_SIZE) tp_mac pkt)"

definition frame_at :: "u8 list \<Rightarrow> nat \<Rightarrow> u8 list option" where
  "frame_at mem j = mem_read mem (j * RX_FRAME_SIZE) RX_FRAME_SIZE"

definition kernel_fills :: "u8 list \<Rightarrow> nat \<Rightarrow> u8 list \<Rightarrow> u8 list \<Rightarrow> bool" where
  "kernel_fills mem j pkt mem' \<longleftrightarrow> length mem' = length mem \<and> frame_ready mem' j pkt \<and>
     (\<forall>i<RX_FRAME_NR. i \<noteq> j \<longrightarrow> frame_at mem' i = frame_at mem i)"

text \<open>\<open>nm_filled\<close> and \<open>nm_taken\<close> are ghosts: the frames filled by the kernel and given back by the poller.\<close>

record 'h net_machine =
  nm_mem :: "u8 list"
  nm_receiver :: MulticastReceiver
  nm_handler :: 'h
  nm_filled :: nat
  nm_taken :: nat

definition start_net :: "MulticastReceiver \<Rightarrow> 'h \<Rightarrow> 'h net_machine" where
  "start_net r h = \<lparr>nm_mem = replicate (RX_FRAME_NR * RX_FRAME_SIZE) 0, nm_receiver = r, nm_handler = h, nm_filled = 0, nm_taken = 0\<rparr>"

text \<open>
  \<open>pkts\<close> are the packets in the order in which they come to the ring; one that the filter does not keep never gets in. The poller makes whole
  rounds, and other threads may act on the state of the handler.
\<close>

inductive net_step ::
  "(u8 list \<Rightarrow> nat \<Rightarrow> int \<Rightarrow> 'h \<Rightarrow> 'h option) \<Rightarrow> ('h \<Rightarrow> 'h \<Rightarrow> bool) \<Rightarrow> u8 list list \<Rightarrow> 'h net_machine \<Rightarrow> 'h net_machine \<Rightarrow> bool"
  for parse_block other pkts where
  Fill: "nm_filled w < length pkts \<Longrightarrow> bpf_run bpf_code (pkts ! nm_filled w) 0 0 = Some n \<Longrightarrow> n \<noteq> 0 \<Longrightarrow>
    load32 (nm_mem w) (slot (nm_filled w) * RX_FRAME_SIZE) = Some TP_STATUS_KERNEL \<Longrightarrow>
    kernel_fills (nm_mem w) (slot (nm_filled w)) (pkts ! nm_filled w) mem \<Longrightarrow>
    net_step parse_block other pkts w (w\<lparr>nm_mem := mem, nm_filled := nm_filled w + 1\<rparr>)"
| Poll: "poll_round poll_args parse_block (nm_mem w) (nm_receiver w) (nm_handler w) = Some (mem, r, h) \<Longrightarrow>
    net_step parse_block other pkts w (w\<lparr>nm_mem := mem, nm_receiver := r, nm_handler := h,
      nm_taken := nm_taken w + (if r = nm_receiver w then 0 else 1)\<rparr>)"
| Thread: "other (nm_handler w) h \<Longrightarrow> net_step parse_block other pkts w (w\<lparr>nm_handler := h\<rparr>)"

section \<open>The invariant\<close>

definition net_inv :: "u8 list list \<Rightarrow> 'h net_machine \<Rightarrow> bool" where
  "net_inv pkts w \<longleftrightarrow> length (nm_mem w) = RX_FRAME_NR * RX_FRAME_SIZE \<and> nm_taken w \<le> nm_filled w \<and>
     nm_filled w \<le> nm_taken w + RX_FRAME_NR \<and> nm_filled w \<le> length pkts \<and>
     mr_curr_frame_idx (nm_receiver w) = slot (nm_taken w) \<and> mr_total_packets (nm_receiver w) = of_nat (nm_taken w) \<and>
     (\<forall>k\<in>{nm_taken w..<nm_filled w}. frame_ready (nm_mem w) (slot k) (pkts ! k)) \<and>
     (\<forall>j<RX_FRAME_NR. \<not> full_in (nm_taken w) (nm_filled w) j \<longrightarrow> load32 (nm_mem w) (j * RX_FRAME_SIZE) = Some TP_STATUS_KERNEL) \<and>
     (\<forall>k<nm_filled w. feed_frame (pkts ! k))"

lemma mem_read_sub: "mem_read mem a n = Some x \<Longrightarrow> off + len \<le> n \<Longrightarrow> mem_read mem (a + off) len = Some (take len (drop off x))"
  by (auto simp: mem_read_def drop_take min_def add.commute split: if_splits)

lemma frame_at_some: "length mem = RX_FRAME_NR * RX_FRAME_SIZE \<Longrightarrow> j < RX_FRAME_NR \<Longrightarrow> \<exists>x. frame_at mem j = Some x"
proof -
  assume "length mem = RX_FRAME_NR * RX_FRAME_SIZE" "j < RX_FRAME_NR"
  moreover then have "Suc j * RX_FRAME_SIZE \<le> RX_FRAME_NR * RX_FRAME_SIZE" by (intro mult_le_mono1) simp
  ultimately show ?thesis by (simp add: frame_at_def mem_read_def)
qed

lemma same_frame_reads:
  assumes "frame_at mem j = Some x" "frame_at mem' j = Some x"
  shows "off + len \<le> RX_FRAME_SIZE \<Longrightarrow> mem_read mem' (j * RX_FRAME_SIZE + off) len = mem_read mem (j * RX_FRAME_SIZE + off) len"
    "load32 mem' (j * RX_FRAME_SIZE) = load32 mem (j * RX_FRAME_SIZE)" "frame_ready mem' j pkt = frame_ready mem j pkt"
proof -
  have r: "mem_read mem' (j * RX_FRAME_SIZE + off) len = mem_read mem (j * RX_FRAME_SIZE + off) len" if "off + len \<le> RX_FRAME_SIZE" for off len
    using assms that mem_read_sub unfolding frame_at_def by metis
  then show "off + len \<le> RX_FRAME_SIZE \<Longrightarrow> mem_read mem' (j * RX_FRAME_SIZE + off) len = mem_read mem (j * RX_FRAME_SIZE + off) len" .
  show l: "load32 mem' (j * RX_FRAME_SIZE) = load32 mem (j * RX_FRAME_SIZE)" using r [of 0 4] by (simp add: load32_def RX_FRAME_SIZE_def)
  have "tp_mac + length pkt \<le> RX_FRAME_SIZE \<Longrightarrow> kernel_frame mem' (j * RX_FRAME_SIZE) tp_mac pkt = kernel_frame mem (j * RX_FRAME_SIZE) tp_mac pkt" for tp_mac
    using r [of 14 2] r [of 8 4] r [of tp_mac "length pkt"] by (simp add: kernel_frame_def load16_def load32_def RX_FRAME_SIZE_def)
  then show "frame_ready mem' j pkt = frame_ready mem j pkt" unfolding frame_ready_def l by blast
qed

lemma frames_kept:
  assumes "length mem = RX_FRAME_NR * RX_FRAME_SIZE" "i < RX_FRAME_NR" "frame_at mem' i = frame_at mem i"
  shows "frame_ready mem' i pkt = frame_ready mem i pkt" "load32 mem' (i * RX_FRAME_SIZE) = load32 mem (i * RX_FRAME_SIZE)"
proof -
  obtain x where x: "frame_at mem i = Some x" using frame_at_some [OF assms(1,2)] by blast
  moreover have "frame_at mem' i = Some x" using assms(3) x by simp
  ultimately show "frame_ready mem' i pkt = frame_ready mem i pkt" "load32 mem' (i * RX_FRAME_SIZE) = load32 mem (i * RX_FRAME_SIZE)"
    by (rule same_frame_reads)+
qed

lemma start_net_inv:
  assumes "mr_curr_frame_idx r = 0" "mr_total_packets r = 0"
  shows "net_inv pkts (start_net r h)"
proof -
  have "load32 (replicate (RX_FRAME_NR * RX_FRAME_SIZE) 0) (j * RX_FRAME_SIZE) = Some TP_STATUS_KERNEL" if "j < RX_FRAME_NR" for j
    using load32_status [OF zero_status [OF that]] .
  then show ?thesis using assms by (simp add: net_inv_def start_net_def)
qed

lemma net_fill_inv:
  assumes inv: "net_inv pkts w" and f: "nm_filled w < length pkts" "feed_frame (pkts ! nm_filled w)"
    and s: "load32 (nm_mem w) (slot (nm_filled w) * RX_FRAME_SIZE) = Some TP_STATUS_KERNEL"
    and k: "kernel_fills (nm_mem w) (slot (nm_filled w)) (pkts ! nm_filled w) mem"
  shows "net_inv pkts (w\<lparr>nm_mem := mem, nm_filled := nm_filled w + 1\<rparr>)"
proof -
  let ?t = "nm_taken w" and ?f = "nm_filled w"
  note I = inv [unfolded net_inv_def]
  have room: "?f < ?t + RX_FRAME_NR"
  proof (rule ccontr)
    assume "\<not> ?f < ?t + RX_FRAME_NR"
    then have e: "?f = ?t + RX_FRAME_NR" using I by simp
    then have "frame_ready (nm_mem w) (slot ?f) (pkts ! ?t)" using I RX_FRAME_NR_pos by auto
    then show False using s by (auto simp: frame_ready_def TP_STATUS_KERNEL_def)
  qed
  have other: "frame_ready mem i pkt = frame_ready (nm_mem w) i pkt" "load32 mem (i * RX_FRAME_SIZE) = load32 (nm_mem w) (i * RX_FRAME_SIZE)"
    if "i < RX_FRAME_NR" "i \<noteq> slot ?f" for i pkt
    using frames_kept [of "nm_mem w" i mem] I k that by (simp_all add: kernel_fills_def)
  have "frame_ready mem (slot k') (pkts ! k')" if "k' \<in> {?t..<?f + 1}" for k'
  proof (cases "k' = ?f")
    case True
    then show ?thesis using k by (simp add: kernel_fills_def)
  next
    case False
    then have "slot k' \<noteq> slot ?f" using that room by (intro slot_differs) auto
    then show ?thesis using other(1) [of "slot k'"] I that False RX_FRAME_NR_pos by auto
  qed
  moreover have "load32 mem (j * RX_FRAME_SIZE) = Some TP_STATUS_KERNEL" if "j < RX_FRAME_NR" "\<not> full_in ?t (?f + 1) j" for j
  proof -
    have "j \<noteq> slot ?f" "\<not> full_in ?t ?f j" using that(2) I by (auto simp: full_in_def)
    then show ?thesis using other(2) [OF that(1)] I that(1) by simp
  qed
  ultimately show ?thesis using I k f room by (auto simp: net_inv_def kernel_fills_def less_Suc_eq)
qed

text \<open>A round of the poller: it gives back a full frame, or finds none and changes nothing.\<close>

lemma net_give_inv:
  assumes inv: "net_inv pkts w" and t: "nm_taken w < nm_filled w"
    and s: "store_le (nm_mem w) (slot (nm_taken w) * RX_FRAME_SIZE) 4 (unat TP_STATUS_KERNEL) = Some mem"
    and r: "r = (nm_receiver w)\<lparr>mr_curr_frame_idx := (mr_curr_frame_idx (nm_receiver w) + 1) mod RX_FRAME_NR,
      mr_total_packets := mr_total_packets (nm_receiver w) + 1\<rparr>"
  shows "net_inv pkts (w\<lparr>nm_mem := mem, nm_receiver := r, nm_handler := h, nm_taken := nm_taken w + 1\<rparr>)"
proof -
  let ?t = "nm_taken w" and ?f = "nm_filled w"
  note I = inv [unfolded net_inv_def]
  have w: "mem_write (nm_mem w) (slot ?t * RX_FRAME_SIZE) (le_bytes 4 (unat TP_STATUS_KERNEL)) = Some mem" using s by (simp add: store_le_def)
  have at: "frame_at mem i = frame_at (nm_mem w) i" if "i < RX_FRAME_NR" "i \<noteq> slot ?t" for i
  proof -
    have "i * RX_FRAME_SIZE + RX_FRAME_SIZE \<le> slot ?t * RX_FRAME_SIZE \<or> slot ?t * RX_FRAME_SIZE + 4 \<le> i * RX_FRAME_SIZE"
    proof (cases "i < slot ?t")
      case True
      then have "Suc i * RX_FRAME_SIZE \<le> slot ?t * RX_FRAME_SIZE" by (intro mult_le_mono1) simp
      then show ?thesis by simp
    next
      case False
      then have "Suc (slot ?t) * RX_FRAME_SIZE \<le> i * RX_FRAME_SIZE" using that by (intro mult_le_mono1) simp
      then show ?thesis by (simp add: RX_FRAME_SIZE_def)
    qed
    then show ?thesis using mem_write_read(2) [OF w] by (simp add: frame_at_def)
  qed
  have other: "frame_ready mem i pkt = frame_ready (nm_mem w) i pkt" "load32 mem (i * RX_FRAME_SIZE) = load32 (nm_mem w) (i * RX_FRAME_SIZE)"
    if "i < RX_FRAME_NR" "i \<noteq> slot ?t" for i pkt
    using frames_kept [of "nm_mem w" i mem] I at [OF that] that(1) by simp_all
  have zero: "load32 mem (slot ?t * RX_FRAME_SIZE) = Some TP_STATUS_KERNEL"
    using mem_has_write [of "nm_mem w" "status_store (slot ?t) TP_STATUS_KERNEL" mem] w load32_status by (simp add: status_store_def)
  have "frame_ready mem (slot k) (pkts ! k)" if "k \<in> {?t + 1..<?f}" for k
  proof -
    have "slot k \<noteq> slot ?t" using that I by (intro slot_differs) auto
    then show ?thesis using other(1) [of "slot k"] I that by auto
  qed
  moreover have "load32 mem (j * RX_FRAME_SIZE) = Some TP_STATUS_KERNEL" if "j < RX_FRAME_NR" "\<not> full_in (?t + 1) ?f j" for j
  proof (cases "j = slot ?t")
    case False
    then have "\<not> full_in ?t ?f j" using that(2) by (auto simp: full_in_def) (metis Suc_leI atLeastLessThan_iff le_neq_implies_less)
    then show ?thesis using other(2) [OF that(1) False] I that(1) by simp
  qed (simp add: zero)
  moreover have "(slot ?t + 1) mod RX_FRAME_NR = slot (?t + 1)" by (simp add: mod_Suc_eq)
  ultimately show ?thesis using I t mem_write_length [OF w] by (simp add: net_inv_def r)
qed

lemma net_poll_idle:
  assumes "net_inv pkts w" "nm_taken w = nm_filled w"
  shows "poll_round poll_args parse_block (nm_mem w) (nm_receiver w) (nm_handler w) = Some (nm_mem w, nm_receiver w, nm_handler w)"
proof -
  have "load32 (nm_mem w) (slot (nm_taken w) * RX_FRAME_SIZE) = Some TP_STATUS_KERNEL"
    using assms by (simp add: net_inv_def full_in_def)
  then show ?thesis using assms(1) by (simp add: net_inv_def poll_round_def TP_STATUS_KERNEL_def)
qed

context shared_handler
begin

lemma net_poll_frame:
  assumes inv: "net_inv pkts w" and t: "nm_taken w < nm_filled w" and l: "list_all (\<lambda>pkt. 42 \<le> length pkt) pkts"
    and g: "good (map (drop 42) pkts) (nm_taken w) (nm_handler w)"
  obtains mem r h where "poll_round poll_args parse_block (nm_mem w) (nm_receiver w) (nm_handler w) = Some (mem, r, h)"
    "r \<noteq> nm_receiver w" "good (map (drop 42) pkts) (nm_taken w + 1) h"
    "net_inv pkts (w\<lparr>nm_mem := mem, nm_receiver := r, nm_handler := h, nm_taken := nm_taken w + 1\<rparr>)"
proof -
  let ?t = "nm_taken w" and ?o = "slot (nm_taken w) * RX_FRAME_SIZE"
  note I = inv [unfolded net_inv_def]
  have "?t < length pkts" using I t by linarith
  then have n: "?t < length pkts" "42 \<le> length (pkts ! ?t)" "map (drop 42) pkts ! ?t = drop 42 (pkts ! ?t)" using l by (simp_all add: list_all_length)
  have "frame_ready (nm_mem w) (slot ?t) (pkts ! ?t)" using I t by simp
  then obtain status tp_mac where s: "load32 (nm_mem w) ?o = Some status" "status AND TP_STATUS_USER \<noteq> 0"
    "kernel_frame (nm_mem w) ?o tp_mac (pkts ! ?t)" unfolding frame_ready_def by blast
  note a = poll_args_slice [OF s(3) n(2)]
  have lt: "?t < length (map (drop 42) pkts)" using n(1) by simp
  have "mem_read (nm_mem w) (?o + tp_mac + 42) (length (map (drop 42) pkts ! ?t)) = Some (map (drop 42) pkts ! ?t)"
    unfolding n(3) length_drop using a by (rule conjunct2)
  from parse_in_memory [OF g lt this] obtain h where
    h: "parse_block (nm_mem w) (?o + tp_mac + 42) (int (length (pkts ! ?t) - 42)) (nm_handler w) = Some h" "good (map (drop 42) pkts) (Suc ?t) h"
    unfolding n(3) length_drop by blast
  have "?o + 4 \<le> length (nm_mem w)" using s(1) by (auto simp: load32_def mem_read_def split: if_splits bind_splits)
  then obtain mem where m: "store_le (nm_mem w) ?o 4 (unat TP_STATUS_KERNEL) = Some mem" by (simp add: store_le_def mem_write_def)
  let ?r = "(nm_receiver w)\<lparr>mr_curr_frame_idx := (mr_curr_frame_idx (nm_receiver w) + 1) mod RX_FRAME_NR,
      mr_total_packets := mr_total_packets (nm_receiver w) + 1\<rparr>"
  have "poll_round poll_args parse_block (nm_mem w) (nm_receiver w) (nm_handler w) = Some (mem, ?r, h)"
    using I s(1,2) conjunct1 [OF a] h(1) m by (simp add: poll_round_def)
  moreover have "mr_total_packets ?r \<noteq> mr_total_packets (nm_receiver w)" by simp
  then have "?r \<noteq> nm_receiver w" by (rule contrapos_nn) (erule arg_cong)
  ultimately show ?thesis using that h(2) net_give_inv [OF inv t m refl] by simp
qed

lemma net_step_good:
  assumes "net_step parse_block other pkts w w'" "list_all (\<lambda>pkt. 42 \<le> length pkt) pkts"
    and "net_inv pkts w" "good (map (drop 42) pkts) (nm_taken w) (nm_handler w)"
  shows "net_inv pkts w' \<and> good (map (drop 42) pkts) (nm_taken w') (nm_handler w')"
  using assms(1)
proof cases
  case (Fill n mem)
  then have "feed_frame (pkts ! nm_filled w)" by (simp add: bpf_code_accepts split: if_splits)
  then show ?thesis using net_fill_inv [OF assms(3) Fill(2) _ Fill(5,6)] assms(4) Fill(1) by simp
next
  case (Poll mem r h)
  show ?thesis
  proof (cases "nm_taken w < nm_filled w")
    case True
    then obtain mem' r' h' where p: "poll_round poll_args parse_block (nm_mem w) (nm_receiver w) (nm_handler w) = Some (mem', r', h')"
      "r' \<noteq> nm_receiver w" "good (map (drop 42) pkts) (nm_taken w + 1) h'"
      "net_inv pkts (w\<lparr>nm_mem := mem', nm_receiver := r', nm_handler := h', nm_taken := nm_taken w + 1\<rparr>)"
      using net_poll_frame [OF assms(3) _ assms(2,4)] by blast
    then show ?thesis using Poll by simp
  next
    case False
    then have "nm_taken w = nm_filled w" using assms(3) by (simp add: net_inv_def)
    then show ?thesis using net_poll_idle [OF assms(3), of parse_block] Poll assms(3,4) by (simp add: net_inv_def)
  qed
next
  case (Thread h)
  then show ?thesis using assms(3,4) other_good by (simp add: net_inv_def)
qed

lemma net_steps_good:
  assumes "(net_step parse_block other pkts)\<^sup>*\<^sup>* w w'" "list_all (\<lambda>pkt. 42 \<le> length pkt) pkts"
    and "net_inv pkts w" "good (map (drop 42) pkts) (nm_taken w) (nm_handler w)"
  shows "net_inv pkts w' \<and> good (map (drop 42) pkts) (nm_taken w') (nm_handler w')"
  using assms(1) by (induction rule: rtranclp_induct) (use assms net_step_good in blast)+

end

end
