(* ===== verification/Itch_Wire.thy ===== *)
theory Itch_Wire
  imports Byte_Codec Itch_Types
begin

text \<open>
  The messages of the feed in memory, as the packed structs of
  \<^verbatim>\<open>src/protocol/ItchOrderTypes.h\<close> lay them out, and the static functions of
  \<^verbatim>\<open>src/protocol/ItchParser.h\<close> that turn them into normalised orders: \<open>extract_header\<close>,
  \<open>parse_add_order\<close>, \<open>parse_executed_order\<close> and \<open>parse_cancel_order\<close>. The encoders write a message the
  way the exchange sends it, every integer big-endian.
\<close>

section \<open>The packed structs\<close>

record AddOrder_raw =
  ra_message_type :: u8
  ra_stock_locate :: u16
  ra_tracking_number :: u16
  ra_timestamp :: "u8 list"
  ra_order_reference_number :: u64
  ra_indicator :: u8
  ra_shares :: u32
  ra_stock :: "u8 list"
  ra_price :: u32

record OrderExecuted_raw =
  re_message_type :: u8
  re_stock_locate :: u16
  re_tracking_number :: u16
  re_timestamp :: "u8 list"
  re_order_reference_number :: u64
  re_shares :: u32
  re_match_number :: u64

record CancelOrder_raw =
  rc_message_type :: u8
  rc_stock_locate :: u16
  rc_tracking_number :: u16
  rc_timestamp :: "u8 list"
  rc_order_reference_number :: u64
  rc_shares :: u32

text \<open>
  \<^verbatim>\<open>reinterpret_cast<const AddOrder*>(raw_data)\<close> and its siblings: the fields of the struct that
  starts at an offset of the buffer, loaded as the machine loads them.
\<close>

definition AddOrder_at :: "u8 list \<Rightarrow> nat \<Rightarrow> AddOrder_raw option" where
  "AddOrder_at mem off = do {
     message_type \<leftarrow> load8 mem off;
     stock_locate \<leftarrow> load16 mem (off + 1);
     tracking_number \<leftarrow> load16 mem (off + 3);
     timestamp \<leftarrow> mem_read mem (off + 5) 6;
     order_reference_number \<leftarrow> load64 mem (off + 11);
     indicator \<leftarrow> load8 mem (off + 19);
     shares \<leftarrow> load32 mem (off + 20);
     stock \<leftarrow> mem_read mem (off + 24) 8;
     price \<leftarrow> load32 mem (off + 32);
     Some \<lparr>ra_message_type = message_type, ra_stock_locate = stock_locate, ra_tracking_number = tracking_number,
       ra_timestamp = timestamp, ra_order_reference_number = order_reference_number, ra_indicator = indicator,
       ra_shares = shares, ra_stock = stock, ra_price = price\<rparr>
   }"

definition OrderExecuted_at :: "u8 list \<Rightarrow> nat \<Rightarrow> OrderExecuted_raw option" where
  "OrderExecuted_at mem off = do {
     message_type \<leftarrow> load8 mem off;
     stock_locate \<leftarrow> load16 mem (off + 1);
     tracking_number \<leftarrow> load16 mem (off + 3);
     timestamp \<leftarrow> mem_read mem (off + 5) 6;
     order_reference_number \<leftarrow> load64 mem (off + 11);
     shares \<leftarrow> load32 mem (off + 19);
     match_number \<leftarrow> load64 mem (off + 23);
     Some \<lparr>re_message_type = message_type, re_stock_locate = stock_locate, re_tracking_number = tracking_number,
       re_timestamp = timestamp, re_order_reference_number = order_reference_number, re_shares = shares,
       re_match_number = match_number\<rparr>
   }"

definition CancelOrder_at :: "u8 list \<Rightarrow> nat \<Rightarrow> CancelOrder_raw option" where
  "CancelOrder_at mem off = do {
     message_type \<leftarrow> load8 mem off;
     stock_locate \<leftarrow> load16 mem (off + 1);
     tracking_number \<leftarrow> load16 mem (off + 3);
     timestamp \<leftarrow> mem_read mem (off + 5) 6;
     order_reference_number \<leftarrow> load64 mem (off + 11);
     shares \<leftarrow> load32 mem (off + 19);
     Some \<lparr>rc_message_type = message_type, rc_stock_locate = stock_locate, rc_tracking_number = tracking_number,
       rc_timestamp = timestamp, rc_order_reference_number = order_reference_number, rc_shares = shares\<rparr>
   }"

section \<open>The parsing functions\<close>

text \<open>\<^verbatim>\<open>uint64_t ts = 0; memcpy(&ts, payload_ptr + 5, 6)\<close> fills the six low bytes of \<open>ts\<close>.\<close>

definition extract_header :: "u8 list \<Rightarrow> nat \<Rightarrow> Header option" where
  "extract_header mem off = do {
     ts_bytes \<leftarrow> mem_read mem (off + 5) 6;
     let ts = (of_nat (le_nat (ts_bytes @ [0, 0])) :: u64);
     order_reference_number \<leftarrow> load64 mem (off + 11);
     stock_locate \<leftarrow> load16 mem (off + 1);
     tracking_number \<leftarrow> load16 mem (off + 3);
     Some \<lparr>hd_timestamp = drop_bit 16 (bswap64 ts),
       hd_order_reference_number = bswap64 order_reference_number,
       hd_stock_locate = bswap16 stock_locate,
       hd_tracking_number = bswap16 tracking_number\<rparr>
   }"

text \<open>\<^verbatim>\<open>NormalizedOrder new_order{}\<close> is zero before the fields are set.\<close>

definition parse_add_order :: "u8 list \<Rightarrow> nat \<Rightarrow> Header \<Rightarrow> NormalizedOrder option" where
  "parse_add_order mem off header = do {
     data \<leftarrow> AddOrder_at mem off;
     Some (AddOrder \<lparr>na_timestamp = hd_timestamp header,
       na_order_reference_number = hd_order_reference_number header,
       na_shares = bswap32 (ra_shares data),
       na_price = bswap32 (ra_price data),
       na_stock_locate = 0,
       na_tracking_number = 0,
       na_stock = ra_stock data,
       na_indicator = ra_indicator data\<rparr>)
   }"

definition parse_executed_order :: "u8 list \<Rightarrow> nat \<Rightarrow> Header \<Rightarrow> NormalizedOrder option" where
  "parse_executed_order mem off header = do {
     data \<leftarrow> OrderExecuted_at mem off;
     Some (ExecuteOrder \<lparr>ne_timestamp = hd_timestamp header,
       ne_order_reference_number = hd_order_reference_number header,
       ne_match_number = bswap64 (re_match_number data),
       ne_shares = bswap32 (re_shares data),
       ne_stock_locate = hd_stock_locate header,
       ne_tracking_number = hd_tracking_number header\<rparr>)
   }"

definition parse_cancel_order :: "u8 list \<Rightarrow> nat \<Rightarrow> Header \<Rightarrow> NormalizedOrder option" where
  "parse_cancel_order mem off header = do {
     data \<leftarrow> CancelOrder_at mem off;
     Some (CancelOrder \<lparr>nc_timestamp = hd_timestamp header,
       nc_order_reference_number = hd_order_reference_number header,
       nc_shares = bswap32 (rc_shares data),
       nc_stock_locate = hd_stock_locate header,
       nc_tracking_number = hd_tracking_number header\<rparr>)
   }"

text \<open>
  The two switches over the message type: \<^verbatim>\<open>'A'\<close>, \<^verbatim>\<open>'E'\<close> and \<^verbatim>\<open>'X'\<close> are parsed, every other
  type is not.
\<close>

definition parse_order :: "u8 list \<Rightarrow> nat \<Rightarrow> u8 \<Rightarrow> NormalizedOrder option option" where
  "parse_order mem off message_type =
     (if message_type = 0x41 then do { header \<leftarrow> extract_header mem off; new_order \<leftarrow> parse_add_order mem off header; Some (Some new_order) }
      else if message_type = 0x45 then do { header \<leftarrow> extract_header mem off; new_order \<leftarrow> parse_executed_order mem off header; Some (Some new_order) }
      else if message_type = 0x58 then do { header \<leftarrow> extract_header mem off; new_order \<leftarrow> parse_cancel_order mem off header; Some (Some new_order) }
      else Some None)"

section \<open>Messages as the exchange sends them\<close>

definition wire_header :: "u8 \<Rightarrow> u16 \<Rightarrow> u16 \<Rightarrow> u64 \<Rightarrow> u64 \<Rightarrow> u8 list" where
  "wire_header message_type stock_locate tracking_number timestamp order_reference_number =
     message_type # be_bytes 2 (unat stock_locate) @ be_bytes 2 (unat tracking_number) @
     be_bytes 6 (unat timestamp) @ be_bytes 8 (unat order_reference_number)"

fun wire_order :: "NormalizedOrder \<Rightarrow> u8 list" where
  "wire_order (AddOrder a) =
     wire_header 0x41 (na_stock_locate a) (na_tracking_number a) (na_timestamp a) (na_order_reference_number a) @
     [na_indicator a] @ be_bytes 4 (unat (na_shares a)) @ na_stock a @ be_bytes 4 (unat (na_price a))"
| "wire_order (ExecuteOrder e) =
     wire_header 0x45 (ne_stock_locate e) (ne_tracking_number e) (ne_timestamp e) (ne_order_reference_number e) @
     be_bytes 4 (unat (ne_shares e)) @ be_bytes 8 (unat (ne_match_number e))"
| "wire_order (CancelOrder c) =
     wire_header 0x58 (nc_stock_locate c) (nc_tracking_number c) (nc_timestamp c) (nc_order_reference_number c) @
     be_bytes 4 (unat (nc_shares c))"

text \<open>An order that fits its message: a time stamp of six bytes and a stock symbol of eight.\<close>

fun wire_ok :: "NormalizedOrder \<Rightarrow> bool" where
  "wire_ok (AddOrder a) \<longleftrightarrow> unat (na_timestamp a) < 2 ^ 48 \<and> length (na_stock a) = 8"
| "wire_ok (ExecuteOrder e) \<longleftrightarrow> unat (ne_timestamp e) < 2 ^ 48"
| "wire_ok (CancelOrder c) \<longleftrightarrow> unat (nc_timestamp c) < 2 ^ 48"

text \<open>What the parser makes of an order: an add order loses its locate code and tracking number.\<close>

fun normalized :: "NormalizedOrder \<Rightarrow> NormalizedOrder" where
  "normalized (AddOrder a) = AddOrder (a\<lparr>na_stock_locate := 0, na_tracking_number := 0\<rparr>)"
| "normalized (ExecuteOrder e) = ExecuteOrder e"
| "normalized (CancelOrder c) = CancelOrder c"

fun wire_type :: "NormalizedOrder \<Rightarrow> u8" where
  "wire_type (AddOrder a) = 0x41"
| "wire_type (ExecuteOrder e) = 0x45"
| "wire_type (CancelOrder c) = 0x58"

lemma length_wire_order:
  "wire_ok msg \<Longrightarrow> length (wire_order msg) = (case msg of AddOrder _ \<Rightarrow> 36 | ExecuteOrder _ \<Rightarrow> 31 | CancelOrder _ \<Rightarrow> 23)"
  by (cases msg) (simp_all add: wire_header_def)

text \<open>A field at the end of a known prefix.\<close>

lemma mem_read_at:
  "off = length xs \<Longrightarrow> n = length ys \<Longrightarrow> mem_read (xs @ ys @ zs) off n = Some ys"
  by (simp add: mem_read_append)

text \<open>Reads at constant offsets of a message: skip the fields in front of the field wanted.\<close>

lemma mem_read_skip:
  "length xs \<le> off \<Longrightarrow> mem_read (xs @ ys) off n = mem_read ys (off - length xs) n"
  by (auto simp: mem_read_def)

lemma mem_read_skip1: "0 < off \<Longrightarrow> mem_read (x # ys) off n = mem_read ys (off - 1) n"
  using mem_read_skip [of "[x]" off ys n] by simp

lemma mem_read_here: "n = length xs \<Longrightarrow> mem_read (xs @ ys) 0 n = Some xs" "n = length xs \<Longrightarrow> mem_read xs 0 n = Some xs"
  by (simp_all add: mem_read_def)

lemma mem_read_byte: "mem_read (x # xs) 0 (Suc 0) = Some [x]"
  by (simp add: mem_read_def)

lemmas fields = mem_read_skip mem_read_skip1 mem_read_here mem_read_byte

lemma extract_header_wire:
  assumes "unat ts < 2 ^ 48"
  shows "extract_header (wire_header t sl tn ts rn @ rest) 0 =
     Some \<lparr>hd_timestamp = ts, hd_order_reference_number = rn, hd_stock_locate = sl, hd_tracking_number = tn\<rparr>"
proof -
  have six: "le_nat (be_bytes 6 (unat ts) @ [0, 0]) = le_nat (be_bytes 6 (unat ts))" by (simp add: le_nat_append)
  have ts: "drop_bit 16 (bswap64 (of_nat (le_nat (be_bytes 6 (unat ts))))) = ts"
    using assms by (simp add: bswap_timestamp le_nat_rev_be)
  show ?thesis
    by (simp add: extract_header_def wire_header_def load16_def load64_def fields six ts bswap_be_field)
qed

text \<open>Where a message starts in the buffer does not matter.\<close>

lemma mem_read_shift0: "mem_read (xs @ ys) (length xs) n = mem_read ys 0 n"
  "mem_read (xs @ ys) (Suc (length xs)) n = mem_read ys 1 n"
  using mem_read_shift [of xs ys 0 n] mem_read_shift [of xs ys 1 n] by simp_all

lemmas shifts = load8_def load16_def load32_def load64_def mem_read_shift mem_read_shift0

lemma parse_order_shift: "parse_order (xs @ ys) (length xs) t = parse_order ys 0 t"
  by (simp add: parse_order_def extract_header_def parse_add_order_def parse_executed_order_def parse_cancel_order_def
      AddOrder_at_def OrderExecuted_at_def CancelOrder_at_def shifts)

lemma parse_add_order_wire:
  "length (na_stock a) = 8 \<Longrightarrow> parse_add_order (wire_order (AddOrder a) @ rest) 0 hdr =
     Some (AddOrder (a\<lparr>na_timestamp := hd_timestamp hdr, na_order_reference_number := hd_order_reference_number hdr,
       na_stock_locate := 0, na_tracking_number := 0\<rparr>))"
  by (simp add: parse_add_order_def AddOrder_at_def wire_header_def shifts fields bswap_be_field)

lemma parse_executed_order_wire:
  "parse_executed_order (wire_order (ExecuteOrder e) @ rest) 0 hdr =
     Some (ExecuteOrder (e\<lparr>ne_timestamp := hd_timestamp hdr, ne_order_reference_number := hd_order_reference_number hdr,
       ne_stock_locate := hd_stock_locate hdr, ne_tracking_number := hd_tracking_number hdr\<rparr>))"
  by (simp add: parse_executed_order_def OrderExecuted_at_def wire_header_def shifts fields bswap_be_field)

lemma parse_cancel_order_wire:
  "parse_cancel_order (wire_order (CancelOrder c) @ rest) 0 hdr =
     Some (CancelOrder (c\<lparr>nc_timestamp := hd_timestamp hdr, nc_order_reference_number := hd_order_reference_number hdr,
       nc_stock_locate := hd_stock_locate hdr, nc_tracking_number := hd_tracking_number hdr\<rparr>))"
  by (simp add: parse_cancel_order_def CancelOrder_at_def wire_header_def shifts fields bswap_be_field)

lemma parse_order_wire0:
  assumes "wire_ok msg"
  shows "parse_order (wire_order msg @ rest) 0 (wire_type msg) = Some (Some (normalized msg))"
proof (cases msg)
  case (AddOrder a)
  have "extract_header (wire_order msg @ rest) 0 = Some \<lparr>hd_timestamp = na_timestamp a,
    hd_order_reference_number = na_order_reference_number a, hd_stock_locate = na_stock_locate a,
    hd_tracking_number = na_tracking_number a\<rparr>"
    using assms AddOrder by (simp add: extract_header_wire)
  then show ?thesis using assms AddOrder parse_add_order_wire [of a rest] by (simp add: parse_order_def)
next
  case (ExecuteOrder e)
  have "extract_header (wire_order msg @ rest) 0 = Some \<lparr>hd_timestamp = ne_timestamp e,
    hd_order_reference_number = ne_order_reference_number e, hd_stock_locate = ne_stock_locate e,
    hd_tracking_number = ne_tracking_number e\<rparr>"
    using assms ExecuteOrder by (simp add: extract_header_wire)
  then show ?thesis using ExecuteOrder parse_executed_order_wire [of e rest] by (simp add: parse_order_def)
next
  case (CancelOrder c)
  have "extract_header (wire_order msg @ rest) 0 = Some \<lparr>hd_timestamp = nc_timestamp c,
    hd_order_reference_number = nc_order_reference_number c, hd_stock_locate = nc_stock_locate c,
    hd_tracking_number = nc_tracking_number c\<rparr>"
    using assms CancelOrder by (simp add: extract_header_wire)
  then show ?thesis using CancelOrder parse_cancel_order_wire [of c rest] by (simp add: parse_order_def)
qed

text \<open>Every supported message of sufficient length parses.\<close>

lemma parse_order_total:
  assumes "off + (if t = 0x41 then 36 else if t = 0x45 then 31 else if t = 0x58 then 23 else 0) \<le> length mem"
  shows "parse_order mem off t \<noteq> None"
  using assms by (auto simp: parse_order_def extract_header_def parse_add_order_def parse_executed_order_def
      parse_cancel_order_def AddOrder_at_def OrderExecuted_at_def CancelOrder_at_def
      load8_def load16_def load32_def load64_def mem_read_def)

lemma parse_order_prefix:
  assumes "off + (if t = 0x41 then 36 else if t = 0x45 then 31 else if t = 0x58 then 23 else 0) \<le> length xs"
  shows "parse_order (xs @ ys) off t = parse_order xs off t"
  using assms by (simp add: parse_order_def extract_header_def parse_add_order_def parse_executed_order_def
      parse_cancel_order_def AddOrder_at_def OrderExecuted_at_def CancelOrder_at_def
      load8_def load16_def load32_def load64_def mem_read_within split: if_splits)

lemma parse_order_None: "parse_order mem off t = Some None \<longleftrightarrow> t \<notin> {0x41, 0x45, 0x58}"
  by (auto simp: parse_order_def bind_eq_Some_conv)

section \<open>Properties\<close>

text \<open>
  C24. Whatever surrounds it in the buffer, a message sent as the exchange sends it
  is read back field by field: the time stamp through the six-byte load and shift, every
  big-endian integer through its byte swap. Only the locate code and the tracking number of an add
  order are dropped (they read as zero); executions and cancellations keep them.
\<close>

theorem parse_order_roundtrip:
  assumes "wire_ok msg"
  shows "parse_order (before @ wire_order msg @ rest) (length before) (wire_type msg) = Some (Some (normalized msg))"
  using parse_order_wire0 [OF assms] by (simp add: parse_order_shift)

theorem parse_order_roundtrip_witness:
  "parse_order ([1, 2, 3] @ wire_order (AddOrder \<lparr>na_timestamp = 0x123456789ABC, na_order_reference_number = 1001,
       na_shares = 100, na_price = 25, na_stock_locate = 7, na_tracking_number = 9,
       na_stock = [65, 65, 80, 76, 32, 32, 32, 32], na_indicator = 0x42\<rparr>) @ [4]) 3 0x41 =
     Some (Some (AddOrder \<lparr>na_timestamp = 0x123456789ABC, na_order_reference_number = 1001,
       na_shares = 100, na_price = 25, na_stock_locate = 0, na_tracking_number = 0,
       na_stock = [65, 65, 80, 76, 32, 32, 32, 32], na_indicator = 0x42\<rparr>))"
  using parse_order_roundtrip [of "AddOrder \<lparr>na_timestamp = 0x123456789ABC, na_order_reference_number = 1001,
       na_shares = 100, na_price = 25, na_stock_locate = 7, na_tracking_number = 9,
       na_stock = [65, 65, 80, 76, 32, 32, 32, 32], na_indicator = 0x42\<rparr>" "[1, 2, 3]" "[4]"]
  by (simp add: numeral_3_eq_3 del: wire_order.simps)

end
