(* ===== verification/Crc32.thy ===== *)
theory Crc32
  imports Byte_Codec
begin

text \<open>
  The checksum of a log frame, \<^verbatim>\<open>src/utils/crc32.h\<close>, over the CRC32 instructions of SSE4.2.
  The instruction feeds the bits of its operand, lowest first, to the shift register of the
  Castagnoli polynomial in reflected form.
\<close>

section \<open>The code\<close>

definition crc_poly :: u32 where
  "crc_poly = 0x82F63B78"

definition crc_step :: "bool \<Rightarrow> u32 \<Rightarrow> u32" where
  "crc_step b c = (if bit c 0 \<noteq> b then drop_bit 1 c XOR crc_poly else drop_bit 1 c)"

definition mm_crc32_u64 :: "u64 \<Rightarrow> u64 \<Rightarrow> u64" where
  "mm_crc32_u64 crc v = ucast (fold crc_step (map (bit v) [0..<64]) (ucast crc :: u32))"

definition mm_crc32_u32 :: "u32 \<Rightarrow> u32 \<Rightarrow> u32" where
  "mm_crc32_u32 crc v = fold crc_step (map (bit v) [0..<32]) crc"

text \<open>\<open>off\<close> is the offset of the frame, \<^verbatim>\<open>data\<close>, in its mapping.\<close>

definition calculate_crc32 :: "u8 list \<Rightarrow> nat \<Rightarrow> u32 option" where
  "calculate_crc32 mem off = do {
     p0 \<leftarrow> load64 mem off;
     let crc = mm_crc32_u64 0 p0;
     p1 \<leftarrow> load64 mem (off + 8);
     let crc = mm_crc32_u64 crc p1;
     p2 \<leftarrow> load64 mem (off + 16);
     let crc = mm_crc32_u64 crc p2;
     p3 \<leftarrow> load64 mem (off + 24);
     let crc = mm_crc32_u64 crc p3;
     p4 \<leftarrow> load64 mem (off + 32);
     let crc = mm_crc32_u64 crc p4;
     p5 \<leftarrow> load64 mem (off + 40);
     let crc = mm_crc32_u64 crc p5;
     p6 \<leftarrow> load64 mem (off + 48);
     let crc = mm_crc32_u64 crc p6;
     ptr32 \<leftarrow> load32 mem (off + 56);
     let crc = mm_crc32_u32 (ucast crc) ptr32;
     Some crc
   }"

section \<open>The checksum of a byte string\<close>

definition byte_bits :: "u8 list \<Rightarrow> bool list" where
  "byte_bits bs = concat (map (\<lambda>b. map (bit b) [0..<8]) bs)"

definition crc_bytes :: "u8 list \<Rightarrow> u32" where
  "crc_bytes bs = fold crc_step (byte_bits bs) 0"

lemma byte_bits_simps [simp]:
  "byte_bits [] = []" "byte_bits (b # bs) = map (bit b) [0..<8] @ byte_bits bs"
  "byte_bits (xs @ ys) = byte_bits xs @ byte_bits ys"
  by (simp_all add: byte_bits_def del: upt_Suc)

lemma length_byte_bits [simp]: "length (byte_bits bs) = 8 * length bs"
  by (induction bs) (simp_all del: upt_Suc)

lemma bit_byte_cons:
  assumes "a < 256"
  shows "bit (a + 256 * m :: nat) i \<longleftrightarrow> (if i < 8 then bit a i else bit m (i - 8))"
proof (cases "i < 8")
  case True
  then have "(256 :: nat) = 2 ^ i * (2 * 2 ^ (7 - i))" by (simp flip: power_add power_Suc)
  then have "a + 256 * m = a + 2 ^ i * (2 * 2 ^ (7 - i) * m)" by (simp only: mult.assoc)
  moreover have "(a + 2 ^ i * k) div 2 ^ i = k + a div 2 ^ i" for k by (rule div_mult_self2) simp
  ultimately have "(a + 256 * m) div 2 ^ i = 2 * 2 ^ (7 - i) * m + a div 2 ^ i" by (simp only:)
  then show ?thesis using True by (simp add: bit_iff_odd)
next
  case False
  then have "(2 :: nat) ^ i = 256 * 2 ^ (i - 8)" using power_add [of "2 :: nat" 8 "i - 8"] by simp
  moreover have "(a + 256 * m) div 256 = m" using assms by simp
  ultimately have "(a + 256 * m) div 2 ^ i = m div 2 ^ (i - 8)" by (simp only: div_mult2_eq)
  then show ?thesis using False by (simp add: bit_iff_odd)
qed

lemma bits_le_nat: "map (bit (le_nat bs)) [0..<8 * length bs] = byte_bits bs"
proof (induction bs)
  case (Cons b bs)
  have b: "unat b < 256" using unsigned_less [of b] by simp
  have "[0..<8 * length (b # bs)] = [0..<8] @ map (\<lambda>i. i + 8) [0..<8 * length bs]"
    by (simp add: map_add_upt upt_add_eq_append [of 0 8] add.commute del: upt_Suc)
  then have "map (bit (le_nat (b # bs))) [0..<8 * length (b # bs)] =
    map (bit (unat b)) [0..<8] @ map (bit (le_nat bs)) [0..<8 * length bs]"
    by (simp add: bit_byte_cons [OF b] del: upt_Suc)
  then show ?case using Cons by (simp add: bit_unsigned_iff del: upt_Suc)
qed simp

lemma bits_of_load:
  "length bs = 8 \<Longrightarrow> map (bit (of_nat (le_nat bs) :: u64)) [0..<64] = byte_bits bs"
  "length bs = 4 \<Longrightarrow> map (bit (of_nat (le_nat bs) :: u32)) [0..<32] = byte_bits bs"
  using bits_le_nat [of bs] map_cong [OF refl, of "[0..<64]" "bit (of_nat (le_nat bs) :: u64)" "bit (le_nat bs)"]
    map_cong [OF refl, of "[0..<32]" "bit (of_nat (le_nat bs) :: u32)" "bit (le_nat bs)"]
  by (simp_all add: bit_simps del: upt_Suc)

lemma down_ucast: "ucast (ucast (c :: u32) :: u64) = c"
  by (simp add: ucast_down_ucast_id is_down)

lemma crc32_u64_bytes:
  assumes "length bs = 8"
  shows "mm_crc32_u64 (ucast (c :: u32)) (of_nat (le_nat bs)) = ucast (fold crc_step (byte_bits bs) c)"
  using bits_of_load(1) [OF assms] by (simp only: mm_crc32_u64_def down_ucast)

lemma crc32_u32_bytes:
  assumes "length bs = 4"
  shows "mm_crc32_u32 c (of_nat (le_nat bs)) = fold crc_step (byte_bits bs) c"
  using bits_of_load(2) [OF assms] by (simp add: mm_crc32_u32_def del: upt_Suc)

lemma drop_chunk: "drop k xs = take 8 (drop k xs) @ drop (k + 8) xs"
  by (metis add.commute append_take_drop_id drop_drop)

text \<open>The eight loads cover the first sixty bytes of the frame.\<close>

lemma calculate_crc32_eq:
  assumes "off + 60 \<le> length mem"
  shows "calculate_crc32 mem off = Some (crc_bytes (take 60 (drop off mem)))"
proof -
  define bs where "bs = take 60 (drop off mem)"
  have len: "length bs = 60" using assms by (simp add: bs_def)
  have rd: "mem_read mem (off + k) n = Some (take n (drop k bs))" if "k + n \<le> 60" for k n
    using assms that by (simp add: mem_read_def bs_def drop_take min_absorb1 add.commute)
  have w: "load64 mem (off + k) = Some (of_nat (le_nat (take 8 (drop k bs))))" if "k \<le> 52" for k
    using rd [of k 8] that by (simp add: load64_def)
  have w32: "load32 mem (off + 56) = Some (of_nat (le_nat (drop 56 bs)))" using rd [of 56 4] len by (simp add: load32_def)
  have whole: "bs = take 8 (drop 0 bs) @ take 8 (drop 8 bs) @ take 8 (drop 16 bs) @ take 8 (drop 24 bs) @
      take 8 (drop 32 bs) @ take 8 (drop 40 bs) @ take 8 (drop 48 bs) @ drop 56 bs"
    using drop_chunk [of 0 bs] drop_chunk [of 8 bs] drop_chunk [of 16 bs] drop_chunk [of 24 bs]
      drop_chunk [of 32 bs] drop_chunk [of 40 bs] drop_chunk [of 48 bs] by simp
  let ?f = "\<lambda>k. fold crc_step (byte_bits (take 8 (drop k bs)))"
  have chunk: "mm_crc32_u64 (ucast (c :: u32)) (of_nat (le_nat (take 8 (drop k bs)))) = ucast (?f k c)" if "k \<le> 52" for k c
    using that len by (intro crc32_u64_bytes) simp
  have first: "mm_crc32_u64 0 (of_nat (le_nat (take 8 (drop 0 bs)))) = ucast (?f 0 0)" using chunk [of 0 0] by simp
  have last: "mm_crc32_u32 c (of_nat (le_nat (drop 56 bs))) = fold crc_step (byte_bits (drop 56 bs)) c" for c
    using len by (intro crc32_u32_bytes) simp
  have "calculate_crc32 mem off = Some (fold crc_step (byte_bits (drop 56 bs)) (?f 48 (?f 40 (?f 32 (?f 24 (?f 16 (?f 8 (?f 0 0))))))))"
    using w [of 0] w [of 8] w [of 16] w [of 24] w [of 32] w [of 40] w [of 48] w32
    by (simp add: calculate_crc32_def Let_def first [simplified] chunk last down_ucast)
  also have "\<dots> = Some (crc_bytes (take 8 (drop 0 bs) @ take 8 (drop 8 bs) @ take 8 (drop 16 bs) @ take 8 (drop 24 bs) @
      take 8 (drop 32 bs) @ take 8 (drop 40 bs) @ take 8 (drop 48 bs) @ drop 56 bs))"
    by (simp only: crc_bytes_def byte_bits_simps fold_append comp_apply)
  also have "\<dots> = Some (crc_bytes bs)" by (simp only: whole [symmetric])
  finally show ?thesis by (simp only: bs_def)
qed

section \<open>Errors it detects\<close>

lemma crc_step_linear:
  "crc_step (a = (\<not> b)) (c XOR d) = crc_step a c XOR crc_step b d"
  by (intro bit_word_eqI) (auto simp: crc_step_def bit_simps)

lemma crc_fold_linear:
  "length as = length bs \<Longrightarrow>
   fold crc_step (map2 (\<noteq>) as bs) (c XOR d) = fold crc_step as c XOR fold crc_step bs d"
  by (induction as bs arbitrary: c d rule: list_induct2) (simp_all add: crc_step_linear)

text \<open>A zero bit can be fed to a state without losing it: the polynomial has its top bit set.\<close>

lemma crc_step_zero:
  assumes "crc_step False c = 0"
  shows "c = 0"
proof -
  have "bit (crc_step False c) 31 = bit c 0"
    by (auto simp: crc_step_def bit_simps crc_poly_def dest: bit_imp_le_length)
  then have b0: "\<not> bit c 0" using assms by simp
  then have "drop_bit 1 c = 0" using assms by (simp add: crc_step_def)
  moreover have "bit (drop_bit 1 c) n = bit c (Suc n)" for n by (simp only: bit_drop_bit_eq comp_apply plus_1_eq_Suc)
  ultimately have "\<not> bit c (Suc n)" for n by (metis bit_0_eq bot_apply bot_bool_def)
  then have "\<not> bit c n" for n using b0 by (cases n) auto
  then show ?thesis by (intro bit_word_eqI) simp
qed

lemma crc_zeros_nonzero: "c \<noteq> 0 \<Longrightarrow> fold crc_step (replicate n False) c \<noteq> 0"
  by (induction n arbitrary: c) (auto dest: crc_step_zero)

definition bits_word :: "bool list \<Rightarrow> u32" where
  "bits_word bs = horner_sum of_bool 2 bs"

lemma bit_bits_word: "length bs \<le> 32 \<Longrightarrow> bit (bits_word bs) n \<longleftrightarrow> n < length bs \<and> bs ! n"
  by (auto simp: bits_word_def bit_horner_sum_bit_iff)

text \<open>Feeding up to 32 bits is feeding zeros to the state with the bits added to it.\<close>

lemma crc_feed:
  "length bs \<le> 32 \<Longrightarrow> fold crc_step bs c = fold crc_step (replicate (length bs) False) (c XOR bits_word bs)"
proof (induction bs arbitrary: c)
  case (Cons b bs)
  have "crc_step False (c XOR bits_word (b # bs)) = crc_step b c XOR bits_word bs"
  proof (rule bit_word_eqI)
    fix n assume n: "n < LENGTH(32)"
    have "bit (bits_word (b # bs)) 0 = b" "bit (bits_word (b # bs)) (Suc n) = bit (bits_word bs) n"
      using Cons.prems by (simp_all add: bit_bits_word)
    then show "bit (crc_step False (c XOR bits_word (b # bs))) n = bit (crc_step b c XOR bits_word bs) n"
      using n by (auto simp: crc_step_def bit_simps)
  qed
  then show ?case using Cons by simp
qed (simp add: bits_word_def)

lemma crc_burst_nonzero:
  assumes "length w \<le> 32" "True \<in> set w"
  shows "fold crc_step (replicate k False @ w @ replicate r False) 0 \<noteq> 0"
proof -
  have zeros: "fold crc_step (replicate k False) 0 = 0" by (induction k) (simp_all add: crc_step_def)
  obtain i where "i < length w" "w ! i" using assms(2) by (auto simp: in_set_conv_nth)
  then have "bits_word w \<noteq> 0" using bit_bits_word [OF assms(1), of i] by auto
  then have "fold crc_step w 0 \<noteq> 0" using crc_feed [OF assms(1), of 0] crc_zeros_nonzero by simp
  then show ?thesis using zeros crc_zeros_nonzero by simp
qed

lemma byte_bits_inj: "length xs = length ys \<Longrightarrow> byte_bits xs = byte_bits ys \<Longrightarrow> xs = ys"
proof (induction xs ys rule: list_induct2)
  case (Cons x xs y ys)
  then have "map (bit x) [0..<8] = map (bit y) [0..<8]" "byte_bits xs = byte_bits ys" by (simp_all del: upt_Suc)
  then show ?case using Cons.IH by (auto intro!: bit_word_eqI)
qed simp

lemma window_split:
  assumes "\<And>i. i < length bs \<Longrightarrow> bs ! i \<Longrightarrow> k \<le> i \<and> i < k + n" "k \<le> length bs"
  shows "\<exists>r. bs = replicate k False @ take n (drop k bs) @ replicate r False"
proof -
  have out: "\<not> bs ! i" if "i < length bs" "i < k \<or> k + n \<le> i" for i
    using assms(1) [of i] that by linarith
  have "take k bs = replicate k False" using assms(2) by (intro nth_equalityI) (simp_all add: out)
  moreover have "drop n (drop k bs) = replicate (length bs - k - n) False"
    using assms(2) by (intro nth_equalityI) (simp_all add: out)
  ultimately have "bs = replicate k False @ take n (drop k bs) @ replicate (length bs - k - n) False"
    by (metis append_take_drop_id)
  then show ?thesis by blast
qed

lemma crc_window:
  assumes len: "length as = length bs" and ne: "as \<noteq> bs"
    and win: "\<And>i. i < length as \<Longrightarrow> as ! i \<noteq> bs ! i \<Longrightarrow> k \<le> i \<and> i < k + 32"
  shows "fold crc_step as 0 \<noteq> fold crc_step bs 0"
proof -
  define d where "d = map2 (\<noteq>) as bs"
  have nth: "length d = length as" "\<And>j. j < length as \<Longrightarrow> d ! j = (as ! j \<noteq> bs ! j)"
    using len by (simp_all add: d_def)
  obtain i where i: "i < length as" "as ! i \<noteq> bs ! i" using ne len by (auto simp: list_eq_iff_nth_eq)
  have k: "k \<le> length d" using win [OF i] i(1) nth(1) by simp
  have dwin: "k \<le> j \<and> j < k + 32" if "j < length d" "d ! j" for j
    using win [of j] nth that by simp
  obtain r where d: "d = replicate k False @ take 32 (drop k d) @ replicate r False"
    using window_split [OF dwin k] by blast
  have "d ! i" "i < length d" using i nth by simp_all
  then have "True \<in> set d" by (auto simp: in_set_conv_nth)
  then have "True \<in> set (take 32 (drop k d))" by (subst (asm) d) auto
  then have "fold crc_step d 0 \<noteq> 0" by (subst d) (rule crc_burst_nonzero, simp_all)
  moreover have "fold crc_step d 0 = fold crc_step as 0 XOR fold crc_step bs 0"
    using crc_fold_linear [OF len, of 0 0] by (simp add: d_def)
  ultimately show ?thesis by auto
qed

lemma byte_bits_nth: "i < 8 * length bs \<Longrightarrow> byte_bits bs ! i = bit (bs ! (i div 8)) (i mod 8)"
proof (induction bs arbitrary: i)
  case (Cons b bs)
  show ?case
  proof (cases "i < 8")
    case False
    then have "i div 8 = Suc ((i - 8) div 8)" "i mod 8 = (i - 8) mod 8"
      by (simp_all add: le_div_geq le_mod_geq)
    then show ?thesis using Cons False by (simp add: nth_append del: upt_Suc)
  qed (simp add: nth_append del: upt_Suc)
qed simp

lemma crc_bytes_burst:
  assumes "length xs = 60" "length ys = 60" "xs \<noteq> ys"
    and "\<forall>i<480. byte_bits xs ! i \<noteq> byte_bits ys ! i \<longrightarrow> k \<le> i \<and> i < k + 32"
  shows "crc_bytes xs \<noteq> crc_bytes ys"
  unfolding crc_bytes_def
proof (rule crc_window [where k = k])
  show "byte_bits xs \<noteq> byte_bits ys" using byte_bits_inj [of xs ys] assms by argo
  show "k \<le> i \<and> i < k + 32" if "i < length (byte_bits xs)" "byte_bits xs ! i \<noteq> byte_bits ys ! i" for i
    using assms(4) [rule_format, of i] that assms(1) by simp
qed (simp only: length_byte_bits assms)

section \<open>Properties\<close>

text \<open>
  C32. The checksum tells apart any two frames that differ only within a window of 32
  consecutive bits of the sixty bytes it covers, at any bit position: a flipped bit, a
  corrupted byte, or a torn four-byte write, aligned or not, always changes it.
\<close>

theorem crc_detects_burst:
  assumes "off + 60 \<le> length mem" "length mem' = length mem"
    and "take 60 (drop off mem) \<noteq> take 60 (drop off mem')"
    and "\<forall>i<480. byte_bits (take 60 (drop off mem)) ! i \<noteq> byte_bits (take 60 (drop off mem')) ! i \<longrightarrow> k \<le> i \<and> i < k + 32"
  shows "calculate_crc32 mem off \<noteq> calculate_crc32 mem' off"
proof -
  have "crc_bytes (take 60 (drop off mem)) \<noteq> crc_bytes (take 60 (drop off mem'))"
    by (rule crc_bytes_burst [OF _ _ assms(3,4)]) (use assms(1,2) in simp_all)
  then show ?thesis using assms(1,2) by (simp add: calculate_crc32_eq)
qed

theorem crc_detects_burst_witness:
  "calculate_crc32 (replicate 60 0) 0 \<noteq> calculate_crc32 ((replicate 60 0)[7 := 0xAA]) 0"
proof (rule crc_detects_burst [where k = 56])
  let ?a = "replicate 60 0 :: u8 list"
  have "?a ! 7 \<noteq> ?a[7 := 0xAA] ! 7" by simp
  then have "?a \<noteq> ?a[7 := 0xAA]" by (rule contrapos_nn) (rule arg_cong)
  then show "take 60 (drop 0 ?a) \<noteq> take 60 (drop 0 (?a[7 := 0xAA]))" by simp
  show "\<forall>i<480. byte_bits (take 60 (drop 0 ?a)) ! i \<noteq> byte_bits (take 60 (drop 0 (?a[7 := 0xAA]))) ! i \<longrightarrow>
        56 \<le> i \<and> i < 56 + 32"
    by (auto simp: byte_bits_nth nth_list_update less_mult_imp_div_less split: if_splits)
qed simp_all

end
