(* ===== verification/Wal_Log.thy ===== *)
theory Wal_Log
  imports Crc32 Posix_Resources
begin

text \<open>
  The write-ahead log: the frames of \<^verbatim>\<open>src/utils/WalFrame.h\<close>, the mapped file of
  \<^verbatim>\<open>src/recovery/MmapLogger.cpp\<close> they are written to, and \<open>log_payload\<close> of
  \<^verbatim>\<open>src/protocol/ItchParser.h\<close>, which fills a frame. The mapping is a byte array; the frame is
  written into it store by store, so that a payload longer than its field overwrites what
  comes after it.
\<close>

section \<open>The logger\<close>

record WalFrame =
  marker :: u8
  msg_type :: u8
  channel_id :: u16
  seq_num :: u32
  timestamp :: u64
  payload :: "u8 list"
  checksum :: u32

definition FILE_SIZE :: nat where
  "FILE_SIZE = 2 ^ 30"

text \<open>\<open>lg_start\<close> and \<open>lg_curr\<close> are the two pointers, 0 the null pointer; \<open>wal\<close> is the memory at \<open>lg_start\<close>.\<close>

record MmapLogger =
  lg_start :: nat
  lg_curr :: nat
  wal :: "u8 list"

text \<open>The file is truncated when it is opened and then allocated, so it reads as zeros.\<close>

definition MmapLogger :: "kernel \<Rightarrow> (error + MmapLogger) \<times> kernel" where
  "MmapLogger k =
     (let (fd, k) = sys_fd k in
      if fd = - 1 then (Inl (Runtime_error ''MmapLogger(): unable to create new file''), k) else
      let (ok, k) = sys_ok k in
      if \<not> ok then (Inl (Runtime_error ''MmapLogger(): unable to fallocate''), sys_close fd k) else
      let (addr, k) = sys_mmap FILE_SIZE k in
      case addr of
        None \<Rightarrow> (Inl (Runtime_error ''MmapLogger(): unable to mmap file''), sys_close fd k)
      | Some start \<Rightarrow>
          let (ok, k) = sys_ok k in
          if \<not> ok then (Inl (Runtime_error ''MmapLogger(): unable to use madvise''), sys_munmap start FILE_SIZE (sys_close fd k))
          else (Inr \<lparr>lg_start = start, lg_curr = start, wal = replicate FILE_SIZE 0\<rparr>, sys_close fd k))"

definition MmapLogger_destroy :: "MmapLogger \<Rightarrow> kernel \<Rightarrow> kernel" where
  "MmapLogger_destroy lg k = (if lg_start lg \<noteq> 0 then sys_munmap (lg_start lg) FILE_SIZE k else k)"

definition MmapLogger_move :: "MmapLogger \<Rightarrow> MmapLogger \<times> MmapLogger" where
  "MmapLogger_move other = (other, \<lparr>lg_start = 0, lg_curr = 0, wal = []\<rparr>)"

text \<open>\<^verbatim>\<open>operator=(MmapLogger&&)\<close> of an object other than the object itself.\<close>

definition MmapLogger_assign :: "MmapLogger \<Rightarrow> MmapLogger \<Rightarrow> kernel \<Rightarrow> MmapLogger \<times> MmapLogger \<times> kernel" where
  "MmapLogger_assign this other k =
     (let k = (if lg_start this \<noteq> 0 then sys_munmap (lg_start this) FILE_SIZE k else k)
      in (other, \<lparr>lg_start = 0, lg_curr = 0, wal = []\<rparr>, k))"

text \<open>The frame returned is an address, 0 when the file is full.\<close>

definition reserve_frame :: "MmapLogger \<Rightarrow> nat \<times> MmapLogger" where
  "reserve_frame lg =
     (if lg_curr lg + 64 > lg_start lg + FILE_SIZE then (0, lg)
      else (lg_curr lg, lg\<lparr>lg_curr := lg_curr lg + 64\<rparr>))"

text \<open>The bytes \<^verbatim>\<open>msync\<close> is asked to write to the disk.\<close>

definition flush_to_disk :: "MmapLogger \<Rightarrow> u8 list" where
  "flush_to_disk lg = take (lg_curr lg - lg_start lg) (wal lg)"

text \<open>
  \<open>log_payload\<close> copies \<open>message_len\<close> bytes from offset \<open>off\<close> of the buffer. \<open>tsc\<close> gives what
  \<^verbatim>\<open>__rdtsc()\<close> reads when the frame with a given sequence number is written. The result is
  the new value of \<open>curr_seq_num\<close> and the logger.
\<close>

definition log_payload ::
  "(u64 \<Rightarrow> u64) \<Rightarrow> u8 list \<Rightarrow> nat \<Rightarrow> nat \<Rightarrow> u8 \<Rightarrow> u64 \<Rightarrow> MmapLogger \<Rightarrow> (u64 \<times> MmapLogger) option" where
  "log_payload tsc buf off message_len type curr_seq_num lg =
     (let (wal_frame_ptr, lg) = reserve_frame lg in
      if wal_frame_ptr = 0 then Some (curr_seq_num, lg)
      else do {
        let f = wal_frame_ptr - lg_start lg;
        mem \<leftarrow> store_le (wal lg) f 1 0xAA;
        mem \<leftarrow> store_le mem (f + 1) 1 (unat type);
        mem \<leftarrow> store_le mem (f + 2) 2 1;
        mem \<leftarrow> store_le mem (f + 4) 4 (unat (ucast curr_seq_num :: u32));
        mem \<leftarrow> store_le mem (f + 8) 8 (unat (tsc curr_seq_num));
        bytes \<leftarrow> mem_read buf off message_len;
        mem \<leftarrow> mem_write mem (f + 16) bytes;
        crc \<leftarrow> calculate_crc32 mem f;
        mem \<leftarrow> store_le mem (f + 60) 4 (unat crc);
        Some (curr_seq_num + 1, lg\<lparr>wal := mem\<rparr>)
      })"

section \<open>Resources\<close>

definition MmapLogger_maps :: "MmapLogger \<Rightarrow> nat set" where
  "MmapLogger_maps lg = (if lg_start lg = 0 then {} else {lg_start lg..<lg_start lg + FILE_SIZE})"

lemma MmapLogger_cases:
  assumes "MmapLogger k = (r, k')"
  shows "(case r of
      Inl e \<Rightarrow> same_resources k k'
    | Inr lg \<Rightarrow> lg_start lg \<noteq> 0 \<and> lg_curr lg = lg_start lg \<and> wal lg = replicate FILE_SIZE 0 \<and>
        mset (fds k') = mset (fds k) \<and> mapped k' = MmapLogger_maps lg \<union> mapped k \<and>
        MmapLogger_maps lg \<inter> mapped k = {} \<and> addrinfos k' = addrinfos k)"
proof -
  obtain fd k1 where o: "sys_fd k = (fd, k1)" by fastforce
  obtain b2 k2 where f: "sys_ok k1 = (b2, k2)" by fastforce
  obtain a3 k3 where m: "sys_mmap FILE_SIZE k2 = (a3, k3)" by fastforce
  obtain b4 k4 where d: "sys_ok k3 = (b4, k4)" by fastforce
  note effects = sys_fd_effect [OF o] sys_ok_effect [OF f] sys_mmap_effect [OF m] sys_ok_effect [OF d]
  show ?thesis
    using assms effects unfolding MmapLogger_def o f m d Let_def prod.case
    by (auto simp: same_resources_def MmapLogger_maps_def o f m d split: if_splits option.splits)
qed

interpretation logger: movable_owner MmapLogger MmapLogger_destroy "\<lambda>lg. {#}" MmapLogger_maps MmapLogger_move MmapLogger_assign
proof unfold_locales
  fix k k' :: kernel and x :: MmapLogger and e
  show "MmapLogger k = (Inr x, k') \<Longrightarrow>
      mset (fds k') = {#} + mset (fds k) \<and> mapped k' = MmapLogger_maps x \<union> mapped k \<and>
      MmapLogger_maps x \<inter> mapped k = {} \<and> addrinfos k' = addrinfos k"
    using MmapLogger_cases [of k "Inr x" k'] by simp
  show "MmapLogger k = (Inl e, k') \<Longrightarrow> same_resources k k'"
    using MmapLogger_cases [of k "Inl e" k'] by simp
qed (auto simp: MmapLogger_destroy_def MmapLogger_maps_def MmapLogger_move_def MmapLogger_assign_def
    same_resources_def Let_def split: if_splits)

section \<open>Frames in the log\<close>

definition frame_head :: "u8 \<Rightarrow> u32 \<Rightarrow> u64 \<Rightarrow> u8 list" where
  "frame_head type seq ts = [0xAA, type] @ le_bytes 2 1 @ le_bytes 4 (unat seq) @ le_bytes 8 (unat ts)"

text \<open>The first sixty bytes of a frame, which the checksum covers, and all sixty-four.\<close>

definition covered_bytes :: "WalFrame \<Rightarrow> u8 list" where
  "covered_bytes f = [marker f, msg_type f] @ le_bytes 2 (unat (channel_id f)) @ le_bytes 4 (unat (seq_num f)) @
     le_bytes 8 (unat (timestamp f)) @ payload f"

definition frame_bytes :: "WalFrame \<Rightarrow> u8 list" where
  "frame_bytes f = covered_bytes f @ le_bytes 4 (unat (checksum f))"

definition frame_ok :: "WalFrame \<Rightarrow> bool" where
  "frame_ok f \<longleftrightarrow> marker f = 0xAA \<and> length (payload f) = 44 \<and> checksum f = crc_bytes (covered_bytes f)"

text \<open>The frame \<open>log_payload\<close> means to write; a payload field not filled keeps its zeros.\<close>

definition frame_for :: "(u64 \<Rightarrow> u64) \<Rightarrow> u64 \<Rightarrow> u8 \<Rightarrow> u8 list \<Rightarrow> WalFrame" where
  "frame_for tsc seq type bytes =
     (let f = \<lparr>marker = 0xAA, msg_type = type, channel_id = 1, seq_num = ucast seq, timestamp = tsc seq,
        payload = take 44 (bytes @ replicate 44 0), checksum = 0\<rparr>
      in f\<lparr>checksum := crc_bytes (covered_bytes f)\<rparr>)"

text \<open>
  The log holds the frames \<open>fs\<close>, behind them the bytes \<open>sp\<close> that the last message may have left in the
  next frame, and zeros up to the end of the file.
\<close>

definition log_rel :: "MmapLogger \<Rightarrow> WalFrame list \<Rightarrow> u8 list \<Rightarrow> bool" where
  "log_rel lg fs sp \<longleftrightarrow> lg_start lg \<noteq> 0 \<and> lg_curr lg = lg_start lg + 64 * length fs \<and> length sp \<le> 2 \<and>
     64 * length fs + length sp \<le> FILE_SIZE \<and> (\<forall>f\<in>set fs. frame_ok f) \<and>
     wal lg = concat (map frame_bytes fs) @ sp @ replicate (FILE_SIZE - 64 * length fs - length sp) 0"

lemma covered_bytes_checksum [simp]: "covered_bytes (f\<lparr>checksum := c\<rparr>) = covered_bytes f"
  by (simp add: covered_bytes_def)

lemma length_covered_bytes: "length (payload f) = 44 \<Longrightarrow> length (covered_bytes f) = 60"
  by (simp add: covered_bytes_def)

lemma length_frame_bytes: "length (payload f) = 44 \<Longrightarrow> length (frame_bytes f) = 64"
  by (simp add: frame_bytes_def length_covered_bytes)

lemma frame_for_ok: "frame_ok (frame_for tsc seq t bs)"
  by (simp add: frame_ok_def frame_for_def Let_def covered_bytes_def)

lemma frame_for_fields [simp]:
  "marker (frame_for tsc seq t bs) = 0xAA" "msg_type (frame_for tsc seq t bs) = t"
  "seq_num (frame_for tsc seq t bs) = ucast seq" "payload (frame_for tsc seq t bs) = take 44 (bs @ replicate 44 0)"
  by (simp_all add: frame_for_def Let_def)

lemma length_frames:
  "\<forall>f\<in>set fs. frame_ok f \<Longrightarrow> length (concat (map frame_bytes fs)) = 64 * length fs"
  by (induction fs) (simp_all add: length_frame_bytes frame_ok_def)

text \<open>Writing over a part of the memory of the same length.\<close>

lemma mem_write_at:
  "off = length xs \<Longrightarrow> length ys = length bs \<Longrightarrow> mem_write (xs @ ys @ zs) off bs = Some (xs @ bs @ zs)"
  by (simp add: mem_write_def)

lemma store_le_at:
  "off = length xs \<Longrightarrow> length ys = k \<Longrightarrow> store_le (xs @ ys @ zs) off k n = Some (xs @ le_bytes k n @ zs)"
  by (simp add: store_le_def mem_write_at)

text \<open>The stores of \<open>log_payload\<close> in front of the payload.\<close>

lemma write_head:
  assumes "length old = 16"
  shows "do { mem \<leftarrow> store_le (pre @ old @ rest) (length pre) 1 0xAA;
        mem \<leftarrow> store_le mem (length pre + 1) 1 (unat t);
        mem \<leftarrow> store_le mem (length pre + 2) 2 1;
        mem \<leftarrow> store_le mem (length pre + 4) 4 (unat s);
        store_le mem (length pre + 8) 8 (unat ts) } = Some (pre @ frame_head t s ts @ rest)"
proof -
  let ?o1 = "take 1 old" and ?o2 = "take 1 (drop 1 old)" and ?o3 = "take 2 (drop 2 old)"
    and ?o4 = "take 4 (drop 4 old)" and ?o5 = "drop 8 old"
  have o: "old = ?o1 @ ?o2 @ ?o3 @ ?o4 @ ?o5"
    using append_take_drop_id [of 4 "drop 4 old"] append_take_drop_id [of 2 "drop 2 old"]
      append_take_drop_id [of 1 "drop 1 old"] append_take_drop_id [of 1 old] by (simp add: numeral_eq_Suc)
  have len: "length ?o1 = 1" "length ?o2 = 1" "length ?o3 = 2" "length ?o4 = 4" "length ?o5 = 8"
    using assms by simp_all
  let ?a = "le_bytes 1 0xAA" and ?t = "le_bytes 1 (unat t)" and ?c = "le_bytes 2 1"
  have one: "store_le (pre @ old @ rest) (length pre) 1 0xAA = Some (pre @ ?a @ ?o2 @ ?o3 @ ?o4 @ ?o5 @ rest)"
    using store_le_at [OF refl len(1), of pre "?o2 @ ?o3 @ ?o4 @ ?o5 @ rest" "0xAA"] o by (metis append_assoc)
  have two: "store_le (pre @ ?a @ ?o2 @ ?o3 @ ?o4 @ ?o5 @ rest) (length pre + 1) 1 (unat t) =
      Some ((pre @ ?a) @ ?t @ ?o3 @ ?o4 @ ?o5 @ rest)"
    using store_le_at [OF _ len(2), of "length pre + 1" "pre @ ?a"] by (simp del: le_bytes.simps One_nat_def)
  have three: "store_le ((pre @ ?a) @ ?t @ ?o3 @ ?o4 @ ?o5 @ rest) (length pre + 2) 2 1 =
      Some ((pre @ ?a @ ?t) @ ?c @ ?o4 @ ?o5 @ rest)"
    using store_le_at [OF _ len(3), of "length pre + 2" "pre @ ?a @ ?t"] by (simp del: le_bytes.simps One_nat_def)
  have four: "store_le ((pre @ ?a @ ?t) @ ?c @ ?o4 @ ?o5 @ rest) (length pre + 4) 4 (unat s) =
      Some ((pre @ ?a @ ?t @ ?c) @ le_bytes 4 (unat s) @ ?o5 @ rest)"
    using store_le_at [OF _ len(4), of "length pre + 4" "pre @ ?a @ ?t @ ?c"] by (simp del: le_bytes.simps One_nat_def)
  have five: "store_le ((pre @ ?a @ ?t @ ?c) @ le_bytes 4 (unat s) @ ?o5 @ rest) (length pre + 8) 8 (unat ts) =
      Some ((pre @ ?a @ ?t @ ?c @ le_bytes 4 (unat s)) @ le_bytes 8 (unat ts) @ rest)"
    using store_le_at [OF _ len(5), of "length pre + 8" "pre @ ?a @ ?t @ ?c @ le_bytes 4 (unat s)"]
    by (simp del: le_bytes.simps One_nat_def)
  have "unat t < 256" using unsigned_less [of t] by simp
  then have byte: "?a = [0xAA]" "?t = [t]" by simp_all
  show ?thesis unfolding one two three four five bind.bind_lunit
    by (simp add: frame_head_def byte del: le_bytes.simps One_nat_def)
qed

lemma log_payload_head:
  assumes lg: "wal lg = pre @ old @ rest" "length old = 16" "lg_start lg \<noteq> 0" "lg_curr lg = lg_start lg + length pre"
    and room: "length pre + 64 \<le> FILE_SIZE"
    and h: "h = frame_head t (ucast seq) (tsc seq)"
  shows "log_payload tsc buf off len t seq lg = do {
     bytes \<leftarrow> mem_read buf off len;
     mem \<leftarrow> mem_write (pre @ h @ rest) (length pre + 16) bytes;
     crc \<leftarrow> calculate_crc32 mem (length pre);
     mem \<leftarrow> store_le mem (length pre + 60) 4 (unat crc);
     Some (seq + 1, lg\<lparr>lg_curr := lg_curr lg + 64, wal := mem\<rparr>) }"
proof -
  obtain m1 m2 m3 m4 where heads:
    "store_le (wal lg) (length pre) 1 0xAA = Some m1" "store_le m1 (length pre + 1) 1 (unat t) = Some m2"
    "store_le m2 (length pre + 2) 2 1 = Some m3"
    "store_le m3 (length pre + 4) 4 (unat (ucast seq :: u32)) = Some m4"
    "store_le m4 (length pre + 8) 8 (unat (tsc seq)) = Some (pre @ h @ rest)"
    using write_head [OF lg(2), of pre rest t "ucast seq" "tsc seq"] unfolding lg(1) h bind_eq_Some_conv by blast
  show ?thesis using lg(3,4) room heads by (simp add: log_payload_def reserve_frame_def Let_def)
qed

lemma log_payload_write:
  assumes lg: "wal lg = pre @ old @ rest" "length old = 16" "lg_start lg \<noteq> 0" "lg_curr lg = lg_start lg + length pre"
    and room: "length pre + 64 \<le> FILE_SIZE" "48 \<le> length rest" "len \<le> length rest"
    and buf: "off + len \<le> length buf"
    and area: "area = take len (drop off buf) @ drop len rest"
    and h: "h = frame_head t (ucast seq) (tsc seq)"
  shows "log_payload tsc buf off len t seq lg = Some (seq + 1, lg\<lparr>lg_curr := lg_curr lg + 64,
     wal := pre @ h @ take 44 area @ le_bytes 4 (unat (crc_bytes (h @ take 44 area))) @ drop 48 area\<rparr>)"
proof -
  let ?bs = "take len (drop off buf)"
  have lens: "length h = 16" "length ?bs = len" "length area = length rest"
    using buf room(3) by (simp_all add: h area frame_head_def)
  have read: "mem_read buf off len = Some ?bs" using buf by (simp add: mem_read_def)
  have copy: "mem_write (pre @ h @ rest) (length pre + 16) ?bs = Some (pre @ h @ area)"
    using mem_write_at [of "length pre + 16" "pre @ h" "take len rest" ?bs "drop len rest"] lens room(3)
    by (simp add: area)
  have take60: "take 60 (h @ area) = h @ take 44 area" using lens by simp
  have crc: "calculate_crc32 (pre @ h @ area) (length pre) = Some (crc_bytes (h @ take 44 area))"
    using calculate_crc32_eq [of "length pre" "pre @ h @ area"] lens room(2) take60 by simp
  have last: "store_le (pre @ h @ area) (length pre + 60) 4 n = Some (pre @ h @ take 44 area @ le_bytes 4 n @ drop 48 area)" for n
    using store_le_at [of "length pre + 60" "pre @ h @ take 44 area" "take 4 (drop 44 area)" 4 "drop 48 area" n]
      lens room(2) append_take_drop_id [of 4 "drop 44 area"] append_take_drop_id [of 44 area] by simp
  show ?thesis using log_payload_head [where t = t and seq = seq and tsc = tsc, OF lg room(1) h, of buf off len] read copy crc last by simp
qed

lemma take_padded: "k \<le> length xs + n \<Longrightarrow> take k (xs @ replicate n z) = take k (xs @ replicate k z)"
  by (auto simp: min_def)

lemma frame_bytes_for:
  "frame_bytes (frame_for tsc seq t bs) =
     (let c = frame_head t (ucast seq) (tsc seq) @ take 44 (bs @ replicate 44 0) in c @ le_bytes 4 (unat (crc_bytes c)))"
  by (simp add: frame_bytes_def frame_for_def covered_bytes_def frame_head_def Let_def)

text \<open>The next frame to be written, and the zeros behind its first sixteen bytes.\<close>

lemma log_rel_split:
  assumes rel: "log_rel lg fs sp" and room: "64 * Suc (length fs) \<le> FILE_SIZE"
  obtains old where "wal lg = concat (map frame_bytes fs) @ old @ replicate (FILE_SIZE - 64 * length fs - 16) 0"
    "length old = 16" "length (concat (map frame_bytes fs)) = 64 * length fs"
proof
  let ?n = "FILE_SIZE - 64 * length fs - 16" and ?old = "sp @ replicate (16 - length sp) 0"
  have "FILE_SIZE - 64 * length fs - length sp = (16 - length sp) + ?n"
    using rel room by (simp add: log_rel_def)
  then have "replicate (FILE_SIZE - 64 * length fs - length sp) 0 = replicate (16 - length sp) (0 :: u8) @ replicate ?n 0"
    by (simp only: replicate_add)
  then show "wal lg = concat (map frame_bytes fs) @ ?old @ replicate ?n 0"
    using rel by (simp only: log_rel_def append_assoc)
  show "length ?old = 16" using rel by (simp add: log_rel_def)
  show "length (concat (map frame_bytes fs)) = 64 * length fs" using rel length_frames by (simp add: log_rel_def)
qed

text \<open>A frame written behind the others; what is too long for it goes to the next frame.\<close>

lemma log_payload_appends:
  assumes rel: "log_rel lg fs sp" and room: "64 * Suc (length fs) + (len - 48) \<le> FILE_SIZE"
    and len: "len \<le> 50" and buf: "off + len \<le> length buf"
  shows "\<exists>lg'. log_payload tsc buf off len t seq lg = Some (seq + 1, lg') \<and>
     log_rel lg' (fs @ [frame_for tsc seq t (take len (drop off buf))]) (drop 48 (take len (drop off buf)))"
proof -
  let ?n = "FILE_SIZE - 64 * length fs" and ?C = "concat (map frame_bytes fs)" and ?bs = "take len (drop off buf)"
  have room': "64 * Suc (length fs) \<le> FILE_SIZE" using room by simp
  obtain old where w: "wal lg = ?C @ old @ replicate (?n - 16) 0" "length old = 16" "length ?C = 64 * length fs"
    by (rule log_rel_split [OF rel room'])
  have area: "take 44 (?bs @ drop len (replicate (?n - 16) 0)) = take 44 (?bs @ replicate 44 0)"
    using buf room len by (simp only: drop_replicate) (rule take_padded, simp)
  have tail: "drop 48 (?bs @ drop len (replicate (?n - 16) 0)) =
      drop 48 ?bs @ replicate (FILE_SIZE - 64 * Suc (length fs) - length (drop 48 ?bs)) 0"
    using buf len room by auto
  have "log_payload tsc buf off len t seq lg = Some (seq + 1, lg\<lparr>lg_curr := lg_curr lg + 64,
     wal := ?C @ frame_bytes (frame_for tsc seq t ?bs) @
       drop 48 ?bs @ replicate (FILE_SIZE - 64 * Suc (length fs) - length (drop 48 ?bs)) 0\<rparr>)"
    using log_payload_write [where t = t and seq = seq and tsc = tsc, OF w(1,2) _ _ _ _ _ buf refl refl] rel room len w(3)
    unfolding area tail by (simp add: log_rel_def frame_bytes_for Let_def)
  then show ?thesis using rel room len buf frame_for_ok [of tsc seq t ?bs] by (auto simp: log_rel_def)
qed

text \<open>A message that does not fit in the rest of the file is written past its end.\<close>

lemma log_payload_overrun:
  assumes rel: "log_rel lg fs sp" and room: "64 * Suc (length fs) \<le> FILE_SIZE"
    and len: "FILE_SIZE - 64 * length fs - 16 < len" and buf: "off + len \<le> length buf"
  shows "log_payload tsc buf off len t seq lg = None"
proof -
  obtain old where w: "wal lg = concat (map frame_bytes fs) @ old @ replicate (FILE_SIZE - 64 * length fs - 16) 0"
    "length old = 16" "length (concat (map frame_bytes fs)) = 64 * length fs"
    by (rule log_rel_split [OF rel room])
  have "mem_write (concat (map frame_bytes fs) @ frame_head t (ucast seq) (tsc seq) @ replicate (FILE_SIZE - 64 * length fs - 16) 0)
      (64 * length fs + 16) (take len (drop off buf)) = None"
    using len buf room w(3) by (simp add: mem_write_def frame_head_def)
  then show ?thesis
    using log_payload_head [where t = t and seq = seq and tsc = tsc, OF w(1,2) _ _ _ refl, of buf off len] rel room buf w(3)
    by (simp add: log_rel_def mem_read_def)
qed

lemma log_payload_full:
  "log_rel lg fs sp \<Longrightarrow> FILE_SIZE < 64 * Suc (length fs) \<Longrightarrow> log_payload tsc buf off len t seq lg = Some (seq, lg)"
  by (simp add: log_payload_def reserve_frame_def log_rel_def)

lemma log_rel_fresh: "MmapLogger k = (Inr lg, k') \<Longrightarrow> log_rel lg [] []"
  using MmapLogger_cases [of k "Inr lg" k'] by (simp add: log_rel_def)

lemma flush_to_disk_frames: "log_rel lg fs sp \<Longrightarrow> flush_to_disk lg = concat (map frame_bytes fs)"
  using length_frames [of fs] by (simp add: flush_to_disk_def log_rel_def)

section \<open>Properties\<close>

text \<open>A kernel that grants every call.\<close>

definition granting :: kernel where
  "granting = \<lparr>fds = [0, 1, 2], mapped = {}, addrinfos = 0, errno = 0, replies = \<lambda>n. Ret 4095, calls = 0\<rparr>"

lemma granting_MmapLogger:
  "MmapLogger granting = (Inr \<lparr>lg_start = 4096, lg_curr = 4096, wal = replicate FILE_SIZE 0\<rparr>,
     granting\<lparr>mapped := {4096..<4096 + FILE_SIZE}, calls := 4\<rparr>)"
  by (simp add: MmapLogger_def granting_def kernel_calls FILE_SIZE_def)

text \<open>
  C26. A message of at most 48 bytes is logged as one more complete frame behind the
  frames already there, which keep every byte: the frame has the valid marker, the sequence number
  and a checksum that is right for its bytes, the rest of the file is zero, and what is
  flushed to the disk is exactly the frames so far. When the file has no room for a frame nothing
  changes at all, the sequence number included.
\<close>

theorem log_is_append_only:
  assumes "log_rel lg fs sp" "len \<le> 48" "off + len \<le> length buf"
  shows "if 64 * Suc (length fs) \<le> FILE_SIZE
    then \<exists>lg' f. log_payload tsc buf off len t seq lg = Some (seq + 1, lg') \<and> log_rel lg' (fs @ [f]) [] \<and>
      frame_ok f \<and> msg_type f = t \<and> seq_num f = ucast seq \<and> payload f = take 44 (take len (drop off buf) @ replicate 44 0) \<and>
      flush_to_disk lg' = flush_to_disk lg @ frame_bytes f
    else log_payload tsc buf off len t seq lg = Some (seq, lg)"
proof (cases "64 * Suc (length fs) \<le> FILE_SIZE")
  case True
  let ?f = "frame_for tsc seq t (take len (drop off buf))"
  obtain lg' where lg': "log_payload tsc buf off len t seq lg = Some (seq + 1, lg')" "log_rel lg' (fs @ [?f]) []"
    using log_payload_appends [OF assms(1) _ _ assms(3), of tsc t seq] True assms(2) by auto
  moreover have "flush_to_disk lg' = flush_to_disk lg @ frame_bytes ?f"
    using flush_to_disk_frames [OF lg'(2)] flush_to_disk_frames [OF assms(1)] by simp
  ultimately show ?thesis using True frame_for_ok [of tsc seq t] by (metis frame_for_fields(2-4))
next
  case False
  then show ?thesis using log_payload_full [OF assms(1)] by simp
qed

theorem log_is_append_only_witness:
  "\<exists>lg' f. log_payload (\<lambda>_. 77) (replicate 36 0x41) 0 36 0x41 5
      \<lparr>lg_start = 4096, lg_curr = 4096, wal = replicate FILE_SIZE 0\<rparr> = Some (6, lg') \<and> log_rel lg' [f] [] \<and>
    frame_ok f \<and> msg_type f = 0x41 \<and> seq_num f = 5 \<and> flush_to_disk lg' = frame_bytes f"
proof -
  let ?lg = "\<lparr>lg_start = 4096, lg_curr = 4096, wal = replicate FILE_SIZE 0\<rparr>"
  have rel: "log_rel ?lg [] []" and room: "64 * Suc (length ([] :: WalFrame list)) \<le> FILE_SIZE"
    by (simp_all add: log_rel_def FILE_SIZE_def)
  obtain lg' f where r: "log_payload (\<lambda>_. 77) (replicate 36 0x41) 0 36 0x41 5 ?lg = Some (5 + 1, lg')"
    "log_rel lg' ([] @ [f]) []" "frame_ok f" "msg_type f = 0x41" "seq_num f = ucast (5 :: u64)"
    "flush_to_disk lg' = flush_to_disk ?lg @ frame_bytes f"
    using log_is_append_only [where tsc = "\<lambda>_. 77" and t = "0x41" and seq = 5, OF rel, of 36 0 "replicate 36 0x41"]
    unfolding if_P [OF room] by auto
  have "flush_to_disk ?lg = []" by (simp add: flush_to_disk_def)
  moreover have "(5 :: u64) + 1 = 6" "ucast (5 :: u64) = (5 :: u32)" by simp_all
  ultimately show ?thesis using r by (metis append_Nil)
qed

text \<open>
  C33. A message of 50 bytes, the length of the imbalance message \<^verbatim>\<open>'I'\<close>, does not
  fit its frame: its last two bytes overwrite the marker and the type of the frame that
  follows, and in the last frame of the file they are written past the end of the mapping.
\<close>

theorem long_message_overruns_frame:
  assumes "log_rel lg fs sp" "64 * Suc (length fs) \<le> FILE_SIZE" "off + 50 \<le> length buf"
  shows "if 64 * (length fs + 2) \<le> FILE_SIZE
    then \<exists>lg'. log_payload tsc buf off 50 t seq lg = Some (seq + 1, lg') \<and>
      load8 (wal lg') (64 * Suc (length fs)) = Some (buf ! (off + 48)) \<and>
      load8 (wal lg') (64 * Suc (length fs) + 1) = Some (buf ! (off + 49))
    else log_payload tsc buf off 50 t seq lg = None"
proof (cases "64 * (length fs + 2) \<le> FILE_SIZE")
  case True
  let ?fs = "fs @ [frame_for tsc seq t (take 50 (drop off buf))]"
  have two: "drop 48 (take 50 (drop off buf)) = [buf ! (off + 48), buf ! (off + 49)]"
    using assms(3) by (intro nth_equalityI) (auto simp: less_Suc_eq numeral_2_eq_2)
  obtain lg' where lg': "log_payload tsc buf off 50 t seq lg = Some (seq + 1, lg')"
    "log_rel lg' ?fs [buf ! (off + 48), buf ! (off + 49)]"
    using log_payload_appends [OF assms(1) _ _ assms(3), of tsc t seq] True two by auto
  have C: "length (concat (map frame_bytes ?fs)) = 64 * Suc (length fs)"
    using lg'(2) length_frames [of ?fs] by (simp add: log_rel_def)
  obtain z where w: "wal lg' = concat (map frame_bytes ?fs) @ [buf ! (off + 48), buf ! (off + 49)] @ z"
    using lg'(2) unfolding log_rel_def by blast
  have "load8 (wal lg') (64 * Suc (length fs)) = Some (buf ! (off + 48))"
    "load8 (wal lg') (64 * Suc (length fs) + 1) = Some (buf ! (off + 49))"
    unfolding w C [symmetric] load8_def mem_read_def by simp_all
  then show ?thesis using True lg'(1) by auto
next
  case False
  moreover have "FILE_SIZE - 64 * length fs - 16 < 50"
    using False assms(2) by (simp add: FILE_SIZE_def)
  ultimately show ?thesis using log_payload_overrun [OF assms(1,2) _ assms(3)] by simp
qed

theorem long_message_overruns_frame_witness:
  "\<exists>lg'. log_payload (\<lambda>_. 77) (replicate 48 0x49 @ [0xAA, 0x41]) 0 50 0x2D 0
      \<lparr>lg_start = 4096, lg_curr = 4096, wal = replicate FILE_SIZE 0\<rparr> = Some (1, lg') \<and>
    load8 (wal lg') 64 = Some 0xAA \<and> load8 (wal lg') 65 = Some 0x41"
proof -
  let ?buf = "replicate 48 0x49 @ [0xAA, 0x41] :: u8 list"
  have rel: "log_rel \<lparr>lg_start = 4096, lg_curr = 4096, wal = replicate FILE_SIZE 0\<rparr> [] []"
    and size: "64 * (length ([] :: WalFrame list) + 2) \<le> FILE_SIZE" "64 * Suc (length ([] :: WalFrame list)) \<le> FILE_SIZE"
    by (simp_all add: log_rel_def FILE_SIZE_def)
  have buf: "0 + 50 \<le> length ?buf" "?buf ! (0 + 48) = 0xAA" "?buf ! (0 + 49) = 0x41" by (simp_all add: nth_append)
  from long_message_overruns_frame [where tsc = "\<lambda>_. 77" and t = "0x2D" and seq = 0, OF rel size(2) buf(1)]
  show ?thesis unfolding if_P [OF size(1)] buf(2,3) by simp
qed

text \<open>
  C27. Whichever of its system calls fails, the constructor of the logger leaves the open
  files and the mappings of the process as it found them; and when it succeeds, the destructor
  gives back everything, also after the logger was moved into another object and both are destroyed.
\<close>

theorem logger_releases_resources:
  assumes "MmapLogger k = (r, k')"
  shows "case r of Inl e \<Rightarrow> same_resources k k'
    | Inr lg \<Rightarrow> same_resources k (MmapLogger_destroy lg k') \<and>
        (let (new, old) = MmapLogger_move lg in same_resources k (MmapLogger_destroy new (MmapLogger_destroy old k')))"
proof (cases r)
  case (Inr lg)
  have "same_resources k (MmapLogger_destroy lg k')"
    using logger.no_leak [of 1 k "Inr [lg]" k'] assms Inr by simp
  moreover obtain new old where mv: "MmapLogger_move lg = (new, old)" by fastforce
  ultimately show ?thesis
    using Inr same_resources_trans logger.destroy_moved [OF _ mv, of k'] by simp
qed (use assms logger.create_fail in auto)

theorem logger_releases_resources_witness:
  "\<exists>lg k'. MmapLogger granting = (Inr lg, k') \<and> \<not> same_resources granting k' \<and>
     same_resources granting (MmapLogger_destroy lg k')"
proof -
  have "\<not> same_resources granting (granting\<lparr>mapped := {4096..<4096 + FILE_SIZE}, calls := 4\<rparr>)"
    by (simp add: same_resources_def granting_def FILE_SIZE_def)
  then show ?thesis using logger_releases_resources [OF granting_MmapLogger] granting_MmapLogger by auto
qed

end
