(* ===== verification/Itch_Parser.thy ===== *)
theory Itch_Parser
  imports Itch_Wire Wal_Log Spsc_Queue
begin

text \<open>
  \<open>parse_block\<close> of \<^verbatim>\<open>src/protocol/ItchParser.h\<close>: it walks over the messages of a packet, logs each of
  them and pushes the supported ones to the queue of the order book's thread. The packet is a
  buffer, an offset and a length; the length is a signed integer of the source and may be negative.
\<close>

section \<open>The code\<close>

definition message_length_table :: "u8 list" where
  "message_length_table =
     [0, 0, 0, 0, 0, 0, 0, 0, 0, 0, 0, 0, 0, 0, 0, 0,
      0, 0, 0, 0, 0, 0, 0, 0, 0, 0, 0, 0, 0, 0, 0, 0,
      0, 0, 0, 0, 0, 0, 0, 0, 0, 0, 0, 0, 0, 0, 0, 0,
      0, 0, 0, 0, 0, 0, 0, 0, 0, 0, 0, 0, 0, 0, 0, 0,
      0, 36, 19, 36, 19, 31, 40, 0, 25, 50, 35, 28, 26, 0, 20, 48,
      44, 40, 39, 12, 0, 35, 35, 12, 23, 20, 0, 0, 0, 0, 0, 0,
      0, 0, 0, 0, 0, 0, 0, 0, 21, 0, 0, 0, 0, 0, 0, 0,
      0, 0, 0, 0, 0, 0, 0, 0, 0, 0, 0, 0, 0, 0, 0, 0,
      0, 0, 0, 0, 0, 0, 0, 0, 0, 0, 0, 0, 0, 0, 0, 0,
      0, 0, 0, 0, 0, 0, 0, 0, 0, 0, 0, 0, 0, 0, 0, 0,
      0, 0, 0, 0, 0, 0, 0, 0, 0, 0, 0, 0, 0, 0, 0, 0,
      0, 0, 0, 0, 0, 0, 0, 0, 0, 0, 0, 0, 0, 0, 0, 0,
      0, 0, 0, 0, 0, 0, 0, 0, 0, 0, 0, 0, 0, 0, 0, 0,
      0, 0, 0, 0, 0, 0, 0, 0, 0, 0, 0, 0, 0, 0, 0, 0,
      0, 0, 0, 0, 0, 0, 0, 0, 0, 0, 0, 0, 0, 0, 0, 0,
      0, 0, 0, 0, 0, 0, 0, 0, 0, 0, 0, 0, 0, 0, 0, 0]"

text \<open>
  The index is \<^verbatim>\<open>message_type - '\0'\<close>, and \<^verbatim>\<open>char\<close> is signed: a byte from 0x80 on is a negative
  index, outside the table.
\<close>

definition message_length :: "u8 \<Rightarrow> u8 option" where
  "message_length message_type =
     (if sint message_type < 0 then None else arr_get message_length_table (nat (sint message_type)))"

record ItchParser =
  ip_queue :: "NormalizedOrder spsc"
  ip_logger :: MmapLogger
  ip_seq :: u64

definition ItchParser :: "NormalizedOrder spsc \<Rightarrow> MmapLogger \<Rightarrow> ItchParser" where
  "ItchParser queue logger = \<lparr>ip_queue = queue, ip_logger = logger, ip_seq = 0\<rparr>"

text \<open>
  One round of the loop: the parser returns (\<open>Inl\<close>), or goes on at a new position with a new
  remaining length (\<open>Inr\<close>). The result of the push is not looked at.
\<close>

definition parse_step ::
  "(u64 \<Rightarrow> u64) \<Rightarrow> u8 list \<Rightarrow> nat \<Rightarrow> int \<Rightarrow> ItchParser \<Rightarrow> (ItchParser + nat \<times> int \<times> ItchParser) option" where
  "parse_step tsc buf payload_ptr payload_len p =
     (if payload_len = 0 then Some (Inl p)
      else do {
        message_type \<leftarrow> load8 buf payload_ptr;
        message_len \<leftarrow> message_length message_type;
        if payload_len < int (unat message_len) then Some (Inl p)
        else do {
          let (len, type) =
            (if message_type = 0x41 then (36, 0x41)
             else if message_type = 0x45 then (31, 0x45)
             else if message_type = 0x58 then (23, 0x58)
             else (unat message_len, 0x2D));
          (seq, logger) \<leftarrow> log_payload tsc buf payload_ptr len type (ip_seq p) (ip_logger p);
          new_order \<leftarrow> parse_order buf payload_ptr message_type;
          queue \<leftarrow> (case new_order of
              None \<Rightarrow> Some (ip_queue p)
            | Some order \<Rightarrow> do { (pushed, queue) \<leftarrow> push (ip_queue p) order; Some queue });
          Some (Inr (payload_ptr + len, payload_len - int len,
            p\<lparr>ip_queue := queue, ip_logger := logger, ip_seq := seq\<rparr>))
        }
      })"

datatype 'a outcome = Returns 'a | Undefined | Unfinished

fun parse_block ::
  "nat \<Rightarrow> (u64 \<Rightarrow> u64) \<Rightarrow> u8 list \<Rightarrow> nat \<Rightarrow> int \<Rightarrow> ItchParser \<Rightarrow> ItchParser outcome" where
  "parse_block 0 tsc buf payload_ptr payload_len p = Unfinished"
| "parse_block (Suc fuel) tsc buf payload_ptr payload_len p =
     (case parse_step tsc buf payload_ptr payload_len p of
        None \<Rightarrow> Undefined
      | Some (Inl p) \<Rightarrow> Returns p
      | Some (Inr (payload_ptr, payload_len, p)) \<Rightarrow> parse_block fuel tsc buf payload_ptr payload_len p)"

section \<open>The length table\<close>

lemma message_length_le:
  assumes "message_length t = Some n"
  shows "n \<le> 50" "unat n \<le> 50"
proof -
  have all: "list_all (\<lambda>n. n \<le> 50) message_length_table" by code_simp
  have "n \<in> set message_length_table"
    using assms by (auto simp: message_length_def arr_get_eq_Some split: if_splits)
  then show "n \<le> 50" using all by (simp add: list_all_iff)
  then show "unat n \<le> 50" by (simp add: word_le_nat_alt)
qed

lemma message_length_supported:
  "message_length 0x41 = Some 36" "message_length 0x45 = Some 31" "message_length 0x58 = Some 23"
  "message_length 0x49 = Some 50"
  by code_simp+

lemma message_length_negative:
  assumes "0x80 \<le> t"
  shows "message_length t = None"
proof -
  have "128 \<le> uint t" "uint t < 256" using assms unsigned_less [of t] by (simp_all add: word_le_def)
  then have "uint t div 128 = 1" by arith
  then have "bit (uint t) 7" by (simp add: bit_iff_odd)
  then show ?thesis by (simp add: message_length_def sint_uint)
qed

section \<open>What one message does\<close>

text \<open>A complete message: as many bytes as the table says of its type.\<close>

definition msg_ok :: "u8 list \<Rightarrow> bool" where
  "msg_ok m \<longleftrightarrow> m \<noteq> [] \<and> message_length (hd m) = Some (of_nat (length m)) \<and> length m \<le> 50"

definition log_type :: "u8 \<Rightarrow> u8" where
  "log_type t = (if t = 0x41 \<or> t = 0x45 \<or> t = 0x58 then t else 0x2D)"

text \<open>The orders a message is turned into: one, or none when it is not supported.\<close>

definition msg_orders :: "u8 list \<Rightarrow> NormalizedOrder list" where
  "msg_orders m = (case parse_order m 0 (hd m) of Some (Some order) \<Rightarrow> [order] | _ \<Rightarrow> [])"

lemma unat_of_nat_small: "n \<le> 50 \<Longrightarrow> unat (of_nat n :: u8) = n"
  by (simp add: unat_of_nat take_bit_nat_eq_self)

lemma msg_ok_supported:
  assumes "msg_ok m"
  shows "hd m = 0x41 \<Longrightarrow> length m = 36" "hd m = 0x45 \<Longrightarrow> length m = 31" "hd m = 0x58 \<Longrightarrow> length m = 23"
  using assms message_length_supported unat_of_nat_small [of "length m"] by (auto simp: msg_ok_def)

lemma msg_ok_parses:
  assumes "msg_ok m"
  shows "parse_order (m @ post) 0 (hd m) = parse_order m 0 (hd m)" "parse_order m 0 (hd m) \<noteq> None"
  using parse_order_prefix [of 0 "hd m" m post] parse_order_total [of 0 "hd m" m] msg_ok_supported [OF assms]
  by (auto split: if_splits)

text \<open>
  The state of the parser: the frames in the log and what was spilled behind them, the orders in the
  queue, and the capacity of the queue.
\<close>

definition parser_rel :: "ItchParser \<Rightarrow> WalFrame list \<Rightarrow> u8 list \<Rightarrow> NormalizedOrder list \<Rightarrow> nat \<Rightarrow> bool" where
  "parser_rel p fs sp orders cap \<longleftrightarrow> log_rel (ip_logger p) fs sp \<and> spsc_inv (ip_queue p) \<and>
     q_list (ip_queue p) = orders \<and> length (data (ip_queue p)) - 1 = cap"

lemma push_orders:
  assumes "spsc_inv q" "length (q_list q) \<le> length (data q) - 1"
  obtains q' where "(case new of None \<Rightarrow> Some q | Some order \<Rightarrow> do { (pushed, q) \<leftarrow> push q order; Some q }) = Some q'"
    "spsc_inv q'" "length (data q') = length (data q)"
    "q_list q' = take (length (data q) - 1) (q_list q @ (case new of None \<Rightarrow> [] | Some order \<Rightarrow> [order]))"
proof (cases new)
  case None
  then show ?thesis using that [of q] assms by simp
next
  case (Some order)
  obtain q' where "push q order = Some (length (q_list q) < length (data q) - 1, q')" "spsc_inv q'"
    "length (data q') = length (data q)"
    "q_list q' = (if length (q_list q) < length (data q) - 1 then q_list q @ [order] else q_list q)"
    using push_spec [OF assms(1), of order] by blast
  then show ?thesis using that [of q'] Some assms(2) by (auto split: if_splits)
qed

lemma parse_step_message:
  assumes rel: "parser_rel p fs sp orders cap" and cap: "length orders \<le> cap"
    and m: "msg_ok m" and room: "64 * (length fs + 2) \<le> FILE_SIZE"
    and buf: "buf = pre @ m @ post" and len: "int (length m) \<le> len"
  shows "\<exists>p'. parse_step tsc buf (length pre) len p = Some (Inr (length pre + length m, len - int (length m), p')) \<and>
     parser_rel p' (fs @ [frame_for tsc (ip_seq p) (log_type (hd m)) m]) (drop 48 m) (take cap (orders @ msg_orders m)) cap \<and>
     ip_seq p' = ip_seq p + 1"
proof -
  have ne: "m \<noteq> []" "length m \<le> 50" and ml: "message_length (hd m) = Some (of_nat (length m))"
    using m by (simp_all add: msg_ok_def)
  have nz: "len \<noteq> 0" using len ne(1) by (cases m) auto
  have load: "load8 buf (length pre) = Some (hd m)"
    using ne by (cases m) (simp_all add: buf load8_def mem_read_def)
  have n: "unat (of_nat (length m) :: u8) = length m" using unat_of_nat_small ne(2) by simp
  have step: "(if hd m = 0x41 then (36, 0x41) else if hd m = 0x45 then (31, 0x45)
      else if hd m = 0x58 then (23, 0x58) else (length m, 0x2D)) = (length m, log_type (hd m))"
    using msg_ok_supported [OF m] by (simp add: log_type_def)
  have bytes: "take (length m) (drop (length pre) buf) = m" "length pre + length m \<le> length buf" by (simp_all add: buf)
  have "length m - 48 \<le> 2" using ne(2) by simp
  then have room': "64 * Suc (length fs) + (length m - 48) \<le> FILE_SIZE" using room by simp
  obtain lg where lg: "log_payload tsc buf (length pre) (length m) (log_type (hd m)) (ip_seq p) (ip_logger p) =
      Some (ip_seq p + 1, lg)" "log_rel lg (fs @ [frame_for tsc (ip_seq p) (log_type (hd m)) m]) (drop 48 m)"
    using log_payload_appends [OF _ room' ne(2) bytes(2), of "ip_logger p" sp tsc "log_type (hd m)" "ip_seq p"]
      rel bytes(1) by (auto simp: parser_rel_def)
  obtain new where new: "parse_order m 0 (hd m) = Some new" using msg_ok_parses(2) [OF m] by blast
  then have new': "parse_order buf (length pre) (hd m) = Some new"
    using msg_ok_parses(1) [OF m] parse_order_shift [of pre "m @ post"] by (simp add: buf)
  have orders: "msg_orders m = (case new of None \<Rightarrow> [] | Some order \<Rightarrow> [order])"
    by (simp add: msg_orders_def new split: option.split)
  obtain q' where q': "(case new of None \<Rightarrow> Some (ip_queue p)
      | Some order \<Rightarrow> do { (pushed, q) \<leftarrow> push (ip_queue p) order; Some q }) = Some q'"
    "spsc_inv q'" "length (data q') = length (data (ip_queue p))"
    "q_list q' = take (length (data (ip_queue p)) - 1) (q_list (ip_queue p) @ msg_orders m)"
    unfolding orders using push_orders [of "ip_queue p" new] rel cap by (auto simp: parser_rel_def)
  have "parse_step tsc buf (length pre) len p = Some (Inr (length pre + length m, len - int (length m),
      p\<lparr>ip_queue := q', ip_logger := lg, ip_seq := ip_seq p + 1\<rparr>))"
    using len nz unfolding parse_step_def load ml bind.bind_lunit n step Let_def prod.case lg(1) new' q'(1) by simp
  then show ?thesis using lg(2) q' rel by (auto simp: parser_rel_def)
qed

section \<open>What a block does\<close>

fun frames_for :: "(u64 \<Rightarrow> u64) \<Rightarrow> u64 \<Rightarrow> u8 list list \<Rightarrow> WalFrame list" where
  "frames_for tsc seq [] = []"
| "frames_for tsc seq (m # ms) = frame_for tsc seq (log_type (hd m)) m # frames_for tsc (seq + 1) ms"

lemma length_frames_for [simp]: "length (frames_for tsc seq ms) = length ms"
  by (induction ms arbitrary: seq) simp_all

lemma parse_block_messages:
  assumes "parser_rel p fs sp orders cap" "length orders \<le> cap" "list_all msg_ok ms"
    and "64 * (length fs + length ms + 1) \<le> FILE_SIZE"
    and "buf = pre @ concat ms @ post" "int (length (concat ms)) \<le> len"
  shows "\<exists>p'. parser_rel p' (fs @ frames_for tsc (ip_seq p) ms) (if ms = [] then sp else drop 48 (last ms))
      (take cap (orders @ concat (map msg_orders ms))) cap \<and> ip_seq p' = ip_seq p + of_nat (length ms) \<and>
    (\<forall>fuel. parse_block (length ms + fuel) tsc buf (length pre) len p =
       parse_block fuel tsc buf (length pre + length (concat ms)) (len - int (length (concat ms))) p')"
  using assms
proof (induction ms arbitrary: p fs sp orders pre len)
  case (Cons m ms)
  have m: "msg_ok m" and len: "int (length m) \<le> len" and buf: "buf = pre @ m @ (concat ms @ post)"
    and room: "64 * (length fs + 2) \<le> FILE_SIZE" using Cons.prems by simp_all
  obtain p1 where p1: "parse_step tsc buf (length pre) len p = Some (Inr (length pre + length m, len - int (length m), p1))"
    "parser_rel p1 (fs @ [frame_for tsc (ip_seq p) (log_type (hd m)) m]) (drop 48 m) (take cap (orders @ msg_orders m)) cap"
    "ip_seq p1 = ip_seq p + 1"
    using parse_step_message [OF Cons.prems(1,2) m room buf len] by blast
  let ?fs = "fs @ [frame_for tsc (ip_seq p) (log_type (hd m)) m]"
  have "\<exists>p'. parser_rel p' (?fs @ frames_for tsc (ip_seq p1) ms) (if ms = [] then drop 48 m else drop 48 (last ms))
      (take cap (take cap (orders @ msg_orders m) @ concat (map msg_orders ms))) cap \<and> ip_seq p' = ip_seq p1 + of_nat (length ms) \<and>
    (\<forall>fuel. parse_block (length ms + fuel) tsc buf (length (pre @ m)) (len - int (length m)) p1 =
       parse_block fuel tsc buf (length (pre @ m) + length (concat ms)) (len - int (length m) - int (length (concat ms))) p')"
    by (rule Cons.IH [OF p1(2)]) (use Cons.prems in simp_all)
  then obtain p' where p': "parser_rel p' (?fs @ frames_for tsc (ip_seq p1) ms) (if ms = [] then drop 48 m else drop 48 (last ms))
      (take cap (take cap (orders @ msg_orders m) @ concat (map msg_orders ms))) cap" "ip_seq p' = ip_seq p1 + of_nat (length ms)"
    "\<And>fuel. parse_block (length ms + fuel) tsc buf (length (pre @ m)) (len - int (length m)) p1 =
       parse_block fuel tsc buf (length (pre @ m) + length (concat ms)) (len - int (length m) - int (length (concat ms))) p'"
    by blast
  have "take cap (take cap xs @ ys) = take cap (xs @ ys)" for xs ys :: "NormalizedOrder list"
    by (auto simp: min_def)
  note p'(1) [unfolded this]
  then have "parser_rel p' (fs @ frames_for tsc (ip_seq p) (m # ms)) (if m # ms = [] then sp else drop 48 (last (m # ms)))
      (take cap (orders @ concat (map msg_orders (m # ms)))) cap"
    using p1(3) by (simp split: if_splits)
  moreover have "parse_block (length (m # ms) + fuel) tsc buf (length pre) len p =
      parse_block fuel tsc buf (length pre + length (concat (m # ms))) (len - int (length (concat (m # ms)))) p'" for fuel
    using p'(3) [of fuel] p1(1) by (simp add: add.assoc diff_diff_eq)
  moreover have "ip_seq p' = ip_seq p + of_nat (length (m # ms))" using p'(2) p1(3) by simp
  ultimately show ?case by blast
qed auto

text \<open>The three ways in which the loop can go on at a position that is not a complete message.\<close>

lemma parse_block_stops:
  assumes "rest = [] \<or> (\<exists>n. message_length (hd rest) = Some n \<and> length rest < unat n)" "buf = pre @ rest @ post"
  shows "parse_block (Suc fuel) tsc buf (length pre) (int (length rest)) p = Returns p"
proof (cases "rest = []")
  case False
  then obtain n where n: "message_length (hd rest) = Some n" "int (length rest) < int (unat n)"
    using assms(1) of_nat_less_iff by blast
  have load: "load8 buf (length pre) = Some (hd rest)"
    using False by (cases rest) (simp_all add: assms(2) load8_def mem_read_def)
  have "parse_step tsc buf (length pre) (int (length rest)) p = Some (Inl p)"
    using n(2) False by (simp only: parse_step_def load bind.bind_lunit n(1) if_True length_greater_0_conv) simp
  then show ?thesis by simp
qed (simp add: parse_step_def)

lemma parse_block_undefined:
  assumes "rest \<noteq> []" "message_length (hd rest) = None" "buf = pre @ rest @ post"
  shows "parse_block (Suc fuel) tsc buf (length pre) (int (length rest)) p = Undefined"
  using assms by (cases rest) (auto simp: parse_step_def load8_def mem_read_def)

lemma parse_step_stuck:
  assumes rel: "parser_rel p fs sp orders cap" and rest: "rest \<noteq> []" "message_length (hd rest) = Some 0"
    and buf: "buf = pre @ rest @ post"
  shows "\<exists>p' fs' sp'. parse_step tsc buf (length pre) (int (length rest)) p = Some (Inr (length pre, int (length rest), p')) \<and>
     parser_rel p' fs' sp' orders cap"
proof -
  have load: "load8 buf (length pre) = Some (hd rest)"
    using rest(1) by (cases rest) (simp_all add: buf load8_def mem_read_def)
  have t: "hd rest \<noteq> 0x41" "hd rest \<noteq> 0x45" "hd rest \<noteq> 0x58" using rest(2) message_length_supported by auto
  have order: "parse_order buf (length pre) (hd rest) = Some None" using t by (simp add: parse_order_None)
  have log: "log_rel (ip_logger p) fs sp" using rel by (simp add: parser_rel_def)
  have "\<exists>seq lg fs' sp'. log_payload tsc buf (length pre) 0 0x2D (ip_seq p) (ip_logger p) = Some (seq, lg) \<and> log_rel lg fs' sp'"
  proof (cases "64 * Suc (length fs) \<le> FILE_SIZE")
    case True
    have "length pre + 0 \<le> length buf" by (simp add: buf)
    from log_payload_appends [OF log _ _ this] True show ?thesis by simp blast
  qed (use log log_payload_full [OF log] in auto)
  then obtain seq lg fs' sp' where lg: "log_payload tsc buf (length pre) 0 0x2D (ip_seq p) (ip_logger p) = Some (seq, lg)"
    "log_rel lg fs' sp'" by blast
  have "parse_step tsc buf (length pre) (int (length rest)) p =
      Some (Inr (length pre, int (length rest), p\<lparr>ip_queue := ip_queue p, ip_logger := lg, ip_seq := seq\<rparr>))"
    using rest t lg(1) order load by (simp add: parse_step_def)
  then show ?thesis using lg(2) rel by (auto simp: parser_rel_def)
qed

lemma parse_block_stuck:
  assumes "parser_rel p fs sp orders cap" "rest \<noteq> []" "message_length (hd rest) = Some 0" "buf = pre @ rest @ post"
  shows "parse_block fuel tsc buf (length pre) (int (length rest)) p = Unfinished"
  using assms(1)
proof (induction fuel arbitrary: p fs sp)
  case (Suc fuel)
  then show ?case using parse_step_stuck [OF Suc.prems assms(2-4), of tsc] by auto
qed simp

text \<open>A run that is not finished was not finished with less fuel.\<close>

lemma parse_block_fuel:
  "parse_block (fuel + k) tsc buf ptr len p = Unfinished \<Longrightarrow> parse_block fuel tsc buf ptr len p = Unfinished"
  by (induction fuel arbitrary: ptr len p) (auto split: option.splits sum.splits)

text \<open>Every byte string is a sequence of complete messages and a rest that is none.\<close>

lemma block_split:
  "\<exists>ms rest. b = concat ms @ rest \<and> list_all msg_ok ms \<and>
    (rest = [] \<or> message_length (hd rest) = None \<or> message_length (hd rest) = Some 0 \<or>
     (\<exists>n. message_length (hd rest) = Some n \<and> length rest < unat n))"
proof (induction b rule: length_induct)
  case (1 b)
  show ?case
  proof (cases "b = [] \<or> message_length (hd b) = None \<or> message_length (hd b) = Some 0 \<or>
      (\<exists>n. message_length (hd b) = Some n \<and> length b < unat n)")
    case True
    then show ?thesis by (intro exI [of _ "[]"] exI [of _ b]) auto
  next
    case False
    then obtain n where n: "message_length (hd b) = Some n" "n \<noteq> 0" "unat n \<le> length b" "b \<noteq> []" by force
    let ?m = "take (unat n) b"
    have pos: "0 < unat n" using n(2) by (simp add: unat_gt_0)
    have "msg_ok ?m" using n pos message_length_le(2) [OF n(1)] by (simp add: msg_ok_def min_def)
    moreover obtain ms rest where r: "drop (unat n) b = concat ms @ rest" "list_all msg_ok ms"
      "rest = [] \<or> message_length (hd rest) = None \<or> message_length (hd rest) = Some 0 \<or>
       (\<exists>n. message_length (hd rest) = Some n \<and> length rest < unat n)"
      using "1.IH" [rule_format, of "drop (unat n) b"] pos n(4) by auto
    moreover have "b = concat (?m # ms) @ rest" using append_take_drop_id [of "unat n" b] r(1) by simp
    ultimately show ?thesis by (intro exI [of _ "?m # ms"] exI [of _ rest]) simp
  qed
qed

lemma wire_message:
  assumes "wire_ok msg"
  shows "hd (wire_order msg) = wire_type msg" "msg_ok (wire_order msg)" "msg_orders (wire_order msg) = [normalized msg]"
proof -
  show h: "hd (wire_order msg) = wire_type msg" by (cases msg) (simp_all add: wire_header_def)
  show "msg_ok (wire_order msg)"
    using length_wire_order [OF assms] message_length_supported h
    by (cases msg) (auto simp: msg_ok_def simp del: wire_order.simps)
  show "msg_orders (wire_order msg) = [normalized msg]"
    using parse_order_wire0 [OF assms, of "[]"] h by (simp add: msg_orders_def)
qed

lemma wire_messages:
  assumes "list_all wire_ok msgs"
  shows "list_all msg_ok (map wire_order msgs)" "concat (map msg_orders (map wire_order msgs)) = map normalized msgs"
  using assms wire_message(2,3) by (induction msgs) simp_all

lemma length_concat_messages: "list_all msg_ok ms \<Longrightarrow> length ms \<le> length (concat ms)"
proof (induction ms)
  case (Cons m ms)
  then have "1 \<le> length m" by (cases m) (auto simp: msg_ok_def)
  then show ?case using Cons by simp
qed simp

section \<open>Properties\<close>

text \<open>
  C19. What becomes of an arbitrary packet \<open>b\<close> when the log has room for its messages: the packet is a
  sequence of complete messages \<open>ms\<close>, all of which are logged, in order, each as one frame,
  while the orders among them are appended to the queue as far as it has room, and a rest. If the
  rest is empty or the beginning of a message, the parser returns, after no more rounds than there are
  messages and one. If the rest begins with a byte from 0x80 on, the table is read out of bounds; if it
  begins with a type whose entry in the table is 0, the loop never ends.
\<close>

theorem parse_block_outcome:
  assumes "parser_rel p fs sp orders cap" "length orders \<le> cap" "64 * (length fs + length b + 1) \<le> FILE_SIZE"
  shows "\<exists>ms rest. b = concat ms @ rest \<and> list_all msg_ok ms \<and>
    ((rest = [] \<or> (\<exists>n. message_length (hd rest) = Some n \<and> length rest < unat n)) \<and>
       (\<exists>p'. parser_rel p' (fs @ frames_for tsc (ip_seq p) ms) (if ms = [] then sp else drop 48 (last ms))
            (take cap (orders @ concat (map msg_orders ms))) cap \<and>
          (\<forall>fuel>length ms. parse_block fuel tsc (pre @ b @ post) (length pre) (int (length b)) p = Returns p'))
     \<or> rest \<noteq> [] \<and> message_length (hd rest) = None \<and>
         (\<forall>fuel>length ms. parse_block fuel tsc (pre @ b @ post) (length pre) (int (length b)) p = Undefined)
     \<or> rest \<noteq> [] \<and> message_length (hd rest) = Some 0 \<and>
         (\<forall>fuel. parse_block fuel tsc (pre @ b @ post) (length pre) (int (length b)) p = Unfinished))"
proof -
  obtain ms rest where b: "b = concat ms @ rest" "list_all msg_ok ms"
    "rest = [] \<or> message_length (hd rest) = None \<or> message_length (hd rest) = Some 0 \<or>
     (\<exists>n. message_length (hd rest) = Some n \<and> length rest < unat n)"
    using block_split [of b] by blast
  let ?pre = "pre @ concat ms" and ?buf = "pre @ b @ post"
  have room: "64 * (length fs + length ms + 1) \<le> FILE_SIZE"
    using assms(3) length_concat_messages [OF b(2)] by (simp add: b(1))
  obtain p' where p': "parser_rel p' (fs @ frames_for tsc (ip_seq p) ms) (if ms = [] then sp else drop 48 (last ms))
      (take cap (orders @ concat (map msg_orders ms))) cap"
    "\<And>fuel. parse_block (length ms + fuel) tsc ?buf (length pre) (int (length b)) p =
       parse_block fuel tsc ?buf (length pre + length (concat ms)) (int (length b) - int (length (concat ms))) p'"
    using parse_block_messages [OF assms(1,2) b(2) room, of ?buf pre "rest @ post" "int (length b)" tsc] by (auto simp: b(1))
  have go: "parse_block (length ms + fuel) tsc ?buf (length pre) (int (length b)) p =
      parse_block fuel tsc ?buf (length ?pre) (int (length rest)) p'" for fuel
    using p'(2) [of fuel] by (simp add: b(1))
  have buf: "?buf = ?pre @ rest @ post" by (simp add: b(1))
  have later: "\<exists>k. fuel = length ms + Suc k" if "length ms < fuel" for fuel using that less_iff_Suc_add by auto
  consider "rest = [] \<or> (\<exists>n. message_length (hd rest) = Some n \<and> length rest < unat n)"
    | "rest \<noteq> []" "message_length (hd rest) = None" | "rest \<noteq> []" "message_length (hd rest) = Some 0"
    using b(3) by argo
  then show ?thesis
  proof cases
    case 1
    then have "\<forall>fuel>length ms. parse_block fuel tsc ?buf (length pre) (int (length b)) p = Returns p'"
      using go parse_block_stops [OF 1 buf] later by metis
    then show ?thesis using b(1,2) p'(1) 1 by blast
  next
    case 2
    then have "\<forall>fuel>length ms. parse_block fuel tsc ?buf (length pre) (int (length b)) p = Undefined"
      using go parse_block_undefined [OF 2 buf] later by metis
    then show ?thesis using b(1,2) 2 by blast
  next
    case 3
    have "parse_block fuel tsc ?buf (length pre) (int (length b)) p = Unfinished" for fuel
    proof (cases "length ms \<le> fuel")
      case True
      then show ?thesis using go [of "fuel - length ms"] parse_block_stuck [OF p'(1) 3 buf] by simp
    next
      case False
      have "parse_block (fuel + k) tsc ?buf (length pre) (int (length b)) p = Unfinished \<Longrightarrow>
          parse_block fuel tsc ?buf (length pre) (int (length b)) p = Unfinished" for k
        by (rule parse_block_fuel)
      from this [of "length ms - fuel"] show ?thesis using False go [of 0] by simp
    qed
    then show ?thesis using b(1,2) 3 by blast
  qed
qed

text \<open>A parser with an empty log and an empty queue of four slots.\<close>

definition fresh_parser :: ItchParser where
  "fresh_parser = ItchParser
     (SPSCQueue (replicate 4 (CancelOrder \<lparr>nc_timestamp = 0, nc_order_reference_number = 0, nc_shares = 0,
        nc_stock_locate = 0, nc_tracking_number = 0\<rparr>)))
     \<lparr>lg_start = 4096, lg_curr = 4096, wal = replicate FILE_SIZE 0\<rparr>"

lemma fresh_parser_rel: "parser_rel fresh_parser [] [] [] 3"
  using spsc_inv_new [of "replicate 4 (CancelOrder \<lparr>nc_timestamp = 0, nc_order_reference_number = 0, nc_shares = 0,
        nc_stock_locate = 0, nc_tracking_number = 0\<rparr>)" 2]
  by (simp add: parser_rel_def fresh_parser_def ItchParser_def log_rel_def SPSCQueue_def)

theorem parse_block_outcome_witness:
  "parse_block 1000 (\<lambda>_. 0) ([1, 2] @ [0] @ [3]) (length [1, 2 :: u8]) (int (length [0 :: u8])) fresh_parser = Unfinished"
proof -
  have zero: "message_length 0 = Some 0" by code_simp
  have room: "length ([] :: NormalizedOrder list) \<le> 3"
    "64 * (length ([] :: WalFrame list) + length [0 :: u8] + 1) \<le> FILE_SIZE" by (simp_all add: FILE_SIZE_def)
  obtain ms rest where b: "[0 :: u8] = concat ms @ rest" "list_all msg_ok ms"
    "(\<exists>n. message_length (hd rest) = Some n \<and> length rest < unat n) \<or> rest = [] \<or>
     message_length (hd rest) = None \<or>
     (\<forall>fuel. parse_block fuel (\<lambda>_. 0) ([1, 2] @ [0] @ [3]) (length [1, 2 :: u8]) (int (length [0 :: u8])) fresh_parser = Unfinished)"
    using parse_block_outcome [OF fresh_parser_rel room, of "\<lambda>_. 0" "[1, 2]" "[3]"] by blast
  have "ms = []"
  proof (cases ms)
    case (Cons m ms')
    then have m: "msg_ok m" "hd m = 0" "m \<noteq> []" using b(1,2) by (auto simp: msg_ok_def Cons_eq_append_conv)
    then have "unat (of_nat (length m) :: u8) = 0" using zero by (auto simp: msg_ok_def)
    then show ?thesis using m(1,3) unat_of_nat_small [of "length m"] by (simp add: msg_ok_def)
  qed simp
  then have "rest = [0]" using b(1) by simp
  then show ?thesis using b(3) zero by simp
qed

text \<open>
  C18. A packet made of add, execute and cancel messages as the exchange encodes them comes
  out of the queue as the orders that were sent, in the same order, when the queue has room for them;
  and the log then holds one frame per message, with consecutive sequence numbers.
\<close>

theorem parse_block_roundtrip:
  assumes "parser_rel p fs sp orders cap" "list_all wire_ok msgs" "length orders + length msgs \<le> cap"
    "64 * (length fs + length msgs + 1) \<le> FILE_SIZE" "length msgs < fuel"
  shows "\<exists>p'. parse_block fuel tsc (pre @ concat (map wire_order msgs) @ post) (length pre)
       (int (length (concat (map wire_order msgs)))) p = Returns p' \<and>
     q_list (ip_queue p') = orders @ map normalized msgs \<and> spsc_inv (ip_queue p') \<and>
     (\<exists>sp'. log_rel (ip_logger p') (fs @ frames_for tsc (ip_seq p) (map wire_order msgs)) sp') \<and>
     ip_seq p' = ip_seq p + of_nat (length msgs)"
proof -
  let ?ms = "map wire_order msgs"
  note w = wire_messages [OF assms(2)]
  obtain k where k: "fuel = length ?ms + Suc k" using assms(5) less_iff_Suc_add by auto
  obtain p' where p': "parser_rel p' (fs @ frames_for tsc (ip_seq p) ?ms) (if ?ms = [] then sp else drop 48 (last ?ms))
      (take cap (orders @ map normalized msgs)) cap" "ip_seq p' = ip_seq p + of_nat (length msgs)"
    "\<And>fuel. parse_block (length ?ms + fuel) tsc (pre @ concat ?ms @ post) (length pre) (int (length (concat ?ms))) p =
       parse_block fuel tsc (pre @ concat ?ms @ post) (length (pre @ concat ?ms)) (int (length ([] :: u8 list))) p'"
    using parse_block_messages [OF assms(1) _ w(1), of "pre @ concat ?ms @ post" pre post "int (length (concat ?ms))" tsc]
      assms(3,4) by (auto simp: w(2) simp del: map_map parse_block.simps)
  have "parse_block (Suc k) tsc (pre @ concat ?ms @ post) (length (pre @ concat ?ms)) (int (length ([] :: u8 list))) p' = Returns p'"
    by (rule parse_block_stops) auto
  then have "parse_block fuel tsc (pre @ concat ?ms @ post) (length pre) (int (length (concat ?ms))) p = Returns p'"
    unfolding k p'(3) .
  then show ?thesis using p'(1,2) assms(3) by (auto simp: parser_rel_def simp del: parse_block.simps)
qed

definition sample_cancel :: NormalizedCancelOrder where
  "sample_cancel = \<lparr>nc_timestamp = 1, nc_order_reference_number = 1001, nc_shares = 5, nc_stock_locate = 2, nc_tracking_number = 3\<rparr>"

definition sample_exec :: NormalizedOrderExecuted where
  "sample_exec = \<lparr>ne_timestamp = 2, ne_order_reference_number = 1002, ne_match_number = 9, ne_shares = 50,
     ne_stock_locate = 2, ne_tracking_number = 4\<rparr>"

theorem parse_block_roundtrip_witness:
  "\<exists>p'. parse_block 3 (\<lambda>_. 0) (wire_order (CancelOrder sample_cancel) @ wire_order (ExecuteOrder sample_exec)) 0 54 fresh_parser
       = Returns p' \<and> q_list (ip_queue p') = [CancelOrder sample_cancel, ExecuteOrder sample_exec] \<and> ip_seq p' = 2"
proof -
  let ?msgs = "[CancelOrder sample_cancel, ExecuteOrder sample_exec]"
  have ok: "list_all wire_ok ?msgs" by (simp add: sample_cancel_def sample_exec_def)
  have size: "64 * (length ([] :: WalFrame list) + length ?msgs + 1) \<le> FILE_SIZE" by (simp add: FILE_SIZE_def)
  have "length (wire_order (CancelOrder sample_cancel)) = 23" "length (wire_order (ExecuteOrder sample_exec)) = 31"
    using ok length_wire_order [of "CancelOrder sample_cancel"] length_wire_order [of "ExecuteOrder sample_exec"] by simp_all
  moreover have "ip_seq fresh_parser = 0" by (simp add: fresh_parser_def ItchParser_def)
  ultimately show ?thesis
    using parse_block_roundtrip [OF fresh_parser_rel ok _ size, of 3 "\<lambda>_. 0" "[]" "[]"]
    by (auto simp del: wire_order.simps parse_block.simps)
qed

end
