(* ===== verification/Recovery.thy ===== *)
theory Recovery
  imports Itch_Parser Book_Safety
begin

text \<open>
  Crash recovery, \<^verbatim>\<open>src/recovery/RecoveryEngine.cpp\<close>: the frames of a log are read from the start, each is
  checked, and its order is applied to a book again, until a frame has no valid marker or a
  wrong checksum. Nothing else ends the loop, so it may also run past the end of the file.
\<close>

section \<open>The code\<close>

record RecoveryReport =
  records_processed :: u64
  last_valid_seq :: u32
  torn_write_detected :: bool

definition VALID_FRAME_MARKER :: u8 where
  "VALID_FRAME_MARKER = 0xAA"

text \<open>
  The loop of \<open>run_recovery\<close>; \<open>mem\<close> is the mapping and \<open>off\<close> the offset of the current frame. The call
  on the book is an argument here, \<open>book_op\<close>, and \<open>run_recovery\<close> passes the operations of the order book.
\<close>

function recover_loop ::
  "('b \<Rightarrow> NormalizedOrder \<Rightarrow> ((error + unit) \<times> 'b) option) \<Rightarrow> u8 list \<Rightarrow> nat \<Rightarrow> 'b \<Rightarrow> RecoveryReport \<Rightarrow>
   ((error + unit) \<times> 'b \<times> RecoveryReport) option" where
  "recover_loop book_op mem off book report = do {
     marker \<leftarrow> load8 mem off;
     if marker \<noteq> VALID_FRAME_MARKER then Some (Inr (), book, report)
     else do {
       calculated_checksum \<leftarrow> calculate_crc32 mem off;
       stored_checksum \<leftarrow> load32 mem (off + 60);
       if calculated_checksum \<noteq> stored_checksum then Some (Inr (), book, report\<lparr>torn_write_detected := True\<rparr>)
       else do {
         msg_type \<leftarrow> load8 mem (off + 1);
         header \<leftarrow> extract_header mem (off + 16);
         (res, book) \<leftarrow>
           (if msg_type = 0x41 then do { order \<leftarrow> parse_add_order mem (off + 16) header; book_op book order }
            else if msg_type = 0x45 then do { order \<leftarrow> parse_executed_order mem (off + 16) header; book_op book order }
            else if msg_type = 0x58 then do { order \<leftarrow> parse_cancel_order mem (off + 16) header; book_op book order }
            else Some (Inr (), book));
         case res of
           Inl e \<Rightarrow> Some (Inl e, book, report)
         | Inr _ \<Rightarrow> do {
             seq \<leftarrow> load32 mem (off + 4);
             recover_loop book_op mem (off + 64) book
               (report\<lparr>records_processed := records_processed report + 1, last_valid_seq := seq\<rparr>)
           }
       }
     }
   }"
  by pat_completeness auto

termination
  by (relation "measure (\<lambda>(book_op, mem, off, book, report). length mem - off)")
    (auto simp: load8_def mem_read_def split: if_splits)

declare recover_loop.simps [simp del]

text \<open>The pages a mapped file occupies: beyond the end of the file, its last page reads as zeros.\<close>

definition file_pages :: "u8 list \<Rightarrow> u8 list" where
  "file_pages contents = contents @ replicate ((4096 - length contents mod 4096) mod 4096) 0"

text \<open>An exception of the book leaves \<open>run_recovery\<close> at once, with the file open and mapped.\<close>

definition run_recovery ::
  "u8 list \<Rightarrow> lob \<Rightarrow> RecoveryReport \<Rightarrow> kernel \<Rightarrow> ((error + unit) \<times> lob \<times> RecoveryReport \<times> kernel) option" where
  "run_recovery contents order_book report k =
     (let (fd, k) = sys_fd k in
      if fd = - 1 then Some (Inl (Runtime_error ''run_recovery: unable to open file for recovery''), order_book, report, k) else
      let (addr, k) = sys_mmap (length contents) k in
      case addr of
        None \<Rightarrow> Some (Inl (Runtime_error ''run_recovery: unable to mmap file for recovery''), order_book, report, sys_close fd k)
      | Some start_addr \<Rightarrow>
          let (ok, k) = sys_ok k in
          if \<not> ok then Some (Inl (Runtime_error ''run_recovery: unable to use madvise''), order_book, report,
            sys_munmap start_addr (length contents) (sys_close fd k))
          else do {
            (res, order_book, report) \<leftarrow> recover_loop dispatch (file_pages contents) 0 order_book report;
            Some (res, order_book, report,
              (case res of Inl e \<Rightarrow> k | Inr _ \<Rightarrow> sys_munmap start_addr (length contents) (sys_close fd k)))
          })"

definition new_report :: RecoveryReport where
  "new_report = \<lparr>records_processed = 0, last_valid_seq = 0, torn_write_detected = False\<rparr>"

section \<open>Frames read back\<close>

text \<open>The order in a frame, if it holds one.\<close>

definition frame_orders :: "WalFrame \<Rightarrow> NormalizedOrder list" where
  "frame_orders f = (case parse_order (payload f) 0 (msg_type f) of Some (Some order) \<Rightarrow> [order] | _ \<Rightarrow> [])"

text \<open>The loop in terms of \<open>parse_order\<close>.\<close>

definition frame_step ::
  "('b \<Rightarrow> NormalizedOrder \<Rightarrow> ((error + unit) \<times> 'b) option) \<Rightarrow> u8 list \<Rightarrow> nat \<Rightarrow> 'b \<Rightarrow> ((error + unit) \<times> 'b) option" where
  "frame_step book_op mem off book = do {
     msg_type \<leftarrow> load8 mem (off + 1);
     header \<leftarrow> extract_header mem (off + 16);
     order \<leftarrow> parse_order mem (off + 16) msg_type;
     (case order of None \<Rightarrow> Some (Inr (), book) | Some order \<Rightarrow> book_op book order)
   }"

lemma frame_step_switch:
  "frame_step book_op mem off book = do {
     msg_type \<leftarrow> load8 mem (off + 1);
     header \<leftarrow> extract_header mem (off + 16);
     (if msg_type = 0x41 then do { order \<leftarrow> parse_add_order mem (off + 16) header; book_op book order }
      else if msg_type = 0x45 then do { order \<leftarrow> parse_executed_order mem (off + 16) header; book_op book order }
      else if msg_type = 0x58 then do { order \<leftarrow> parse_cancel_order mem (off + 16) header; book_op book order }
      else Some (Inr (), book))
   }"
proof -
  have switch: "(if a then x \<bind> f else if b then y \<bind> f else if c then z \<bind> f else w) =
    (if a then x \<bind> (\<lambda>v. Some (Some v)) else if b then y \<bind> (\<lambda>v. Some (Some v))
     else if c then z \<bind> (\<lambda>v. Some (Some v)) else Some None) \<bind> (\<lambda>v. case v of None \<Rightarrow> w | Some v \<Rightarrow> f v)"
    for a b c and x y z :: "NormalizedOrder option" and w and f :: "NormalizedOrder \<Rightarrow> ((error + unit) \<times> 'b) option"
    by simp
  show ?thesis unfolding frame_step_def parse_order_def by (simp add: switch [symmetric] cong: Option.bind_cong if_cong)
qed

lemma recover_loop_step:
  "recover_loop book_op mem off book report = do {
     marker \<leftarrow> load8 mem off;
     if marker \<noteq> 0xAA then Some (Inr (), book, report)
     else do {
       calculated \<leftarrow> calculate_crc32 mem off;
       stored \<leftarrow> load32 mem (off + 60);
       if calculated \<noteq> stored then Some (Inr (), book, report\<lparr>torn_write_detected := True\<rparr>)
       else do {
         (res, book) \<leftarrow> frame_step book_op mem off book;
         case res of
           Inl e \<Rightarrow> Some (Inl e, book, report)
         | Inr _ \<Rightarrow> do {
             seq \<leftarrow> load32 mem (off + 4);
             recover_loop book_op mem (off + 64) book
               (report\<lparr>records_processed := records_processed report + 1, last_valid_seq := seq\<rparr>)
           }
       }
     }
   }"
  by (subst recover_loop.simps)
    (simp only: frame_step_switch VALID_FRAME_MARKER_def Option.bind_assoc)

lemma load_le_bytes: "of_nat (le_nat (le_bytes 4 (unat (w :: u32)))) = w"
proof -
  have "unat w < 256 ^ 4" using unsigned_less [of w] by simp
  then show ?thesis by (simp add: le_nat_le_bytes)
qed

lemma frame_reads:
  assumes ok: "frame_ok f" and mem: "mem = pre @ frame_bytes f @ post"
  shows "load8 mem (length pre) = Some 0xAA" "load8 mem (length pre + 1) = Some (msg_type f)"
    "load32 mem (length pre + 4) = Some (seq_num f)" "load32 mem (length pre + 60) = Some (checksum f)"
    "calculate_crc32 mem (length pre) = Some (checksum f)"
    "parse_order mem (length pre + 16) t = parse_order (payload f) 0 t"
    "\<exists>h. extract_header mem (length pre + 16) = Some h"
proof -
  note f = ok [unfolded frame_ok_def]
  let ?head = "[marker f, msg_type f] @ le_bytes 2 (unat (channel_id f)) @ le_bytes 4 (unat (seq_num f)) @ le_bytes 8 (unat (timestamp f))"
  let ?rest = "le_bytes 4 (unat (checksum f)) @ post"
  have m: "mem = pre @ ?head @ payload f @ ?rest" by (simp add: mem frame_bytes_def covered_bytes_def)
  show "load8 mem (length pre) = Some 0xAA" "load8 mem (length pre + 1) = Some (msg_type f)"
    using f by (simp_all add: m shifts fields)
  show "load32 mem (length pre + 4) = Some (seq_num f)"
    by (simp add: m shifts fields load_le_bytes)
  show "load32 mem (length pre + 60) = Some (checksum f)"
    using f by (simp add: m shifts fields load_le_bytes)
  have "take 60 (drop (length pre) mem) = covered_bytes f"
    using f length_covered_bytes [of f] by (simp add: mem frame_bytes_def)
  then show "calculate_crc32 mem (length pre) = Some (checksum f)"
    using f length_covered_bytes [of f] calculate_crc32_eq [of "length pre" mem]
    by (simp add: mem frame_bytes_def)
  have "parse_order mem (length (pre @ ?head)) t = parse_order (payload f @ ?rest) 0 t"
    unfolding m by (simp only: append_assoc [symmetric, of pre ?head] parse_order_shift)
  moreover have "parse_order (payload f @ ?rest) 0 t = parse_order (payload f) 0 t"
    using f by (intro parse_order_prefix) simp
  moreover have "length (pre @ ?head) = length pre + 16" by simp
  ultimately show "parse_order mem (length pre + 16) t = parse_order (payload f) 0 t" by simp
  show "\<exists>h. extract_header mem (length pre + 16) = Some h"
    using f by (simp add: m extract_header_def load64_def load16_def mem_read_def)
qed

fun apply_all ::
  "('b \<Rightarrow> NormalizedOrder \<Rightarrow> ((error + unit) \<times> 'b) option) \<Rightarrow> NormalizedOrder list \<Rightarrow> 'b \<Rightarrow> ((error + unit) \<times> 'b) option" where
  "apply_all book_op [] book = Some (Inr (), book)"
| "apply_all book_op (r # rs) book = do {
     (res, book) \<leftarrow> book_op book r;
     case res of Inl e \<Rightarrow> Some (Inl e, book) | Inr _ \<Rightarrow> apply_all book_op rs book
   }"

lemma apply_all_one: "apply_all book_op [r] book = book_op book r"
  by (cases "book_op book r") (auto split: sum.split)

lemma consume_orders_apply_all: "consume_orders rs s = apply_all dispatch rs s"
  by (induction rs arbitrary: s) (simp_all cong: Option.bind_cong sum.case_cong)

text \<open>What recovery means: the frames in order, each with its order applied and counted.\<close>

fun replay ::
  "('b \<Rightarrow> NormalizedOrder \<Rightarrow> ((error + unit) \<times> 'b) option) \<Rightarrow> WalFrame list \<Rightarrow> 'b \<Rightarrow> RecoveryReport \<Rightarrow>
   ((error + unit) \<times> 'b \<times> RecoveryReport) option" where
  "replay book_op [] book report = Some (Inr (), book, report)"
| "replay book_op (f # fs) book report = do {
     (res, book) \<leftarrow> apply_all book_op (frame_orders f) book;
     case res of
       Inl e \<Rightarrow> Some (Inl e, book, report)
     | Inr _ \<Rightarrow> replay book_op fs book
         (report\<lparr>records_processed := records_processed report + 1, last_valid_seq := seq_num f\<rparr>)
   }"

lemma frame_step_orders:
  assumes "frame_ok f" "mem = pre @ frame_bytes f @ post"
  shows "frame_step book_op mem (length pre) book = apply_all book_op (frame_orders f) book"
proof -
  note r = frame_reads [OF assms]
  have len: "length (payload f) = 44" using assms(1) by (simp add: frame_ok_def)
  have "parse_order (payload f) 0 (msg_type f) \<noteq> None" by (rule parse_order_total) (simp add: len)
  then obtain new where new: "parse_order (payload f) 0 (msg_type f) = Some new" by blast
  obtain h where h: "extract_header mem (length pre + 16) = Some h" using r(7) by blast
  show ?thesis using r(2,6) new h
    by (cases new) (simp_all add: frame_step_def frame_orders_def apply_all_one del: apply_all.simps(2))
qed

lemma recover_replay:
  assumes "\<forall>f\<in>set fs. frame_ok f" "mem = pre @ concat (map frame_bytes fs) @ rest"
  shows "recover_loop book_op mem (length pre) book report = do {
     (res, book, report) \<leftarrow> replay book_op fs book report;
     case res of
       Inl e \<Rightarrow> Some (Inl e, book, report)
     | Inr _ \<Rightarrow> recover_loop book_op mem (length pre + 64 * length fs) book report
   }"
  using assms
proof (induction fs arbitrary: pre book report)
  case (Cons f fs)
  have ok: "frame_ok f" and mem: "mem = pre @ frame_bytes f @ (concat (map frame_bytes fs) @ rest)"
    using Cons.prems by simp_all
  note r = frame_reads [OF ok mem]
  have len: "length (pre @ frame_bytes f) = length pre + 64" using ok by (simp add: frame_ok_def length_frame_bytes)
  then have len2: "length (pre @ frame_bytes f) + 64 * length fs = length pre + 64 * length (f # fs)" by simp
  have IH: "recover_loop book_op mem (length pre + 64) b rep = do {
     (res, book, report) \<leftarrow> replay book_op fs b rep;
     case res of
       Inl e \<Rightarrow> Some (Inl e, book, report)
     | Inr _ \<Rightarrow> recover_loop book_op mem (length pre + 64 * length (f # fs)) book report }" for b rep
    using Cons.IH [of "pre @ frame_bytes f" b rep, unfolded len2, unfolded len] Cons.prems by simp
  have start: "recover_loop book_op mem (length pre) book report = do {
     (res, book) \<leftarrow> apply_all book_op (frame_orders f) book;
     case res of
       Inl e \<Rightarrow> Some (Inl e, book, report)
     | Inr _ \<Rightarrow> recover_loop book_op mem (length pre + 64) book
         (report\<lparr>records_processed := records_processed report + 1, last_valid_seq := seq_num f\<rparr>) }"
    by (subst recover_loop_step) (simp add: r frame_step_orders [OF ok mem] cong: sum.case_cong)
  show ?case
  proof (cases "apply_all book_op (frame_orders f) book")
    case (Some x)
    then show ?thesis unfolding start by (cases x; cases "fst x") (auto simp: IH)
  qed (simp add: start)
qed simp

lemma apply_all_append:
  "apply_all book_op (xs @ ys) book = do {
     (res, book) \<leftarrow> apply_all book_op xs book;
     case res of Inl e \<Rightarrow> Some (Inl e, book) | Inr _ \<Rightarrow> apply_all book_op ys book
   }"
proof (induction xs arbitrary: book)
  case (Cons x xs)
  then show ?case by (cases "book_op book x") (auto split: sum.split)
qed simp

lemma replay_apply_all:
  assumes "apply_all book_op (concat (map frame_orders fs)) book = Some (res, book')"
  shows "\<exists>report'. replay book_op fs book report = Some (res, book', report') \<and>
    (res = Inr () \<longrightarrow> report' = report\<lparr>records_processed := records_processed report + of_nat (length fs),
       last_valid_seq := (if fs = [] then last_valid_seq report else seq_num (last fs))\<rparr>)"
  using assms
proof (induction fs arbitrary: book report)
  case (Cons f fs)
  obtain r b where one: "apply_all book_op (frame_orders f) book = Some (r, b)"
    using Cons.prems by (auto simp: apply_all_append bind_eq_Some_conv)
  show ?case
  proof (cases r)
    case (Inr u)
    then have "apply_all book_op (concat (map frame_orders fs)) b = Some (res, book')"
      using Cons.prems one by (simp add: apply_all_append)
    from Cons.IH [OF this, of "report\<lparr>records_processed := records_processed report + 1, last_valid_seq := seq_num f\<rparr>"]
    show ?thesis using one Inr by (auto simp: add.commute add.left_commute)
  qed (use Cons.prems one in \<open>auto simp: apply_all_append\<close>)
qed simp

lemma recover_stops: "load8 mem off = Some m \<Longrightarrow> m \<noteq> 0xAA \<Longrightarrow> recover_loop book_op mem off book report = Some (Inr (), book, report)"
  by (subst recover_loop_step) simp

lemma recover_torn:
  "load8 mem off = Some 0xAA \<Longrightarrow> calculate_crc32 mem off = Some c \<Longrightarrow> load32 mem (off + 60) = Some c' \<Longrightarrow> c \<noteq> c' \<Longrightarrow>
     recover_loop book_op mem off book report = Some (Inr (), book, report\<lparr>torn_write_detected := True\<rparr>)"
  by (subst recover_loop_step) simp

lemma recover_past_end: "length mem \<le> off \<Longrightarrow> recover_loop book_op mem off book report = None"
  by (subst recover_loop_step) (simp add: load8_def mem_read_def)

text \<open>The frames at the start of a log, and then what follows them.\<close>

lemma recover_frames:
  assumes "\<forall>f\<in>set fs. frame_ok f" "mem = concat (map frame_bytes fs) @ rest"
    and "consume_orders (concat (map frame_orders fs)) book = Some (res, book')"
  shows "\<exists>report'. recover_loop dispatch mem 0 book report =
      (case res of Inl e \<Rightarrow> Some (Inl e, book', report') | Inr _ \<Rightarrow> recover_loop dispatch mem (64 * length fs) book' report') \<and>
    (res = Inr () \<longrightarrow> report' = report\<lparr>records_processed := records_processed report + of_nat (length fs),
       last_valid_seq := (if fs = [] then last_valid_seq report else seq_num (last fs))\<rparr>)"
proof -
  obtain report' where r: "replay dispatch fs book report = Some (res, book', report')"
    "res = Inr () \<longrightarrow> report' = report\<lparr>records_processed := records_processed report + of_nat (length fs),
       last_valid_seq := (if fs = [] then last_valid_seq report else seq_num (last fs))\<rparr>"
    using replay_apply_all [of dispatch fs book res book' report] assms(3) unfolding consume_orders_apply_all by blast
  have "recover_loop dispatch mem 0 book report =
      (case res of Inl e \<Rightarrow> Some (Inl e, book', report') | Inr _ \<Rightarrow> recover_loop dispatch mem (64 * length fs) book' report')"
    using recover_replay [OF assms(1), of mem "[]" rest dispatch book report] assms(2) r(1) by (simp cong: sum.case_cong)
  then show ?thesis using r(2) by blast
qed

section \<open>The interface of a book\<close>

text \<open>
  What recovery needs of the book it fills: an invariant which every operation keeps, whatever the
  order, and under which every operation is defined.
\<close>

locale order_book =
  fixes inv :: "'b \<Rightarrow> bool"
    and book_op :: "'b \<Rightarrow> NormalizedOrder \<Rightarrow> ((error + unit) \<times> 'b) option"
    and raises :: "error set"
  assumes op_ok: "inv b \<Longrightarrow> \<exists>res b'. book_op b r = Some (res, b') \<and> inv b' \<and> (res = Inr () \<or> (\<exists>e\<in>raises. res = Inl e))"
begin

lemma frame_step_ok:
  assumes "inv b" "off + 64 \<le> length mem"
  shows "\<exists>res b'. frame_step book_op mem off b = Some (res, b') \<and> inv b' \<and> (res = Inr () \<or> (\<exists>e\<in>raises. res = Inl e))"
proof -
  obtain t where t: "load8 mem (off + 1) = Some t" using assms(2) by (simp add: load8_def mem_read_def)
  obtain h where h: "extract_header mem (off + 16) = Some h"
    using assms(2) by (simp add: extract_header_def load64_def load16_def mem_read_def)
  have "parse_order mem (off + 16) t \<noteq> None" using assms(2) by (intro parse_order_total) simp
  then obtain new where "parse_order mem (off + 16) t = Some new" by blast
  then show ?thesis using t h op_ok [OF assms(1)] assms(1) by (cases new) (simp_all add: frame_step_def)
qed

text \<open>
  Whatever the bytes of the log, recovery is defined and leaves a lawful book, as long as some frame of
  the mapping has no valid marker.
\<close>

lemma recover_safe:
  assumes "inv b" "off + 64 * n < length mem" "mem ! (off + 64 * n) \<noteq> 0xAA"
  shows "\<exists>res b' report'. recover_loop book_op mem off b report = Some (res, b', report') \<and> inv b' \<and>
    (res = Inr () \<or> (\<exists>e\<in>raises. res = Inl e))"
  using assms
proof (induction n arbitrary: off b report)
  case 0
  then have "load8 mem off = Some (mem ! off)" by (simp add: load8_def mem_read_def hd_drop_conv_nth take_Suc_conv_app_nth)
  then show ?case using 0 recover_stops [of mem off "mem ! off" book_op b report] by auto
next
  case (Suc n)
  have in_range: "off + 64 \<le> length mem" using Suc.prems(2) by simp
  obtain m where m: "load8 mem off = Some m" using in_range by (simp add: load8_def mem_read_def)
  obtain c c' where c: "calculate_crc32 mem off = Some c" "load32 mem (off + 60) = Some c'"
    using in_range calculate_crc32_eq [of off mem] by (simp add: load32_def mem_read_def)
  obtain res b' where st: "frame_step book_op mem off b = Some (res, b')" "inv b'" "res = Inr () \<or> (\<exists>e\<in>raises. res = Inl e)"
    using frame_step_ok [OF Suc.prems(1) in_range] by blast
  obtain s where s: "load32 mem (off + 4) = Some s" using in_range by (simp add: load32_def mem_read_def)
  have onward: "\<exists>res b'' report'. recover_loop book_op mem (off + 64) b' rep = Some (res, b'', report') \<and> inv b'' \<and>
    (res = Inr () \<or> (\<exists>e\<in>raises. res = Inl e))" for rep
    by (rule Suc.IH [OF st(2)]) (use Suc.prems in \<open>simp_all add: add.assoc\<close>)
  show ?case
  proof (cases "m = 0xAA \<and> c = c'")
    case True
    then show ?thesis using m c st s onward by (subst recover_loop_step) auto
  next
    case False
    then show ?thesis using m c Suc.prems(1) by (subst recover_loop_step) auto
  qed
qed

end

interpretation lob_book: order_book book_inv dispatch "{Not_enough_shares}"
  by unfold_locales (use dispatch_inv in blast)

section \<open>Logs and files\<close>

lemma log_rel_length: "log_rel lg fs sp \<Longrightarrow> length (wal lg) = FILE_SIZE"
  using length_frames [of fs] by (simp add: log_rel_def)

lemma log_rel_pages: "log_rel lg fs sp \<Longrightarrow> file_pages (wal lg) = wal lg"
  using log_rel_length [of lg fs sp] by (simp add: file_pages_def FILE_SIZE_def)

text \<open>The system calls of \<open>run_recovery\<close> succeed.\<close>

definition recovery_granted :: "u8 list \<Rightarrow> kernel \<Rightarrow> bool" where
  "recovery_granted contents k \<longleftrightarrow>
     (let (fd, k1) = sys_fd k; (addr, k2) = sys_mmap (length contents) k1; (ok, k3) = sys_ok k2
      in fd \<noteq> - 1 \<and> addr \<noteq> None \<and> ok)"

lemma run_recovery_granted:
  assumes "recovery_granted contents k"
    and "recover_loop dispatch (file_pages contents) 0 book report = Some (res, book', report')"
  shows "\<exists>k'. run_recovery contents book report k = Some (res, book', report', k') \<and> (res = Inr () \<longrightarrow> same_resources k k')"
proof -
  obtain fd k1 where f: "sys_fd k = (fd, k1)" by fastforce
  obtain addr k2 where m: "sys_mmap (length contents) k1 = (addr, k2)" by fastforce
  obtain ok k3 where o: "sys_ok k2 = (ok, k3)" by fastforce
  have g: "fd \<noteq> - 1" "addr \<noteq> None" "ok" using assms(1) by (simp_all add: recovery_granted_def f m o)
  then obtain a where a: "addr = Some a" by blast
  have "same_resources k (sys_munmap a (length contents) (sys_close fd k3))"
    using sys_fd_effect [OF f] sys_mmap_effect [OF m] sys_ok_effect [OF o] g(1) a by (auto simp: same_resources_def)
  moreover have "run_recovery contents book report k = Some (res, book', report',
      (case res of Inl e \<Rightarrow> k3 | Inr _ \<Rightarrow> sys_munmap a (length contents) (sys_close fd k3)))"
    using g(1,3) by (simp add: run_recovery_def f m o a assms(2))
  ultimately show ?thesis by auto
qed

text \<open>Logged messages are read back as the orders the parser queued.\<close>

lemma frame_for_orders:
  assumes "msg_ok m"
  shows "frame_orders (frame_for tsc seq (log_type (hd m)) m) = msg_orders m"
proof (cases "hd m = 0x41 \<or> hd m = 0x45 \<or> hd m = 0x58")
  case True
  then have "length m \<le> 36" using msg_ok_supported [OF assms] by auto
  then have "take 44 (m @ replicate 44 0) = m @ replicate (44 - length m) 0" by simp
  then show ?thesis
    using True msg_ok_parses(1) [OF assms] by (auto simp: frame_orders_def msg_orders_def log_type_def)
next
  case False
  then show ?thesis
    using parse_order_None [of m 0 "hd m"] parse_order_None [of "take 44 (m @ replicate 44 0)" 0 "0x2D"]
    by (simp add: frame_orders_def msg_orders_def log_type_def)
qed

lemma frames_for_orders:
  "list_all msg_ok ms \<Longrightarrow> concat (map frame_orders (frames_for tsc seq ms)) = concat (map msg_orders ms)"
  by (induction ms arbitrary: seq) (simp_all add: frame_for_orders)

lemma frames_for_last: "ms \<noteq> [] \<Longrightarrow> seq_num (last (frames_for tsc seq ms)) = ucast (seq + of_nat (length ms) - 1)"
proof (induction ms arbitrary: seq)
  case (Cons m ms)
  show ?case
  proof (cases ms)
    case (Cons m' ms')
    then have "frames_for tsc (seq + 1) ms \<noteq> []" by simp
    then show ?thesis using Cons.IH [of "seq + 1"] Cons by (simp add: algebra_simps)
  qed simp
qed simp

section \<open>Properties\<close>

definition report_of :: "WalFrame list \<Rightarrow> bool \<Rightarrow> RecoveryReport" where
  "report_of fs torn = \<lparr>records_processed = of_nat (length fs),
     last_valid_seq = (if fs = [] then 0 else seq_num (last fs)), torn_write_detected = torn\<rparr>"

text \<open>A log with one frame, which holds a cancel message, and a book to recover.\<close>

definition one_frame :: WalFrame where
  "one_frame = frame_for (\<lambda>_. 0) 5 0x58 (wire_order (CancelOrder sample_cancel))"

definition one_frame_log :: MmapLogger where
  "one_frame_log = \<lparr>lg_start = 4096, lg_curr = 4096 + 64, wal = frame_bytes one_frame @ replicate (FILE_SIZE - 64) 0\<rparr>"

lemma one_frame_ok: "frame_ok one_frame" "seq_num one_frame = 5"
  by (simp_all add: one_frame_def frame_for_ok)

lemma one_frame_log_rel: "log_rel one_frame_log [one_frame] []"
  by (simp add: one_frame_log_def log_rel_def one_frame_ok FILE_SIZE_def)

lemma one_frame_orders: "frame_orders one_frame = [CancelOrder sample_cancel]"
proof -
  have ok: "wire_ok (CancelOrder sample_cancel)" by (simp add: sample_cancel_def)
  have "log_type (hd (wire_order (CancelOrder sample_cancel))) = 0x58"
    by (simp add: wire_message(1) [OF ok] log_type_def del: wire_order.simps)
  then show ?thesis
    using frame_for_orders [OF wire_message(2) [OF ok], of "\<lambda>_. 0" 5] wire_message(3) [OF ok]
    by (simp add: one_frame_def del: wire_order.simps)
qed

lemma granting_recovery: "contents \<noteq> [] \<Longrightarrow> recovery_granted contents granting"
  by (simp add: recovery_granted_def granting_def kernel_calls)

lemma cancel_recovered:
  assumes "book_inv s"
  obtains s' where "consume_orders (concat (map frame_orders [one_frame])) s = Some (Inr (), s')" "book_inv s'"
proof -
  obtain res s' where d: "dispatch s (CancelOrder sample_cancel) = Some (res, s')" "book_inv s'"
    using dispatch_inv [OF assms] by blast
  then have "res = Inr ()" by (auto simp: bind_eq_Some_conv)
  then show ?thesis using that d by (simp add: one_frame_orders del: dispatch.simps)
qed

text \<open>Recovery of an intact log, shared with the properties that span components.\<close>

lemma recover_log:
  assumes "log_rel lg fs sp" "64 * length fs < FILE_SIZE" "sp = [] \<or> hd sp \<noteq> 0xAA" "recovery_granted (wal lg) k"
    and "consume_orders (concat (map frame_orders fs)) book = Some (res, book')"
  shows "\<exists>report k'. run_recovery (wal lg) book new_report k = Some (res, book', report, k') \<and>
    (res = Inr () \<longrightarrow> report = report_of fs False \<and> same_resources k k')"
proof -
  let ?z = "sp @ replicate (FILE_SIZE - 64 * length fs - length sp) 0"
  have w: "wal lg = concat (map frame_bytes fs) @ ?z" and ok: "\<forall>f\<in>set fs. frame_ok f"
    using assms(1) by (simp_all add: log_rel_def)
  obtain report where r: "recover_loop dispatch (wal lg) 0 book new_report =
      (case res of Inl e \<Rightarrow> Some (Inl e, book', report) | Inr _ \<Rightarrow> recover_loop dispatch (wal lg) (64 * length fs) book' report)"
    "res = Inr () \<longrightarrow> report = report_of fs False"
    using recover_frames [OF ok w assms(5), of new_report] by (auto simp: new_report_def report_of_def)
  have pos: "?z \<noteq> []" "hd ?z \<noteq> 0xAA" using assms(2,3) by (cases sp; simp)+
  have "load8 (wal lg) (64 * length fs) = Some (hd ?z)"
    using pos(1) length_frames [OF ok] unfolding w by (cases ?z) (simp_all add: load8_def mem_read_def)
  from recover_stops [OF this pos(2)] have "recover_loop dispatch (wal lg) 0 book new_report = Some (res, book', report)"
    using r(1) by (cases res) simp_all
  from run_recovery_granted [OF assms(4), unfolded log_rel_pages [OF assms(1)], OF this]
  show ?thesis using r(2) by blast
qed

text \<open>
  C10. Recovery of a log that is not full applies exactly the orders of its frames, in order, to the
  book: it ends in the same book, and with the same exception if there is one, as the thread
  that consumes these orders; the report counts all frames, names the last sequence number and no
  torn write; and the file is closed and unmapped again.
\<close>

theorem recovery_rebuilds_book:
  assumes "log_rel lg fs sp" "64 * length fs < FILE_SIZE" "sp = [] \<or> hd sp \<noteq> 0xAA" "recovery_granted (wal lg) k"
    and "consume_orders (concat (map frame_orders fs)) book = Some (res, book')"
  shows "\<exists>report k'. run_recovery (wal lg) book new_report k = Some (res, book', report, k') \<and>
    (res = Inr () \<longrightarrow> report = report_of fs False \<and> same_resources k k')"
  by (rule recover_log [OF assms])

theorem recovery_rebuilds_book_witness:
  "\<exists>s s' k'. LimitOrderBook 64 4 True True (2 ^ 12) 4 = Some (Inr s) \<and>
    consume_orders [CancelOrder sample_cancel] s = Some (Inr (), s') \<and>
    run_recovery (wal one_frame_log) s new_report granting =
      Some (Inr (), s', \<lparr>records_processed = 1, last_valid_seq = 5, torn_write_detected = False\<rparr>, k')"
proof -
  obtain s where s: "LimitOrderBook 64 4 True True (2 ^ 12) 4 = Some (Inr s)" "book_inv s" by (rule small_book)
  obtain s' where s': "consume_orders (concat (map frame_orders [one_frame])) s = Some (Inr (), s')"
    by (rule cancel_recovered [OF s(2)])
  have "64 * length [one_frame] < FILE_SIZE" by (simp add: FILE_SIZE_def)
  moreover have "recovery_granted (wal one_frame_log) granting"
    by (rule granting_recovery) (simp add: one_frame_log_def FILE_SIZE_def)
  ultimately obtain k' where "run_recovery (wal one_frame_log) s new_report granting =
      Some (Inr (), s', report_of [one_frame] False, k')"
    using recovery_rebuilds_book [OF one_frame_log_rel _ _ _ s'] by auto
  then show ?thesis using s(1) s' by (simp add: report_of_def one_frame_ok one_frame_orders)
qed



text \<open>
  C17. Whatever the bytes of the log are, damaged in any way, recovery reads only inside the
  mapping and leaves a consistent book, as long as some frame of the mapping has no valid marker; the
  only exception it can raise is that of an execution with too many shares.
\<close>

theorem recovery_is_safe:
  assumes "book_inv book" "64 * n < length (file_pages contents)" "file_pages contents ! (64 * n) \<noteq> 0xAA"
    "recovery_granted contents k"
  shows "\<exists>res book' report' k'. run_recovery contents book report k = Some (res, book', report', k') \<and> book_inv book' \<and>
    (res = Inr () \<or> res = Inl Not_enough_shares)"
proof -
  obtain res book' report' where r: "recover_loop dispatch (file_pages contents) 0 book report = Some (res, book', report')"
    "book_inv book'" "res = Inr () \<or> res = Inl Not_enough_shares"
    using lob_book.recover_safe [OF assms(1), of 0 n "file_pages contents" report] assms(2,3) by auto
  then show ?thesis using run_recovery_granted [OF assms(4) r(1)] by blast
qed

theorem recovery_is_safe_witness:
  "\<exists>s res s' report k'. LimitOrderBook 64 4 True True (2 ^ 12) 4 = Some (Inr s) \<and>
    run_recovery ([0xAA, 0x41] @ replicate 70 7) s new_report granting = Some (res, s', report, k') \<and> book_inv s' \<and>
    (res = Inr () \<or> res = Inl Not_enough_shares)"
proof -
  obtain s where s: "LimitOrderBook 64 4 True True (2 ^ 12) 4 = Some (Inr s)" "book_inv s" by (rule small_book)
  let ?c = "[0xAA, 0x41] @ replicate 70 7 :: u8 list"
  have p: "64 * 1 < length (file_pages ?c)" "file_pages ?c ! (64 * 1) \<noteq> 0xAA"
    by (simp_all add: file_pages_def nth_append)
  have "recovery_granted ?c granting" by (rule granting_recovery) simp
  from recovery_is_safe [OF s(2) p this, of new_report] show ?thesis using s(1) by blast
qed

text \<open>
  C34. A log whose every frame is in use has no invalid marker behind the last frame: recovery applies
  the last frame and then reads the marker of the next one past the end of the mapping.
\<close>

theorem recovery_overruns_full_log:
  assumes "log_rel lg fs sp" "64 * length fs = FILE_SIZE" "recovery_granted (wal lg) k"
    and "consume_orders (concat (map frame_orders fs)) book = Some (Inr (), book')"
  shows "run_recovery (wal lg) book report k = None"
proof -
  have w: "wal lg = concat (map frame_bytes fs) @ []" and ok: "\<forall>f\<in>set fs. frame_ok f"
    using assms(1,2) by (simp_all add: log_rel_def)
  have "recover_loop dispatch (wal lg) 0 book report = None"
    using recover_frames [OF ok w assms(4), of report] recover_past_end [of "wal lg" "64 * length fs"]
      log_rel_length [OF assms(1)] assms(2) by auto
  then show ?thesis
    using assms(3) log_rel_pages [OF assms(1)]
    by (auto simp: run_recovery_def recovery_granted_def split: prod.splits option.splits)
qed

text \<open>A full log: every frame holds the same cancel message.\<close>

definition full_log :: MmapLogger where
  "full_log = \<lparr>lg_start = 4096, lg_curr = 4096 + FILE_SIZE, wal = concat (map frame_bytes (replicate (2 ^ 24) one_frame))\<rparr>"

lemma cancels_recovered:
  "book_inv s \<Longrightarrow> \<exists>s'. consume_orders (concat (map frame_orders (replicate n one_frame))) s = Some (Inr (), s') \<and> book_inv s'"
proof (induction n arbitrary: s)
  case (Suc n)
  obtain s1 where s1: "consume_orders (concat (map frame_orders [one_frame])) s = Some (Inr (), s1)" "book_inv s1"
    by (rule cancel_recovered [OF Suc.prems])
  show ?case using Suc.IH [OF s1(2)] s1(1) by (simp add: consume_orders_apply_all apply_all_append)
qed simp

theorem recovery_overruns_full_log_witness:
  "\<exists>s. LimitOrderBook 64 4 True True (2 ^ 12) 4 = Some (Inr s) \<and> run_recovery (wal full_log) s new_report granting = None"
proof -
  obtain s where s: "LimitOrderBook 64 4 True True (2 ^ 12) 4 = Some (Inr s)" "book_inv s" by (rule small_book)
  let ?fs = "replicate (2 ^ 24) one_frame"
  have rel: "log_rel full_log ?fs []"
    by (simp add: log_rel_def full_log_def FILE_SIZE_def one_frame_ok)
  moreover have "64 * length ?fs = FILE_SIZE" by (simp add: FILE_SIZE_def)
  moreover have "recovery_granted (wal full_log) granting"
    using log_rel_length [OF rel] by (intro granting_recovery) (auto simp: FILE_SIZE_def)
  ultimately show ?thesis
    using recovery_overruns_full_log [of full_log ?fs] cancels_recovered [OF s(2), of "2 ^ 24"] s(1) by blast
qed

end
