(* ===== verification/Telemetry.thy ===== *)
theory Telemetry
  imports Posix_Resources Spsc_Queue
begin

text \<open>
  Profiling, \<^verbatim>\<open>src/telemetry/TSC_Clock.h\<close> and \<^verbatim>\<open>src/telemetry/TelemetryEngine.h\<close>, and the thread that writes
  the measurements to a file, \<open>log_telemetry\<close> of \<^verbatim>\<open>src/main.cpp\<close>. The flag \<open>hw\<close> says whether
  \<^verbatim>\<open>ENABLE_HW_TELEMETRY\<close> is defined; what the instructions read is an argument.
\<close>

section \<open>The clock\<close>

definition calibrate_frequency :: "bool \<Rightarrow> u32 \<Rightarrow> u32" where
  "calibrate_frequency hw eax = (if hw then eax AND 0xFFFF else 0)"

definition rdtsc_start :: "bool \<Rightarrow> u64 \<Rightarrow> u64" where
  "rdtsc_start hw rdtsc = (if hw then rdtsc else 0)"

definition rdtsc_end :: "bool \<Rightarrow> u64 \<Rightarrow> u64" where
  "rdtsc_end hw rdtscp = (if hw then rdtscp else 0)"

section \<open>The counters\<close>

text \<open>\<open>metadata\<close> is the address of the mapped page, 0 the null pointer.\<close>

record TelemetryEngine =
  metadata :: nat
  te_fd :: int

definition TelemetryEngine :: "bool \<Rightarrow> kernel \<Rightarrow> (error + TelemetryEngine) \<times> kernel" where
  "TelemetryEngine hw k =
     (if \<not> hw then (Inr \<lparr>metadata = 0, te_fd = - 1\<rparr>, k) else
      let (fd, k) = sys_fd k in
      if fd = - 1 then (Inl (Runtime_error ''TelemetryEngine(): Unable to open new perf event''), k) else
      let (addr, k) = sys_mmap 4096 k in
      case addr of
        None \<Rightarrow> (Inl (Runtime_error ''TelemetryEngine(): Unable to create mapping''), sys_close fd k)
      | Some a \<Rightarrow> (Inr \<lparr>metadata = a, te_fd = fd\<rparr>, k))"

definition TelemetryEngine_destroy :: "TelemetryEngine \<Rightarrow> kernel \<Rightarrow> kernel" where
  "TelemetryEngine_destroy te k =
     (let k = (if te_fd te \<noteq> - 1 then sys_close (te_fd te) k else k)
      in if metadata te \<noteq> 0 then sys_munmap (metadata te) 4096 k else k)"

text \<open>
  \<open>index\<close> is the field of the mapped page. The assertion fails when the kernel has not given the event a
  counter. \<open>rdpmc\<close> reads a counter.
\<close>

definition read_pmc :: "bool \<Rightarrow> (u32 \<Rightarrow> u64) \<Rightarrow> u32 \<Rightarrow> u64 option" where
  "read_pmc hw rdpmc index =
     (if \<not> hw then Some 0 else if 0 < index then Some (rdpmc (index - 1)) else None)"

definition te_fds :: "TelemetryEngine \<Rightarrow> int multiset" where
  "te_fds te = (if te_fd te = - 1 then {#} else {#te_fd te#})"

definition te_maps :: "TelemetryEngine \<Rightarrow> nat set" where
  "te_maps te = (if metadata te = 0 then {} else {metadata te..<metadata te + 4096})"

lemma TelemetryEngine_cases:
  assumes "TelemetryEngine hw k = (r, k')"
  shows "(case r of
      Inl e \<Rightarrow> same_resources k k'
    | Inr te \<Rightarrow> mset (fds k') = te_fds te + mset (fds k) \<and> mapped k' = te_maps te \<union> mapped k \<and>
        te_maps te \<inter> mapped k = {} \<and> addrinfos k' = addrinfos k)"
proof -
  obtain fd k1 where o: "sys_fd k = (fd, k1)" by fastforce
  obtain a k2 where m: "sys_mmap 4096 k1 = (a, k2)" by fastforce
  note effects = sys_fd_effect [OF o] sys_mmap_effect [OF m]
  show ?thesis
    using assms effects unfolding TelemetryEngine_def o m Let_def prod.case
    by (auto simp: same_resources_def te_fds_def te_maps_def o m split: if_splits option.splits)
qed

interpretation engine: resource_owner "TelemetryEngine hw" TelemetryEngine_destroy te_fds te_maps
proof unfold_locales
  fix k k' :: kernel and x e
  show "TelemetryEngine hw k = (Inr x, k') \<Longrightarrow>
      mset (fds k') = te_fds x + mset (fds k) \<and> mapped k' = te_maps x \<union> mapped k \<and>
      te_maps x \<inter> mapped k = {} \<and> addrinfos k' = addrinfos k"
    using TelemetryEngine_cases [of hw k "Inr x" k'] by simp
  show "TelemetryEngine hw k = (Inl e, k') \<Longrightarrow> same_resources k k'"
    using TelemetryEngine_cases [of hw k "Inl e" k'] by simp
qed (auto simp: TelemetryEngine_destroy_def te_fds_def te_maps_def Let_def split: if_splits)

section \<open>The thread that writes the measurements\<close>

type_synonym sample = "u64 \<times> u64 \<times> u64"

text \<open>
  Before the loop of \<open>log_telemetry\<close> the thread is pinned to its core and the file is opened; without the file
  the thread ends, and measurements are never taken from the queue.
\<close>

definition log_telemetry_init :: "bool \<Rightarrow> bool \<Rightarrow> error + bool" where
  "log_telemetry_init pinned opened =
     (if \<not> pinned then Inl (Runtime_error ''Telemetry Logging Thread: Unable to pin thread to Core 6'')
      else if \<not> opened then Inr False else Inr True)"

text \<open>
  One round of \<open>log_telemetry\<close>: wait for the index of a buffer and append the buffer to the file. The
  waiting loop is the case in which the queue is empty.
\<close>

definition log_telemetry :: "u64 spsc \<Rightarrow> sample list list \<Rightarrow> sample list \<Rightarrow> (u64 spsc \<times> sample list) option" where
  "log_telemetry tel_queue bufs file = do {
     (buf_idx, tel_queue) \<leftarrow> pop tel_queue;
     (case buf_idx of
        None \<Rightarrow> Some (tel_queue, file)
      | Some i \<Rightarrow> do {
          buf \<leftarrow> arr_get bufs (unat i);
          Some (tel_queue, file @ buf)
        })
   }"

end
