(* ===== verification/Consumer.thy ===== *)
theory Consumer
  imports Telemetry Book_Safety
begin

text \<open>
  The thread of the order book, \<open>consume\<close> of \<^verbatim>\<open>src/main.cpp\<close>: it pops orders from the queue, applies them to
  the book, measures each of them, and hands a buffer of measurements to the logging thread when an order
  was slow.
\<close>

section \<open>The code\<close>

definition TELEMETRY_BUFFER_SIZE :: nat where
  "TELEMETRY_BUFFER_SIZE = 16384"

definition NUM_BUFFERS :: nat where
  "NUM_BUFFERS = 2"

definition l1d_miss_config :: u64 where
  "l1d_miss_config = 0 OR push_bit 8 0 OR push_bit 16 1"

text \<open>\<open>printed\<close> is the output of the correctness check: number, stock, shares and price of an added order.\<close>

record consumer =
  c_queue :: "NormalizedOrder spsc"
  c_book :: lob
  buffers :: "sample list list"
  telemetry_handoff_queue :: "u64 spsc"
  active_buf :: u64
  tel_idx :: u64
  add_count :: int
  printed :: "(u64 \<times> u8 list \<times> u32 \<times> u32) list"

text \<open>The six readings of the counters around one order.\<close>

record readings =
  start_l1d :: u64
  start_branches :: u64
  start_tsc :: u64
  end_tsc :: u64
  end_branches :: u64
  end_l1d :: u64

text \<open>
  The start of the thread. The two engines are local objects: when the second cannot be constructed
  the first is destroyed.
\<close>

definition consume_init ::
  "bool \<Rightarrow> bool \<Rightarrow> sample list list \<Rightarrow> u64 list \<Rightarrow> NormalizedOrder spsc \<Rightarrow> lob \<Rightarrow> kernel \<Rightarrow>
   (error + (TelemetryEngine \<times> TelemetryEngine \<times> consumer)) \<times> kernel" where
  "consume_init hw pinned garbage slots queue book k =
     (if \<not> pinned then (Inl (Runtime_error ''LOB Thread::consume(): Unable to pin LOB thread to Core 2''), k) else
      let (l1d, k) = TelemetryEngine hw k in
      case l1d of
        Inl e \<Rightarrow> (Inl e, k)
      | Inr l1d_te \<Rightarrow>
          let (branch, k) = TelemetryEngine hw k in
          case branch of
            Inl e \<Rightarrow> (Inl e, TelemetryEngine_destroy l1d_te k)
          | Inr branch_te \<Rightarrow>
              (Inr (l1d_te, branch_te, \<lparr>c_queue = queue, c_book = book, buffers = garbage,
                 telemetry_handoff_queue = SPSCQueue slots, active_buf = 0, tel_idx = 0, add_count = 0, printed = []\<rparr>), k))"

definition correctness_check :: "NormalizedOrder \<Rightarrow> consumer \<Rightarrow> consumer" where
  "correctness_check order c =
     (case order of
        AddOrder a \<Rightarrow>
          if add_count c < 10
          then c\<lparr>printed := printed c @ [(na_order_reference_number a, na_stock a, na_shares a, na_price a)],
                 add_count := add_count c + 1\<rparr>
          else c
      | _ \<Rightarrow> c)"

text \<open>Recording the measurements, and handing over the buffer after a slow order.\<close>

definition record_measurements :: "readings \<Rightarrow> consumer \<Rightarrow> consumer option" where
  "record_measurements r c = do {
     let tsc_delta = end_tsc r - start_tsc r;
     let l1d_delta = end_l1d r - start_l1d r;
     let branch_delta = end_branches r - start_branches r;
     buf \<leftarrow> arr_get (buffers c) (unat (active_buf c));
     buf \<leftarrow> arr_set buf (unat (tel_idx c)) (tsc_delta, l1d_delta, branch_delta);
     bufs \<leftarrow> arr_set (buffers c) (unat (active_buf c)) buf;
     let c = c\<lparr>buffers := bufs, tel_idx := (tel_idx c + 1) AND (of_nat TELEMETRY_BUFFER_SIZE - 1)\<rparr>;
     if l1d_delta > 1000 \<or> tsc_delta > 5000 then do {
       (pushed, q) \<leftarrow> push (telemetry_handoff_queue c) (active_buf c);
       Some (c\<lparr>telemetry_handoff_queue := q, active_buf := 1 - active_buf c, tel_idx := 0\<rparr>)
     } else Some c
   }"

text \<open>One round of the loop; an empty queue is waited for.\<close>

definition consume_step :: "readings \<Rightarrow> consumer \<Rightarrow> ((error + unit) \<times> consumer) option" where
  "consume_step r c = do {
     (popped, q) \<leftarrow> pop (c_queue c);
     let c = c\<lparr>c_queue := q\<rparr>;
     (case popped of
        None \<Rightarrow> Some (Inr (), c)
      | Some order \<Rightarrow> do {
          let c = correctness_check order c;
          (res, book) \<leftarrow> dispatch (c_book c) order;
          let c = c\<lparr>c_book := book\<rparr>;
          (case res of
             Inl e \<Rightarrow> Some (Inl e, c)
           | Inr _ \<Rightarrow> do { c \<leftarrow> record_measurements r c; Some (Inr (), c) })
        })
   }"

fun consume :: "readings list \<Rightarrow> consumer \<Rightarrow> ((error + unit) \<times> consumer) option" where
  "consume [] c = Some (Inr (), c)"
| "consume (r # rs) c = do {
     (res, c) \<leftarrow> consume_step r c;
     (case res of Inl e \<Rightarrow> Some (Inl e, c) | Inr _ \<Rightarrow> consume rs c)
   }"

section \<open>The invariant\<close>

definition telemetry_inv :: "consumer \<Rightarrow> bool" where
  "telemetry_inv c \<longleftrightarrow> length (buffers c) = NUM_BUFFERS \<and> (\<forall>b\<in>set (buffers c). length b = TELEMETRY_BUFFER_SIZE) \<and>
     spsc_inv (telemetry_handoff_queue c) \<and> active_buf c \<in> {0, 1} \<and> unat (tel_idx c) < TELEMETRY_BUFFER_SIZE \<and>
     set (q_list (telemetry_handoff_queue c)) \<subseteq> {0, 1}"

definition consumer_inv :: "consumer \<Rightarrow> bool" where
  "consumer_inv c \<longleftrightarrow> spsc_inv (c_queue c) \<and> book_inv (c_book c) \<and> telemetry_inv c \<and>
     add_count c = int (length (printed c)) \<and> add_count c \<le> 10"

lemma tel_idx_bound: "unat (((i :: u64) + 1) AND (of_nat TELEMETRY_BUFFER_SIZE - 1)) < TELEMETRY_BUFFER_SIZE"
proof -
  have m: "(of_nat TELEMETRY_BUFFER_SIZE - 1 :: u64) = mask 14" by (simp add: TELEMETRY_BUFFER_SIZE_def mask_eq_exp_minus_1)
  show ?thesis unfolding m unat_and_mask by (simp add: TELEMETRY_BUFFER_SIZE_def)
qed

lemma record_measurements_ok:
  assumes "telemetry_inv c"
  shows "\<exists>c'. record_measurements r c = Some c' \<and> telemetry_inv c' \<and> c_queue c' = c_queue c \<and> c_book c' = c_book c \<and>
    add_count c' = add_count c \<and> printed c' = printed c"
proof -
  note I = assms [unfolded telemetry_inv_def]
  let ?a = "unat (active_buf c)" and ?s = "(end_tsc r - start_tsc r, end_l1d r - start_l1d r, end_branches r - start_branches r)"
  have a: "?a < length (buffers c)" using I by (auto simp: NUM_BUFFERS_def)
  have b: "length (buffers c ! ?a) = TELEMETRY_BUFFER_SIZE" using I a by auto
  let ?bufs = "(buffers c)[?a := (buffers c ! ?a)[unat (tel_idx c) := ?s]]"
  let ?c = "c\<lparr>buffers := ?bufs, tel_idx := (tel_idx c + 1) AND (of_nat TELEMETRY_BUFFER_SIZE - 1)\<rparr>"
  have bufs: "length ?bufs = NUM_BUFFERS" "\<forall>x\<in>set ?bufs. length x = TELEMETRY_BUFFER_SIZE"
    using I b by (simp, auto dest!: set_update_subset_insert [THEN subsetD])
  have start: "record_measurements r c = (if end_l1d r - start_l1d r > 1000 \<or> end_tsc r - start_tsc r > 5000 then do {
       (pushed, q) \<leftarrow> push (telemetry_handoff_queue c) (active_buf c);
       Some (?c\<lparr>telemetry_handoff_queue := q, active_buf := 1 - active_buf c, tel_idx := 0\<rparr>)
     } else Some ?c)"
    using a b I by (simp add: record_measurements_def Let_def)
  obtain q where q: "push (telemetry_handoff_queue c) (active_buf c) =
      Some (length (q_list (telemetry_handoff_queue c)) < length (data (telemetry_handoff_queue c)) - 1, q)" "spsc_inv q"
    "q_list q = (if length (q_list (telemetry_handoff_queue c)) < length (data (telemetry_handoff_queue c)) - 1
       then q_list (telemetry_handoff_queue c) @ [active_buf c] else q_list (telemetry_handoff_queue c))"
    using push_spec [of "telemetry_handoff_queue c" "active_buf c"] I by blast
  have qs: "set (q_list q) \<subseteq> {0, 1}" using I q(3) by (auto split: if_splits)
  show ?thesis
    unfolding start using I q(1,2) qs bufs tel_idx_bound [of "tel_idx c"]
    by (auto simp: telemetry_inv_def TELEMETRY_BUFFER_SIZE_def simp del: unat_gt_0)
qed

lemma consume_step_ok:
  assumes inv: "consumer_inv c"
  shows "\<exists>res c'. consume_step r c = Some (res, c') \<and> consumer_inv c' \<and> (res = Inr () \<or> res = Inl Not_enough_shares) \<and>
    q_list (c_queue c') = tl (q_list (c_queue c)) \<and>
    (case q_list (c_queue c) of [] \<Rightarrow> res = Inr () \<and> c_book c' = c_book c
     | order # _ \<Rightarrow> dispatch (c_book c) order = Some (res, c_book c'))"
proof -
  note I = inv [unfolded consumer_inv_def]
  obtain q where q: "pop (c_queue c) = Some (if q_list (c_queue c) = [] then None else Some (hd (q_list (c_queue c))), q)"
    "spsc_inv q" "q_list q = tl (q_list (c_queue c))"
    using pop_spec [of "c_queue c"] I by blast
  show ?thesis
  proof (cases "q_list (c_queue c)")
    case Nil
    then show ?thesis using q I by (simp add: consume_step_def consumer_inv_def telemetry_inv_def)
  next
    case (Cons order rest)
    let ?c = "correctness_check order (c\<lparr>c_queue := q\<rparr>)"
    obtain res b where d: "dispatch (c_book c) order = Some (res, b)" "book_inv b" "res = Inr () \<or> res = Inl Not_enough_shares"
      using dispatch_inv [of "c_book c" order] I by blast
    have c: "consumer_inv (?c\<lparr>c_book := b\<rparr>)" "c_book ?c = c_book c" "c_queue ?c = q"
      using I q(2) d(2) by (auto simp: correctness_check_def consumer_inv_def telemetry_inv_def split: NormalizedOrder.split)
    obtain c' where c': "record_measurements r (?c\<lparr>c_book := b\<rparr>) = Some c'" "telemetry_inv c'" "c_queue c' = q" "c_book c' = b"
      "add_count c' = add_count ?c" "printed c' = printed ?c"
      using record_measurements_ok [of "?c\<lparr>c_book := b\<rparr>" r] c by (auto simp: consumer_inv_def)
    then have "consumer_inv c'" using c(1) q(2) by (simp add: consumer_inv_def)
    then show ?thesis
      using q Cons d c c' by (auto simp: consume_step_def Let_def simp del: dispatch.simps)
  qed
qed

text \<open>The thread starts with its invariant, whatever the buffers of the measurements hold.\<close>

lemma consume_init_inv:
  assumes "consume_init hw pinned garbage slots queue book k = (Inr (l1d_te, branch_te, c), k')"
    and "map length garbage = replicate NUM_BUFFERS TELEMETRY_BUFFER_SIZE" "length slots = 2" "spsc_inv queue" "book_inv book"
  shows "consumer_inv c" "c_queue c = queue" "c_book c = book"
proof -
  have c: "c = \<lparr>c_queue = queue, c_book = book, buffers = garbage, telemetry_handoff_queue = SPSCQueue slots,
      active_buf = 0, tel_idx = 0, add_count = 0, printed = []\<rparr>"
    using assms(1) by (auto simp: consume_init_def Let_def split: if_splits sum.splits prod.splits)
  have g: "length garbage = NUM_BUFFERS" "\<forall>b\<in>set garbage. length b = TELEMETRY_BUFFER_SIZE"
    using assms(2) by (metis length_map length_replicate, metis image_eqI in_set_replicate set_map)
  show "consumer_inv c"
    unfolding c using g spsc_inv_new [of slots 1] assms(3-5) by (simp add: consumer_inv_def telemetry_inv_def TELEMETRY_BUFFER_SIZE_def)
  show "c_queue c = queue" "c_book c = book" unfolding c by simp_all
qed

lemma consume_ok:
  assumes "consumer_inv c" "length rs = length (q_list (c_queue c))"
  shows "\<exists>res c'. consume rs c = Some (res, c') \<and> consumer_inv c' \<and>
    consume_orders (q_list (c_queue c)) (c_book c) = Some (res, c_book c') \<and> (res = Inr () \<longrightarrow> q_list (c_queue c') = [])"
  using assms
proof (induction rs arbitrary: c)
  case (Cons r rs)
  then obtain order rest where o: "q_list (c_queue c) = order # rest" by (cases "q_list (c_queue c)") auto
  obtain res c1 where s: "consume_step r c = Some (res, c1)" "consumer_inv c1" "q_list (c_queue c1) = rest"
    "dispatch (c_book c) order = Some (res, c_book c1)"
    using consume_step_ok [OF Cons.prems(1), of r] o by auto
  show ?case
  proof (cases res)
    case (Inr u)
    have "length rs = length (q_list (c_queue c1))" using Cons.prems(2) o s(3) by simp
    from Cons.IH [OF s(2) this] show ?thesis using o s Inr by (auto simp del: dispatch.simps)
  qed (use o s in \<open>auto simp del: dispatch.simps\<close>)
qed auto

lemma consume_safe:
  "consumer_inv c \<Longrightarrow> \<exists>res c'. consume rs c = Some (res, c') \<and> consumer_inv c' \<and> (res = Inr () \<or> res = Inl Not_enough_shares)"
proof (induction rs arbitrary: c)
  case (Cons r rs)
  obtain res c1 where s: "consume_step r c = Some (res, c1)" "consumer_inv c1" "res = Inr () \<or> res = Inl Not_enough_shares"
    using consume_step_ok [OF Cons.prems, of r] by blast
  then show ?case using Cons.IH [OF s(2)] by (cases res) auto
qed auto

text \<open>A slow order hands the active buffer over and makes the other one active.\<close>

lemma record_slow:
  assumes inv: "telemetry_inv c" and slow: "5000 < end_tsc r - start_tsc r"
  shows "\<exists>c'. record_measurements r c = Some c' \<and> telemetry_inv c' \<and> active_buf c' = 1 - active_buf c \<and>
    length (data (telemetry_handoff_queue c')) = length (data (telemetry_handoff_queue c)) \<and>
    q_list (telemetry_handoff_queue c') =
      (if length (q_list (telemetry_handoff_queue c)) < length (data (telemetry_handoff_queue c)) - 1
       then q_list (telemetry_handoff_queue c) @ [active_buf c] else q_list (telemetry_handoff_queue c))"
proof -
  obtain c' where c': "record_measurements r c = Some c'" "telemetry_inv c'"
    using record_measurements_ok [OF inv] by blast
  obtain q where q: "push (telemetry_handoff_queue c) (active_buf c) =
      Some (length (q_list (telemetry_handoff_queue c)) < length (data (telemetry_handoff_queue c)) - 1, q)"
    "length (data q) = length (data (telemetry_handoff_queue c))"
    "q_list q = (if length (q_list (telemetry_handoff_queue c)) < length (data (telemetry_handoff_queue c)) - 1
       then q_list (telemetry_handoff_queue c) @ [active_buf c] else q_list (telemetry_handoff_queue c))"
    using push_spec [of "telemetry_handoff_queue c" "active_buf c"] inv by (auto simp: telemetry_inv_def)
  show ?thesis
    using c' q slow by (auto simp: record_measurements_def Let_def bind_eq_Some_conv)
qed

section \<open>Properties\<close>

text \<open>
  The consuming thread applies exactly the queued orders, in order, to the book: with as many rounds as
  there are orders it ends with an empty queue and the book that results from these orders, or with the
  exception that the first failing order raises.
\<close>

lemma consumer_applies_queue:
  assumes "consumer_inv c" "length rs = length (q_list (c_queue c))"
  shows "\<exists>res c'. consume rs c = Some (res, c') \<and> consume_orders (q_list (c_queue c)) (c_book c) = Some (res, c_book c') \<and>
    (res = Inr () \<longrightarrow> q_list (c_queue c') = [])"
  using consume_ok [OF assms] by blast

text \<open>
  C25. However many rounds the thread runs and whatever the counters read, every
  access to the queue, the book, the two buffers of measurements and the hand-over queue stays in bounds,
  the index of the active buffer is 0 or 1, the position in it is below its size, and at most ten orders are
  printed; only an execution of too many shares raises an exception.
\<close>

theorem consumer_stays_in_bounds:
  assumes "consumer_inv c"
  shows "\<exists>res c'. consume rs c = Some (res, c') \<and> consumer_inv c' \<and> (res = Inr () \<or> res = Inl Not_enough_shares) \<and>
    active_buf c' \<in> {0, 1} \<and> unat (tel_idx c') < 16384 \<and> length (printed c') \<le> 10"
  using consume_safe [OF assms, of rs]
  by (auto simp: consumer_inv_def telemetry_inv_def TELEMETRY_BUFFER_SIZE_def)

text \<open>
  C35. When two orders in a row are slow and the logging thread has not taken the first buffer yet, the
  second buffer is not handed over but dropped, and the buffer that becomes active again is the one the
  logging thread was handed: the next measurements overwrite it while it waits to be written.
\<close>

theorem slow_orders_reuse_handed_buffer:
  assumes "telemetry_inv c" "length (data (telemetry_handoff_queue c)) = 2" "q_list (telemetry_handoff_queue c) = []"
    and "5000 < end_tsc r1 - start_tsc r1" "5000 < end_tsc r2 - start_tsc r2"
  shows "\<exists>c1 c2. record_measurements r1 c = Some c1 \<and> record_measurements r2 c1 = Some c2 \<and>
    q_list (telemetry_handoff_queue c2) = [active_buf c2]"
proof -
  obtain c1 where c1: "record_measurements r1 c = Some c1" "telemetry_inv c1" "active_buf c1 = 1 - active_buf c"
    "length (data (telemetry_handoff_queue c1)) = 2" "q_list (telemetry_handoff_queue c1) = [active_buf c]"
    using record_slow [OF assms(1,4)] assms(2,3) by auto
  obtain c2 where c2: "record_measurements r2 c1 = Some c2" "active_buf c2 = 1 - active_buf c1"
    "q_list (telemetry_handoff_queue c2) = [active_buf c]"
    using record_slow [OF c1(2) assms(5)] c1(4,5) by auto
  have "1 - (1 - active_buf c) = active_buf c" by simp
  then show ?thesis using c1 c2 by auto
qed

text \<open>A consumer with an empty queue of two slots.\<close>

definition idle_consumer :: "lob \<Rightarrow> consumer" where
  "idle_consumer book = \<lparr>c_queue = SPSCQueue (replicate 2 (AddOrder sample_add)), c_book = book,
     buffers = replicate 2 (replicate TELEMETRY_BUFFER_SIZE (0, 0, 0)), telemetry_handoff_queue = SPSCQueue [0, 0],
     active_buf = 0, tel_idx = 0, add_count = 0, printed = []\<rparr>"

definition slow_reading :: readings where
  "slow_reading = \<lparr>start_l1d = 0, start_branches = 0, start_tsc = 100, end_tsc = 9000, end_branches = 0, end_l1d = 0\<rparr>"

lemma idle_consumer_inv:
  assumes "book_inv book"
  shows "consumer_inv (idle_consumer book)" "telemetry_inv (idle_consumer book)"
    "q_list (c_queue (idle_consumer book)) = []" "q_list (telemetry_handoff_queue (idle_consumer book)) = []"
proof -
  have q: "spsc_inv (SPSCQueue (replicate 2 (AddOrder sample_add)))" "q_list (SPSCQueue (replicate 2 (AddOrder sample_add))) = []"
    "spsc_inv (SPSCQueue [0, 0 :: u64])" "q_list (SPSCQueue [0, 0 :: u64]) = []"
    using spsc_inv_new [of "replicate 2 (AddOrder sample_add)" 1] spsc_inv_new [of "[0, 0 :: u64]" 1] by simp_all
  show "telemetry_inv (idle_consumer book)"
    using q(3,4) by (simp add: telemetry_inv_def idle_consumer_def TELEMETRY_BUFFER_SIZE_def NUM_BUFFERS_def)
  then show "consumer_inv (idle_consumer book)" using q assms by (simp add: consumer_inv_def idle_consumer_def)
  show "q_list (c_queue (idle_consumer book)) = []" "q_list (telemetry_handoff_queue (idle_consumer book)) = []"
    using q by (simp_all add: idle_consumer_def)
qed

text \<open>The consumer with one order in its queue.\<close>

lemma one_order_consumer:
  assumes "book_inv book"
  obtains q where "push (c_queue (idle_consumer book)) (AddOrder sample_add) = Some (True, q)"
    "consumer_inv ((idle_consumer book)\<lparr>c_queue := q\<rparr>)" "q_list q = [AddOrder sample_add]"
proof -
  note idle = idle_consumer_inv [OF assms]
  have len: "length (data (c_queue (idle_consumer book))) = 2" by (simp add: idle_consumer_def SPSCQueue_def)
  obtain q where "push (c_queue (idle_consumer book)) (AddOrder sample_add) = Some (True, q)" "spsc_inv q"
    "q_list q = [AddOrder sample_add]"
    using push_spec [of "c_queue (idle_consumer book)" "AddOrder sample_add"] idle len by (auto simp: consumer_inv_def)
  then show ?thesis using that idle(1,2) by (auto simp: consumer_inv_def telemetry_inv_def)
qed

lemma consumer_applies_queue_example:
  "\<exists>s q res c'. LimitOrderBook 64 4 True True (2 ^ 12) 4 = Some (Inr s) \<and>
    push (c_queue (idle_consumer s)) (AddOrder sample_add) = Some (True, q) \<and>
    consume [slow_reading] ((idle_consumer s)\<lparr>c_queue := q\<rparr>) = Some (res, c') \<and>
    consume_orders [AddOrder sample_add] s = Some (res, c_book c')"
proof -
  obtain s where s: "LimitOrderBook 64 4 True True (2 ^ 12) 4 = Some (Inr s)" "book_inv s" by (rule small_book)
  obtain q where q: "push (c_queue (idle_consumer s)) (AddOrder sample_add) = Some (True, q)"
    "consumer_inv ((idle_consumer s)\<lparr>c_queue := q\<rparr>)" "q_list q = [AddOrder sample_add]"
    by (rule one_order_consumer [OF s(2)])
  have "length [slow_reading] = length (q_list (c_queue ((idle_consumer s)\<lparr>c_queue := q\<rparr>)))" using q(3) by simp
  from consumer_applies_queue [OF q(2) this] obtain res c' where
    "consume [slow_reading] ((idle_consumer s)\<lparr>c_queue := q\<rparr>) = Some (res, c')"
    "consume_orders [AddOrder sample_add] s = Some (res, c_book c')"
    using q(3) by (auto simp: idle_consumer_def simp del: consume.simps consume_orders.simps)
  then show ?thesis using s(1) q(1) by blast
qed

theorem consumer_stays_in_bounds_witness:
  "\<exists>s res c'. LimitOrderBook 64 4 True True (2 ^ 12) 4 = Some (Inr s) \<and>
    consume (replicate 20000 slow_reading) (idle_consumer s) = Some (res, c') \<and> unat (tel_idx c') < 16384"
proof -
  obtain s where s: "LimitOrderBook 64 4 True True (2 ^ 12) 4 = Some (Inr s)" "book_inv s" by (rule small_book)
  show ?thesis
    using consumer_stays_in_bounds [OF idle_consumer_inv(1) [OF s(2)], of "replicate 20000 slow_reading"] s(1) by blast
qed

theorem slow_orders_reuse_handed_buffer_witness:
  "\<exists>s c1 c2. LimitOrderBook 64 4 True True (2 ^ 12) 4 = Some (Inr s) \<and>
    record_measurements slow_reading (idle_consumer s) = Some c1 \<and> record_measurements slow_reading c1 = Some c2 \<and>
    q_list (telemetry_handoff_queue c2) = [active_buf c2]"
proof -
  obtain s where s: "LimitOrderBook 64 4 True True (2 ^ 12) 4 = Some (Inr s)" "book_inv s" by (rule small_book)
  have "length (data (telemetry_handoff_queue (idle_consumer s))) = 2" by (simp add: idle_consumer_def SPSCQueue_def)
  moreover have "5000 < end_tsc slow_reading - start_tsc slow_reading" by (simp add: slow_reading_def)
  ultimately show ?thesis
    using slow_orders_reuse_handed_buffer [OF idle_consumer_inv(2) [OF s(2)] _ idle_consumer_inv(4) [OF s(2)]] s(1) by blast
qed

text \<open>A kernel that opens descriptor 3 and grants two mappings.\<close>

definition granting_two :: kernel where
  "granting_two = \<lparr>fds = [], mapped = {}, addrinfos = 0, errno = 0,
     replies = \<lambda>n. if n = 1 then Ret 4095 else if n = 3 then Ret 8191 else Ret 3, calls = 0\<rparr>"

text \<open>
  If the thread cannot be started, because it cannot be pinned or because one of the two hardware counters cannot
  be opened, the files and mappings of the process are as before; otherwise they are as before once the
  two counters are destroyed.
\<close>

lemma consume_init_keeps_resources:
  assumes "consume_init hw pinned garbage slots queue book k = (r, k')"
  shows "case r of Inl e \<Rightarrow> same_resources k k'
    | Inr (l1d_te, branch_te, c) \<Rightarrow> same_resources k (TelemetryEngine_destroy l1d_te (TelemetryEngine_destroy branch_te k'))"
proof -
  obtain r1 k1 where one: "TelemetryEngine hw k = (r1, k1)" by fastforce
  obtain r2 k2 where two: "TelemetryEngine hw k1 = (r2, k2)" by fastforce
  have all: "engine.create_all hw 2 [] k = (case r1 of Inl e \<Rightarrow> (Inl e, k1)
      | Inr x \<Rightarrow> (case r2 of Inl e \<Rightarrow> (Inl e, TelemetryEngine_destroy x k2) | Inr y \<Rightarrow> (Inr [y, x], k2)))"
    by (simp add: numeral_2_eq_2 one two split: sum.split)
  show ?thesis
    using assms engine.no_leak [of hw 2 k] all one two
    by (auto simp: consume_init_def Let_def split: if_splits sum.splits)
qed

lemma consume_init_example:
  "\<exists>a b c k'. consume_init True True [] [] (SPSCQueue []) undefined granting_two = (Inr (a, b, c), k') \<and>
     mset (fds k') = {#3, 3#} \<and> same_resources granting_two (TelemetryEngine_destroy a (TelemetryEngine_destroy b k'))"
proof -
  obtain r k' where r: "consume_init True True [] [] (SPSCQueue []) undefined granting_two = (r, k')" by fastforce
  then obtain a b c where abc: "r = Inr (a, b, c)" "mset (fds k') = {#3, 3#}"
    by (auto simp: consume_init_def TelemetryEngine_def granting_two_def kernel_calls)
  then show ?thesis using consume_init_keeps_resources [OF r] r by auto
qed

end
