(* ===== verification/Feed_Pipeline.thy ===== *)
theory Feed_Pipeline
  imports Network_Ring Recovery Consumer "HOL-Library.Sublist"
begin

text \<open>
  The threads of \<^verbatim>\<open>run_mock_mode\<close> of \<^verbatim>\<open>src/main.cpp\<close> together: the replay of the file, the poller that calls \<open>parse_block\<close> of
  \<^verbatim>\<open>src/protocol/ItchParser.h\<close>, the thread of the order book behind the queue, and the statistics.
\<close>

section \<open>The parser as the handler of the ring\<close>

text \<open>The handler returns when the parser does; \<open>fuel\<close> bounds its rounds.\<close>

definition itch_handler :: "nat \<Rightarrow> (u64 \<Rightarrow> u64) \<Rightarrow> u8 list \<Rightarrow> nat \<Rightarrow> int \<Rightarrow> ItchParser \<Rightarrow> ItchParser option" where
  "itch_handler fuel tsc mem ptr len p = (case parse_block fuel tsc mem ptr len p of Returns p \<Rightarrow> Some p | _ \<Rightarrow> None)"

text \<open>
  The packets carry the messages \<open>groups\<close>, some in each. After \<open>n\<close> packets the log holds a frame for each message so far, numbered from
  0, and has room for the rest.
\<close>

definition itch_logged :: "nat \<Rightarrow> (u64 \<Rightarrow> u64) \<Rightarrow> nat \<Rightarrow> u8 list list list \<Rightarrow> nat \<Rightarrow> ItchParser \<Rightarrow> bool" where
  "itch_logged fuel tsc cap groups n p \<longleftrightarrow>
     list_all (\<lambda>ms. length ms < fuel \<and> list_all msg_ok ms \<and> list_all (\<lambda>m. length m \<le> 48) ms) groups \<and>
     64 * (length (concat groups) + 1) \<le> FILE_SIZE \<and>
     length (q_list (ip_queue p)) \<le> cap \<and> ip_seq p = of_nat (length (concat (take n groups))) \<and>
     parser_rel p (frames_for tsc 0 (concat (take n groups))) [] (q_list (ip_queue p)) cap"

lemma frames_for_append: "frames_for tsc seq (xs @ ys) = frames_for tsc seq xs @ frames_for tsc (seq + of_nat (length xs)) ys"
  by (induction xs arbitrary: seq) (simp_all add: ac_simps)

lemma length_concat_take: "length (concat (take n xss)) \<le> length (concat xss)"
  using append_take_drop_id [of n xss] by (metis concat_append length_append le_add1)

lemma itch_handler_ok:
  assumes g: "itch_logged fuel tsc cap groups n p" and n: "n < length groups"
  obtains p' where "itch_handler fuel tsc (pre @ concat (groups ! n) @ post) (length pre) (int (length (concat (groups ! n)))) p = Some p'"
    "itch_logged fuel tsc cap groups (Suc n) p'" "q_list (ip_queue p') = take cap (q_list (ip_queue p) @ concat (map msg_orders (groups ! n)))"
proof -
  let ?ms = "groups ! n" and ?fs = "frames_for tsc 0 (concat (take n groups))" and ?q = "q_list (ip_queue p)"
  have m: "length ?ms < fuel" "list_all msg_ok ?ms" "list_all (\<lambda>m. length m \<le> 48) ?ms"
    using g n by (auto simp: itch_logged_def list_all_length)
  have t: "concat (take (Suc n) groups) = concat (take n groups) @ ?ms" by (simp add: take_Suc_conv_app_nth [OF n])
  have rel: "parser_rel p ?fs [] ?q cap" and seq: "ip_seq p = of_nat (length (concat (take n groups)))" and os: "length ?q \<le> cap"
    using g by (simp_all add: itch_logged_def)
  have room: "64 * (length ?fs + length ?ms + 1) \<le> FILE_SIZE"
    using g length_concat_take [of "Suc n" groups] unfolding t by (simp add: itch_logged_def)
  have l: "int (length (concat ?ms)) \<le> int (length (concat ?ms))" by simp
  obtain p' where p': "parser_rel p' (?fs @ frames_for tsc (ip_seq p) ?ms) (if ?ms = [] then [] else drop 48 (last ?ms))
      (take cap (?q @ concat (map msg_orders ?ms))) cap" "ip_seq p' = ip_seq p + of_nat (length ?ms)"
    "\<And>fuel. parse_block (length ?ms + fuel) tsc (pre @ concat ?ms @ post) (length pre) (int (length (concat ?ms))) p =
       parse_block fuel tsc (pre @ concat ?ms @ post) (length pre + length (concat ?ms)) 0 p'"
    using parse_block_messages [OF rel os m(2) room refl l, where pre = pre and post = post and tsc = tsc] by auto
  obtain f where f: "fuel = length ?ms + Suc f" using m(1) less_iff_Suc_add by auto
  have "parse_block (Suc f) tsc ((pre @ concat ?ms) @ [] @ post) (length (pre @ concat ?ms)) (int (length ([] :: u8 list))) p' = Returns p'"
    by (rule parse_block_stops) simp_all
  then have "parse_block fuel tsc (pre @ concat ?ms @ post) (length pre) (int (length (concat ?ms))) p = Returns p'"
    using p'(3) [of "Suc f"] f by simp
  moreover have q: "q_list (ip_queue p') = take cap (?q @ concat (map msg_orders ?ms))" using p'(1) by (simp add: parser_rel_def)
  moreover have "(if ?ms = [] then [] else drop 48 (last ?ms)) = []" using m(3) by (auto simp: list_all_iff)
  then have "itch_logged fuel tsc cap groups (Suc n) p'"
    using g p'(1,2) seq q unfolding itch_logged_def t by (auto simp: frames_for_append min_def)
  ultimately show ?thesis by (intro that) (simp_all add: itch_handler_def)
qed

section \<open>The thread of the book behind the queue\<close>

text \<open>
  What the threads share, and what belongs to the thread of the book. The queue is the parser's; \<open>pl_error\<close> is the exception that
  ended the thread of the book, and with it the program; \<open>pl_full\<close> is a ghost: whether the queue was ever full after a packet.
\<close>

record pipeline =
  pl_parser :: ItchParser
  pl_consumer :: consumer
  pl_error :: "error option"
  pl_full :: bool

definition start_pipeline :: "ItchParser \<Rightarrow> consumer \<Rightarrow> pipeline" where
  "start_pipeline p c = \<lparr>pl_parser = p, pl_consumer = c, pl_error = None, pl_full = False\<rparr>"

definition queue_full :: "'a spsc \<Rightarrow> bool" where
  "queue_full q \<longleftrightarrow> length (q_list q) = length (data q) - 1"

definition feed_handler :: "nat \<Rightarrow> (u64 \<Rightarrow> u64) \<Rightarrow> u8 list \<Rightarrow> nat \<Rightarrow> int \<Rightarrow> pipeline \<Rightarrow> pipeline option" where
  "feed_handler fuel tsc mem ptr len h = do {
     p \<leftarrow> itch_handler fuel tsc mem ptr len (pl_parser h);
     Some (h\<lparr>pl_parser := p, pl_full := pl_full h \<or> queue_full (ip_queue p)\<rparr>)
   }"

definition shared_consumer :: "pipeline \<Rightarrow> consumer" where
  "shared_consumer h = (pl_consumer h)\<lparr>c_queue := ip_queue (pl_parser h)\<rparr>"

definition book_round :: "readings \<Rightarrow> pipeline \<Rightarrow> pipeline option" where
  "book_round r h = do {
     (res, c) \<leftarrow> consume_step r (shared_consumer h);
     Some (h\<lparr>pl_parser := (pl_parser h)\<lparr>ip_queue := c_queue c\<rparr>, pl_consumer := c,
       pl_error := (case res of Inl e \<Rightarrow> Some e | Inr _ \<Rightarrow> None)\<rparr>)
   }"

definition book_turn :: "pipeline \<Rightarrow> pipeline \<Rightarrow> bool" where
  "book_turn h h' \<longleftrightarrow> pl_error h = None \<and> (\<exists>r. book_round r h = Some h')"

text \<open>A step of any of the threads; an exception that leaves the thread of the book ends all of them.\<close>

inductive mock_step :: "nat \<Rightarrow> (u64 \<Rightarrow> u64) \<Rightarrow> pipeline ring_machine \<times> u64 list \<Rightarrow> pipeline ring_machine \<times> u64 list \<Rightarrow> bool"
  for fuel tsc where
  Thread: "pl_error (rm_handler (fst x)) = None \<Longrightarrow> shared_step (feed_handler fuel tsc) book_turn x x' \<Longrightarrow> mock_step fuel tsc x x'"

inductive_cases mock_stepE [elim]: "mock_step fuel tsc x x'"

lemma mock_steps_shared: "(mock_step fuel tsc)\<^sup>*\<^sup>* x x' \<Longrightarrow> (shared_step (feed_handler fuel tsc) book_turn)\<^sup>*\<^sup>* x x'"
  by (erule mono_rtranclp [rule_format, rotated]) auto

section \<open>The invariant of the threads\<close>

lemma consume_orders_append:
  "consume_orders (xs @ ys) s = do {
     (res, s) \<leftarrow> consume_orders xs s;
     case res of Inl e \<Rightarrow> Some (Inl e, s) | Inr _ \<Rightarrow> consume_orders ys s }"
  by (induction xs arbitrary: s) (auto simp: split: bind_splits sum.splits simp del: dispatch.simps)

text \<open>
  The orders that reached the queue are the ones done and the ones still waiting. They are orders of the messages so far, in their
  order, and all of them when the queue was never full; it cannot be full before as many messages as it has room for.
\<close>

definition pipe_good :: "nat \<Rightarrow> (u64 \<Rightarrow> u64) \<Rightarrow> nat \<Rightarrow> lob \<Rightarrow> u8 list list list \<Rightarrow> u8 list list \<Rightarrow> nat \<Rightarrow> pipeline \<Rightarrow> bool" where
  "pipe_good fuel tsc cap book groups ms n h \<longleftrightarrow> ms = map concat groups \<and>
     itch_logged fuel tsc cap groups n (pl_parser h) \<and> consumer_inv (shared_consumer h) \<and>
     (length (concat (take n groups)) < cap \<longrightarrow> \<not> pl_full h) \<and>
     (\<exists>finished. let orders = concat (map msg_orders (concat (take n groups))); queued = finished @ q_list (ip_queue (pl_parser h)) in
        consume_orders finished book = Some (case pl_error h of None \<Rightarrow> Inr () | Some e \<Rightarrow> Inl e, c_book (pl_consumer h)) \<and>
        subseq queued orders \<and> (\<not> pl_full h \<longrightarrow> queued = orders))"

lemma length_concat_orders: "length (concat (map msg_orders ms)) \<le> length ms"
proof (induction ms)
  case (Cons m ms)
  have "length (msg_orders m) \<le> 1" by (simp add: msg_orders_def split: option.split)
  then show ?case using Cons by simp
qed simp

lemma feed_handler_good:
  assumes g: "pipe_good fuel tsc cap book groups ms n h" and n: "n < length ms"
  shows "\<exists>h'. feed_handler fuel tsc (pre @ ms ! n @ post) (length pre) (int (length (ms ! n))) h = Some h' \<and>
    pipe_good fuel tsc cap book groups ms (Suc n) h'"
proof -
  let ?q = "q_list (ip_queue (pl_parser h))" and ?os = "concat (map msg_orders (groups ! n))"
  let ?orders = "concat (map msg_orders (concat (take n groups)))"
  have lg: "itch_logged fuel tsc cap groups n (pl_parser h)" and c: "consumer_inv (shared_consumer h)" and ms: "ms = map concat groups"
    using g by (simp_all add: pipe_good_def)
  have n': "n < length groups" "ms ! n = concat (groups ! n)" using n ms by simp_all
  obtain fin where fin: "consume_orders fin book = Some (case pl_error h of None \<Rightarrow> Inr () | Some e \<Rightarrow> Inl e, c_book (pl_consumer h))"
    "subseq (fin @ ?q) ?orders" "\<not> pl_full h \<Longrightarrow> fin @ ?q = ?orders"
    using g by (auto simp: pipe_good_def Let_def)
  obtain p' where p': "itch_handler fuel tsc (pre @ ms ! n @ post) (length pre) (int (length (ms ! n))) (pl_parser h) = Some p'"
    "itch_logged fuel tsc cap groups (Suc n) p'" "q_list (ip_queue p') = take cap (?q @ ?os)"
    unfolding n'(2) by (rule itch_handler_ok [OF lg n'(1)])
  let ?h = "h\<lparr>pl_parser := p', pl_full := pl_full h \<or> queue_full (ip_queue p')\<rparr>"
  have t: "concat (map msg_orders (concat (take (Suc n) groups))) = ?orders @ ?os"
    "length (concat (take (Suc n) groups)) = length (concat (take n groups)) + length (groups ! n)"
    by (simp_all add: take_Suc_conv_app_nth [OF n'(1)])
  have cap: "length (data (ip_queue p')) - 1 = cap" using p'(2) by (simp add: itch_logged_def parser_rel_def)
  have "subseq (fin @ take cap (?q @ ?os)) (fin @ ?q @ ?os)" by (intro list_emb_append_mono subseq_order.refl) (rule take_is_prefix [THEN prefix_imp_subseq])
  also have "subseq (fin @ ?q @ ?os) (?orders @ ?os)" using list_emb_append_mono [OF fin(2) subseq_order.refl [of ?os]] by simp
  finally have sub: "subseq (fin @ take cap (?q @ ?os)) (?orders @ ?os)" .
  have all: "fin @ take cap (?q @ ?os) = ?orders @ ?os" if "\<not> pl_full ?h"
    using that fin(3) p'(3) cap by (auto simp: queue_full_def min_def split: if_splits)
  have "spsc_inv (ip_queue p')" using p'(2) by (simp add: itch_logged_def parser_rel_def)
  then have "consumer_inv (shared_consumer ?h)" using c by (simp add: consumer_inv_def shared_consumer_def telemetry_inv_def)
  moreover have "length (concat (take (Suc n) groups)) < cap \<longrightarrow> \<not> pl_full ?h"
    using g list_emb_length [OF fin(2)] length_concat_orders [of "concat (take n groups)"] length_concat_orders [of "groups ! n"] cap p'(3) t(2)
    by (auto simp: pipe_good_def queue_full_def)
  ultimately have "pipe_good fuel tsc cap book groups ms (Suc n) ?h"
    unfolding pipe_good_def Let_def t(1) using p'(2,3) fin(1) sub all ms by (intro conjI exI [of _ fin]) simp_all
  then show ?thesis using p'(1) by (simp add: feed_handler_def)
qed

lemma consume_step_queue:
  assumes "consume_step r c = Some (res, c')" "consumer_inv c"
  shows "length (data (c_queue c')) = length (data (c_queue c))" "spsc_inv (c_queue c')"
    "q_list (c_queue c') = tl (q_list (c_queue c))"
proof -
  obtain x q where q: "pop (c_queue c) = Some (x, q)" "spsc_inv q" "length (data q) = length (data (c_queue c))"
    "q_list q = tl (q_list (c_queue c))"
    using pop_spec [of "c_queue c"] assms(2) by (auto simp: consumer_inv_def)
  have "c_queue c' = q"
    using assms(1) q(1)
    by (auto simp: consume_step_def correctness_check_def record_measurements_def Let_def
        split: bind_splits option.splits sum.splits NormalizedOrder.splits if_splits simp del: dispatch.simps)
  then show "length (data (c_queue c')) = length (data (c_queue c))" "spsc_inv (c_queue c')"
    "q_list (c_queue c') = tl (q_list (c_queue c))" using q by simp_all
qed

lemma book_turn_good:
  assumes g: "pipe_good fuel tsc cap book groups ms n h" and b: "book_turn h h'"
  shows "pipe_good fuel tsc cap book groups ms n h'"
proof -
  let ?c = "shared_consumer h" and ?q = "q_list (ip_queue (pl_parser h))"
  have lg: "itch_logged fuel tsc cap groups n (pl_parser h)" and c: "consumer_inv ?c" using g by (simp_all add: pipe_good_def)
  obtain r where r: "pl_error h = None" "book_round r h = Some h'" using b by (auto simp: book_turn_def)
  obtain fin where fin: "consume_orders fin book = Some (Inr (), c_book (pl_consumer h))"
    "subseq (fin @ ?q) (concat (map msg_orders (concat (take n groups))))" "\<not> pl_full h \<Longrightarrow> fin @ ?q = concat (map msg_orders (concat (take n groups)))"
    using g r(1) by (auto simp: pipe_good_def Let_def)
  obtain res c' where s: "consume_step r ?c = Some (res, c')" "consumer_inv c'"
    "case q_list (c_queue ?c) of [] \<Rightarrow> res = Inr () \<and> c_book c' = c_book ?c | order # _ \<Rightarrow> dispatch (c_book ?c) order = Some (res, c_book c')"
    using consume_step_ok [OF c, of r] by blast
  note q = consume_step_queue [OF s(1) c]
  have h': "h' = h\<lparr>pl_parser := (pl_parser h)\<lparr>ip_queue := c_queue c'\<rparr>, pl_consumer := c',
      pl_error := (case res of Inl e \<Rightarrow> Some e | Inr _ \<Rightarrow> None)\<rparr>"
    using r(2) s(1) by (simp add: book_round_def)
  have "itch_logged fuel tsc cap groups n (pl_parser h')"
    using lg q unfolding h' by (auto simp: itch_logged_def parser_rel_def shared_consumer_def)
  moreover have "shared_consumer h' = c'" by (simp add: h' shared_consumer_def)
  moreover have "consume_orders (fin @ take 1 ?q) book = Some (case pl_error h' of None \<Rightarrow> Inr () | Some e \<Rightarrow> Inl e, c_book c')"
    using s(3) fin(1) by (auto simp: h' shared_consumer_def consume_orders_append split: list.splits sum.splits simp del: dispatch.simps)
  moreover have "(fin @ take 1 ?q) @ q_list (c_queue c') = fin @ ?q" using q(3) by (cases ?q) (simp_all add: shared_consumer_def)
  ultimately show ?thesis
    unfolding pipe_good_def Let_def using fin(2,3) s(2) g [unfolded pipe_good_def]
    by (intro conjI exI [of _ "fin @ take 1 ?q"]) (simp_all add: h')
qed

interpretation threads: shared_handler "feed_handler fuel tsc" "pipe_good fuel tsc cap book groups" book_turn
  by unfold_locales (fact feed_handler_good, fact book_turn_good)

section \<open>The messages of a file\<close>

text \<open>
  A file as the exchange distributes it: encoded orders, and messages of other types, which the parser logs and skips. Messages that
  are longer than the payload of a log frame are left out.
\<close>

datatype feed_message = Order_message NormalizedOrder | Other_message "u8 list"

fun feed_bytes :: "feed_message \<Rightarrow> u8 list" where
  "feed_bytes (Order_message msg) = wire_order msg"
| "feed_bytes (Other_message bs) = bs"

fun feed_orders :: "feed_message \<Rightarrow> NormalizedOrder list" where
  "feed_orders (Order_message msg) = [normalized msg]"
| "feed_orders (Other_message bs) = []"

fun feed_ok :: "feed_message \<Rightarrow> bool" where
  "feed_ok (Order_message msg) \<longleftrightarrow> wire_ok msg"
| "feed_ok (Other_message bs) \<longleftrightarrow> msg_ok bs \<and> length bs \<le> 48 \<and> hd bs \<notin> {0x41, 0x45, 0x58}"

definition feed_file :: "feed_message list \<Rightarrow> u8 list" where
  "feed_file fs = concat (map (file_record \<circ> feed_bytes) fs)"

lemma feed_message:
  assumes "feed_ok f"
  shows "msg_ok (feed_bytes f) \<and> length (feed_bytes f) \<le> 48 \<and> frame_fits (feed_bytes f) \<and> msg_orders (feed_bytes f) = feed_orders f"
proof (cases f)
  case (Order_message msg)
  then have ok: "wire_ok msg" using assms by simp
  have "length (wire_order msg) \<le> 36" using length_wire_order [OF ok] by (cases msg) simp_all
  then show ?thesis using Order_message wire_message(2,3) [OF ok] by (simp add: frame_fits_def)
next
  case (Other_message bs)
  then show ?thesis using assms by (simp add: frame_fits_def msg_orders_def parse_order_def)
qed

lemma feed_messages:
  assumes "list_all feed_ok fs"
  shows "list_all msg_ok (map feed_bytes fs)" "list_all (\<lambda>m. length m \<le> 48) (map feed_bytes fs)" "list_all frame_fits (map feed_bytes fs)"
    "concat (map msg_orders (map feed_bytes fs)) = concat (map feed_orders fs)"
  using assms feed_message by (induction fs) simp_all

lemma feed_file_messages: "list_all feed_ok fs \<Longrightarrow> file_messages (feed_file fs) = map feed_bytes fs"
  unfolding feed_file_def map_map [symmetric] by (intro file_messages_records feed_messages(3))

text \<open>The start with packets of messages, one in each packet in mock mode.\<close>

lemma feed_start:
  assumes "list_all (\<lambda>fs. list_all feed_ok fs \<and> length fs < fuel) fss" "64 * (length (concat fss) + 1) \<le> FILE_SIZE"
    and "parser_rel p [] [] [] cap" "ip_seq p = 0" "consumer_inv c" "0 < cap"
  shows "pipe_good fuel tsc cap (c_book c) (map (map feed_bytes) fss) (map (concat \<circ> map feed_bytes) fss) 0 (start_pipeline p c)"
proof -
  have "consumer_inv (shared_consumer (start_pipeline p c))"
    using assms(3,5) by (simp add: start_pipeline_def shared_consumer_def consumer_inv_def telemetry_inv_def parser_rel_def)
  moreover have "list_all (\<lambda>ms. length ms < fuel \<and> list_all msg_ok ms \<and> list_all (\<lambda>m. length m \<le> 48) ms) (map (map feed_bytes) fss)"
    using assms(1) feed_messages(1,2) by (auto simp: list_all_iff)
  moreover have "length (concat (map (map feed_bytes) fss)) = length (concat fss)" by (simp add: map_concat [symmetric])
  ultimately show ?thesis
    using assms(2-6) by (auto simp: pipe_good_def itch_logged_def start_pipeline_def parser_rel_def intro!: exI [of _ "[]"])
qed

lemma feed_orders_taken:
  assumes "list_all (\<lambda>fs. list_all feed_ok fs \<and> length fs < fuel) fss"
  shows "concat (map msg_orders (concat (take n (map (map feed_bytes) fss)))) = concat (map feed_orders (concat (take n fss)))"
    "list_all msg_ok (concat (take n (map (map feed_bytes) fss)))" "length (concat (take n (map (map feed_bytes) fss))) = length (concat (take n fss))"
proof -
  have "list_all feed_ok (concat (take n fss))" using assms by (auto simp: list_all_iff dest: in_set_takeD)
  note f = feed_messages(1,4) [OF this]
  then show "concat (map msg_orders (concat (take n (map (map feed_bytes) fss)))) = concat (map feed_orders (concat (take n fss)))"
    "list_all msg_ok (concat (take n (map (map feed_bytes) fss)))" "length (concat (take n (map (map feed_bytes) fss))) = length (concat (take n fss))"
    by (simp_all add: take_map map_concat [symmetric])
qed

lemma feed_singletons:
  assumes "list_all feed_ok fs"
  shows "map (concat \<circ> map feed_bytes) (map (\<lambda>f. [f]) fs) = map feed_bytes fs" "concat (take n (map (\<lambda>f. [f]) fs)) = take n fs"
    "2 \<le> fuel \<Longrightarrow> list_all (\<lambda>fs. list_all feed_ok fs \<and> length fs < fuel) (map (\<lambda>f. [f]) fs)"
  using assms by (simp_all add: take_map concat_map_singleton list_all_iff)

text \<open>What holds at any moment of a run of all the threads.\<close>

lemma feed_run:
  assumes "list_all feed_ok fs" "64 * (length fs + 1) \<le> FILE_SIZE" "2 \<le> fuel"
    and "parser_rel p [] [] [] cap" "ip_seq p = 0" "consumer_inv c" "0 < cap"
    and run: "(mock_step fuel tsc)\<^sup>*\<^sup>* (start_ring (feed_file fs) (start_pipeline p c), []) (m, out)"
  obtains n where "n \<le> length fs" "rm_handled m = map feed_bytes (take n fs)" "sum_list out + rm_total_packets m = of_nat (rm_consumed m)"
    "(\<forall>m'. \<not> ring_step (feed_handler fuel tsc) m m') \<longrightarrow> n = length fs"
    "pipe_good fuel tsc cap (c_book c) (map (map feed_bytes) (map (\<lambda>f. [f]) fs)) (map feed_bytes fs) n (rm_handler m)"
proof -
  note ms = feed_file_messages [OF assms(1)]
  note one = feed_singletons [OF assms(1)]
  have "64 * (length (concat (map (\<lambda>f. [f]) fs)) + 1) \<le> FILE_SIZE" using assms(2) by (simp add: concat_map_singleton)
  note d = threads.shared_delivers [OF mock_steps_shared [OF run], unfolded ms, OF feed_messages(3) [OF assms(1)]
      feed_start [OF one(3) [OF assms(3)] this assms(4-7), unfolded one(1)]]
  let ?n = "length (rm_handled m)"
  obtain k where k: "rm_handled m = take k (map feed_bytes fs)" using d(1) by (auto simp: ring_counts_def)
  then have h: "rm_handled m = map feed_bytes (take ?n fs)" "?n \<le> length fs" by (simp_all add: take_map min_def)
  have "?n = length fs" if "\<forall>m'. \<not> ring_step (feed_handler fuel tsc) m m'" using d(3) that by simp
  then show ?thesis using that [OF h(2,1) d(4)] d(2) by blast
qed

text \<open>A run of the ring alone is a run of all the threads.\<close>

lemma ring_steps_mock:
  assumes "(ring_step (feed_handler fuel tsc))\<^sup>*\<^sup>* m m'" "pl_error (rm_handler m) = None"
  shows "(mock_step fuel tsc)\<^sup>*\<^sup>* (m, out) (m', out) \<and> pl_error (rm_handler m') = None"
  using assms(1)
proof (induction rule: rtranclp_induct)
  case (step m1 m2)
  then have "mock_step fuel tsc (m1, out) (m2, out)" by (intro mock_step.Thread shared_step.Ring) simp_all
  moreover have "pl_error (rm_handler m2) = None"
    using step.hyps(2) step.IH by cases (auto simp: feed_handler_def split: bind_splits)
  ultimately show ?case using step.IH by (meson rtranclp.rtrancl_into_rtrancl)
qed (use assms(2) in simp)

section \<open>The book and the log\<close>

text \<open>What the invariant says of the book, and of recovery from the log, after \<open>n\<close> packets.\<close>

lemma pipe_book:
  assumes "list_all (\<lambda>fs. list_all feed_ok fs \<and> length fs < fuel) fss" "pipe_good fuel tsc cap book (map (map feed_bytes) fss) ms n h"
  obtains finished where "subseq (finished @ q_list (ip_queue (pl_parser h))) (concat (map feed_orders (concat (take n fss))))"
    "\<not> pl_full h \<longrightarrow> finished @ q_list (ip_queue (pl_parser h)) = concat (map feed_orders (concat (take n fss)))"
    "length (concat (take n fss)) < cap \<longrightarrow> \<not> pl_full h"
    "consume_orders finished book = Some (case pl_error h of None \<Rightarrow> Inr () | Some e \<Rightarrow> Inl e, c_book (pl_consumer h))"
  using assms(2) unfolding pipe_good_def Let_def feed_orders_taken [OF assms(1)] by blast

lemma pipe_recovery:
  assumes "list_all (\<lambda>fs. list_all feed_ok fs \<and> length fs < fuel) fss" "pipe_good fuel tsc cap book (map (map feed_bytes) fss) ms n h"
    and "book_inv book" "recovery_granted (wal (ip_logger (pl_parser h))) k"
  obtains res book' report k' where "run_recovery (wal (ip_logger (pl_parser h))) book new_report k = Some (res, book', report, k')"
    "consume_orders (concat (map feed_orders (concat (take n fss)))) book = Some (res, book')"
    "\<not> pl_full h \<longrightarrow> (case pl_error h of
       None \<Rightarrow> consume_orders (q_list (ip_queue (pl_parser h))) (c_book (pl_consumer h)) = Some (res, book')
     | Some e \<Rightarrow> res = Inl e \<and> book' = c_book (pl_consumer h))"
proof -
  let ?ms = "concat (take n (map (map feed_bytes) fss))" and ?orders = "concat (map feed_orders (concat (take n fss)))"
  note o = feed_orders_taken [OF assms(1), of n]
  have lg: "log_rel (ip_logger (pl_parser h)) (frames_for tsc 0 ?ms) []" and sz: "64 * (length (concat (map (map feed_bytes) fss)) + 1) \<le> FILE_SIZE"
    using assms(2) by (simp_all add: pipe_good_def itch_logged_def parser_rel_def)
  obtain res book' where r: "consume_orders ?orders book = Some (res, book')"
    using consume_orders_inv [OF assms(3), of ?orders] by blast
  have "concat (map frame_orders (frames_for tsc 0 ?ms)) = ?orders" using frames_for_orders [OF o(2)] o(1) by simp
  moreover have "64 * length (frames_for tsc 0 ?ms) < FILE_SIZE" using sz length_concat_take [of n "map (map feed_bytes) fss"] by simp
  ultimately obtain report k' where rec: "run_recovery (wal (ip_logger (pl_parser h))) book new_report k = Some (res, book', report, k')"
    using recover_log [OF lg _ _ assms(4), of book res book'] r by auto
  obtain fin where fin: "\<not> pl_full h \<longrightarrow> fin @ q_list (ip_queue (pl_parser h)) = ?orders"
    "consume_orders fin book = Some (case pl_error h of None \<Rightarrow> Inr () | Some e \<Rightarrow> Inl e, c_book (pl_consumer h))"
    by (rule pipe_book [OF assms(1,2)])
  have "case pl_error h of
      None \<Rightarrow> consume_orders (q_list (ip_queue (pl_parser h))) (c_book (pl_consumer h)) = Some (res, book')
    | Some e \<Rightarrow> res = Inl e \<and> book' = c_book (pl_consumer h)" if "\<not> pl_full h"
    using r fin(2) fin(1) [rule_format, OF that, symmetric] by (cases "pl_error h") (simp_all add: consume_orders_append)
  then show ?thesis using that [OF rec r] by blast
qed

end
