(* ===== verification/Order_Map_Memory.thy ===== *)
theory Order_Map_Memory
  imports Static_Order_Map Posix_Resources
begin

text \<open>
  The memory of \<^verbatim>\<open>src/utils/StaticOrderMap.h\<close>: the constructor, the destructor and the moves as
  an owner of a mapping. \<open>so_map\<close> is the address \<open>map_\<close>, and \<open>so_table\<close> the table behind it with the members
  \<open>capacity_\<close> and \<open>mapped_bytes_\<close>.
\<close>

section \<open>The code\<close>

record order_map_object =
  so_map :: nat
  so_table :: order_map

definition StaticOrderMap_new :: "u64 \<Rightarrow> nat \<Rightarrow> kernel \<Rightarrow> (error + order_map_object) \<times> kernel" where
  "StaticOrderMap_new page_size Capacity k =
     (let (map_addr, k) = sys_mmap (unat (page_align page_size (of_nat Capacity * 16))) k in
      case StaticOrderMap (map_addr \<noteq> None) page_size Capacity of
        Inl e \<Rightarrow> (Inl e, k)
      | Inr table \<Rightarrow> (Inr \<lparr>so_map = the map_addr, so_table = table\<rparr>, k))"

definition StaticOrderMap_destroy :: "order_map_object \<Rightarrow> kernel \<Rightarrow> kernel" where
  "StaticOrderMap_destroy om k =
     (if so_map om \<noteq> 0 then sys_munmap (so_map om) (unat (mapped_bytes (so_table om))) k else k)"

text \<open>
  The move constructor does not initialise \<open>mapped_bytes_\<close>: the member keeps what was in the memory of the new object, \<open>garbage\<close>.
\<close>

definition StaticOrderMap_move :: "u64 \<Rightarrow> order_map_object \<Rightarrow> order_map_object \<times> order_map_object" where
  "StaticOrderMap_move garbage other =
     (\<lparr>so_map = so_map other, so_table = (so_table other)\<lparr>mapped_bytes := garbage\<rparr>\<rparr>,
      other\<lparr>so_map := 0\<rparr>)"

text \<open>The move assignment from another object.\<close>

definition StaticOrderMap_assign ::
  "order_map_object \<Rightarrow> order_map_object \<Rightarrow> kernel \<Rightarrow> order_map_object \<times> order_map_object \<times> kernel" where
  "StaticOrderMap_assign this other k =
     (let k = (if so_map this \<noteq> 0 then sys_munmap (so_map this) (unat (mapped_bytes (so_table this))) k else k)
      in (\<lparr>so_map = so_map other, so_table = so_table other\<rparr>, other\<lparr>so_map := 0\<rparr>, k))"

section \<open>Ownership\<close>

definition so_own_maps :: "order_map_object \<Rightarrow> nat set" where
  "so_own_maps om = (if so_map om = 0 then {} else {so_map om..<so_map om + unat (mapped_bytes (so_table om))})"

interpretation map_owner: resource_owner "StaticOrderMap_new page_size Capacity" StaticOrderMap_destroy "\<lambda>om. {#}" so_own_maps
proof
  fix k om k'
  assume "StaticOrderMap_new page_size Capacity k = (Inr om, k')"
  then show "mset (fds k') = {#} + mset (fds k) \<and> mapped k' = so_own_maps om \<union> mapped k \<and>
      so_own_maps om \<inter> mapped k = {} \<and> addrinfos k' = addrinfos k"
    by (auto simp: StaticOrderMap_new_def StaticOrderMap_def so_own_maps_def Let_def disjoint_iff
        split: prod.splits if_splits dest!: sys_mmap_effect)
next
  fix k e k'
  assume "StaticOrderMap_new page_size Capacity k = (Inl e, k')"
  then show "same_resources k k'"
    by (auto simp: StaticOrderMap_new_def StaticOrderMap_def same_resources_def Let_def
        split: prod.splits if_splits dest!: sys_mmap_effect)
qed (auto simp: StaticOrderMap_destroy_def so_own_maps_def)

text \<open>The move assignment hands the mapping over and releases the old one.\<close>

lemma StaticOrderMap_assign_ok:
  assumes "StaticOrderMap_assign this other k = (this', other', k')"
  shows "k' = StaticOrderMap_destroy this k" "so_own_maps this' = so_own_maps other" "so_own_maps other' = {}"
  using assms by (auto simp: StaticOrderMap_assign_def StaticOrderMap_destroy_def so_own_maps_def)

text \<open>
  After the move constructor, destroying both objects unmaps as many bytes as happened to be in the memory of the new object:
  a part of the table stays mapped, or memory behind it is unmapped too.
\<close>

lemma StaticOrderMap_move_unmaps_garbage:
  assumes "StaticOrderMap_move garbage om = (new, old)" "so_map om \<noteq> 0"
  shows "mapped (StaticOrderMap_destroy new (StaticOrderMap_destroy old k)) = mapped k - {so_map om..<so_map om + unat garbage}"
  using assms by (auto simp: StaticOrderMap_move_def StaticOrderMap_destroy_def)

end
