(* ===== verification/Mock_Mode.thy ===== *)
theory Mock_Mode
  imports Feed_Pipeline Order_Map_Memory
begin

text \<open>
  \<^verbatim>\<open>main\<close> and \<^verbatim>\<open>run_mock_mode\<close> of \<^verbatim>\<open>src/main.cpp\<close> up to the point where the threads are started: what they construct,
  in which order, and what is destroyed when a later constructor throws.
\<close>

section \<open>The code\<close>

text \<open>
  The constructor of the book with its system calls: the map is a member, and it is destroyed when the body throws. The book has
  no destructor of its own, so only the map is released with it, not the pool.
\<close>

record book_object =
  bo_book :: lob
  bo_map :: order_map_object
  bo_pool :: nat

definition LimitOrderBook_new :: "u64 \<Rightarrow> u64 \<Rightarrow> kernel \<Rightarrow> ((error + book_object) \<times> kernel) option" where
  "LimitOrderBook_new page_size max_orders k =
     (case StaticOrderMap_new page_size ORDER_MAP_SIZE k of
        (Inl e, k) \<Rightarrow> Some (Inl e, k)
      | (Inr om, k) \<Rightarrow>
          let (pool_addr, k) = (if max_orders = 0 then (None, k) else sys_mmap (unat (page_align page_size (max_orders * 32))) k) in do {
            r \<leftarrow> LimitOrderBook MAX_TICKS ORDER_MAP_SIZE True (pool_addr \<noteq> None) page_size max_orders;
            Some (case r of
                Inl e \<Rightarrow> (Inl e, StaticOrderMap_destroy om k)
              | Inr s \<Rightarrow> (Inr \<lparr>bo_book = s, bo_map = om, bo_pool = the pool_addr\<rparr>, k)) })"

definition LimitOrderBook_destroy :: "book_object \<Rightarrow> kernel \<Rightarrow> kernel" where
  "LimitOrderBook_destroy b k = StaticOrderMap_destroy (bo_map b) k"

text \<open>The objects of \<open>run_mock_mode\<close>: the parser holds the queue and the logger.\<close>

definition run_mock_mode ::
  "u64 \<Rightarrow> NormalizedOrder list \<Rightarrow> kernel \<Rightarrow> ((error + ItchParser \<times> book_object \<times> MulticastReceiver) \<times> kernel) option" where
  "run_mock_mode page_size slots k =
     (case MmapLogger k of
        (Inl e, k) \<Rightarrow> Some (Inl e, k)
      | (Inr logger, k) \<Rightarrow> do {
          (book, k) \<leftarrow> LimitOrderBook_new page_size 1000 k;
          (case book of
             Inl e \<Rightarrow> Some (Inl e, MmapLogger_destroy logger k)
           | Inr book \<Rightarrow>
               (case MulticastReceiver_mock True k of
                  (Inl e, k) \<Rightarrow> Some (Inl e, MmapLogger_destroy logger (LimitOrderBook_destroy book k))
                | (Inr poller, k) \<Rightarrow> Some (Inr (ItchParser (SPSCQueue slots) logger, book, poller), k))) })"

text \<open>\<open>main\<close>: the thread is pinned first, and without mock mode the receiver is the one for the network.\<close>

definition main ::
  "bool \<Rightarrow> (string \<Rightarrow> int \<times> u8 list) \<Rightarrow> u8 list \<Rightarrow> string \<Rightarrow> string \<Rightarrow> u64 \<Rightarrow> NormalizedOrder list \<Rightarrow> kernel \<Rightarrow>
   ((error + ItchParser \<times> book_object \<times> MulticastReceiver) \<times> kernel) option" where
  "main MOCK_MODE inet_pton garbage HOST_INTERFACE MULTICAST_IP_ADDR page_size slots k =
     (let (pinned, k) = sys_ok k in
      if \<not> pinned then Some (Inl (Runtime_error ''Unable to pin main thread to Core 1''), k)
      else if MOCK_MODE then run_mock_mode page_size slots k
      else case MmapLogger k of
        (Inl e, k) \<Rightarrow> Some (Inl e, k)
      | (Inr logger, k) \<Rightarrow> do {
          (book, k) \<leftarrow> LimitOrderBook_new page_size 1000 k;
          (case book of
             Inl e \<Rightarrow> Some (Inl e, MmapLogger_destroy logger k)
           | Inr book \<Rightarrow> do {
               (poller, k) \<leftarrow> MulticastReceiver inet_pton garbage HOST_INTERFACE MULTICAST_IP_ADDR k;
               Some (case poller of
                   Inl e \<Rightarrow> (Inl e, MmapLogger_destroy logger (LimitOrderBook_destroy book k))
                 | Inr (poller, _) \<Rightarrow> (Inr (ItchParser (SPSCQueue slots) logger, book, poller), k)) }) })"

section \<open>What is left behind\<close>

lemma LimitOrderBook_new_ok:
  assumes "LimitOrderBook_new page_size max_orders k = Some (Inr b, k')"
  shows "LimitOrderBook MAX_TICKS ORDER_MAP_SIZE True True page_size max_orders = Some (Inr (bo_book b))"
    "mset (fds k') = mset (fds k)" "addrinfos k' = addrinfos k"
    "mapped k' = so_own_maps (bo_map b) \<union> mapped k \<union> {bo_pool b..<bo_pool b + unat (page_align page_size (max_orders * 32))}"
    "mapped (LimitOrderBook_destroy b k') = mapped k \<union> {bo_pool b..<bo_pool b + unat (page_align page_size (max_orders * 32))}"
proof -
  obtain r1 k1 where m: "StaticOrderMap_new page_size ORDER_MAP_SIZE k = (r1, k1)" by fastforce
  obtain om where om: "r1 = Inr om" using assms m by (cases r1) (simp_all add: LimitOrderBook_new_def)
  note o = map_owner.create_ok [OF m [unfolded om]]
  have n: "max_orders \<noteq> 0"
    using assms m om by (auto simp: LimitOrderBook_new_def LimitOrderBook_def split: sum.splits)
  obtain a k2 where p: "sys_mmap (unat (page_align page_size (max_orders * 32))) k1 = (a, k2)" by fastforce
  have "a \<noteq> None"
    using assms m om n p by (cases a) (auto simp: LimitOrderBook_new_def LimitOrderBook_def Let_def split: sum.splits)
  then obtain pa where a: "a = Some pa" by auto
  note e = sys_mmap_effect [OF p, unfolded a option.case]
  obtain s where s: "LimitOrderBook MAX_TICKS ORDER_MAP_SIZE True True page_size max_orders = Some (Inr s)"
    "b = \<lparr>bo_book = s, bo_map = om, bo_pool = pa\<rparr>" "k' = k2"
    using assms m om n p a by (auto simp: LimitOrderBook_new_def split: sum.splits bind_splits)
  show "LimitOrderBook MAX_TICKS ORDER_MAP_SIZE True True page_size max_orders = Some (Inr (bo_book b))" using s by simp
  show "mset (fds k') = mset (fds k)" "addrinfos k' = addrinfos k" using o e s by simp_all
  show mk: "mapped k' = so_own_maps (bo_map b) \<union> mapped k \<union> {bo_pool b..<bo_pool b + unat (page_align page_size (max_orders * 32))}"
    using o e s by auto
  have "mapped (StaticOrderMap_destroy om k2) = mapped k2 - so_own_maps om" using map_owner.destroy_ok [where x = om and k = k2] by simp
  then show "mapped (LimitOrderBook_destroy b k') = mapped k \<union> {bo_pool b..<bo_pool b + unat (page_align page_size (max_orders * 32))}"
    using o e s by (auto simp: LimitOrderBook_destroy_def)
qed

lemma LimitOrderBook_new_fails:
  assumes "LimitOrderBook_new page_size max_orders k = Some (Inl e, k')"
  shows "same_resources k k'"
proof -
  obtain r1 k1 where m: "StaticOrderMap_new page_size ORDER_MAP_SIZE k = (r1, k1)" by fastforce
  show ?thesis
  proof (cases r1)
    case (Inl e')
    then show ?thesis using assms m map_owner.create_fail by (simp add: LimitOrderBook_new_def)
  next
    case (Inr om)
    note o = map_owner.create_ok [OF m [unfolded Inr]]
    obtain a k2 where a: "(if max_orders = 0 then (None, k1) else sys_mmap (unat (page_align page_size (max_orders * 32))) k1) = (a, k2)"
      by fastforce
    have eq: "LimitOrderBook_new page_size max_orders k = do {
        r \<leftarrow> LimitOrderBook MAX_TICKS ORDER_MAP_SIZE True (a \<noteq> None) page_size max_orders;
        Some (case r of
            Inl e \<Rightarrow> (Inl e, StaticOrderMap_destroy om k2)
          | Inr s \<Rightarrow> (Inr \<lparr>bo_book = s, bo_map = om, bo_pool = the a\<rparr>, k2)) }"
      using m Inr a by (simp add: LimitOrderBook_new_def)
    have no: "a = None"
    proof (rule ccontr)
      assume "a \<noteq> None"
      then have n: "max_orders \<noteq> 0" using a by (auto split: if_splits)
      have "LimitOrderBook MAX_TICKS ORDER_MAP_SIZE True True page_size max_orders \<noteq> Some (Inl e)"
        using n by (auto simp: LimitOrderBook_def StaticOrderMap_def Let_def split: bind_splits)
      then show False
        using assms \<open>a \<noteq> None\<close> unfolding eq by (auto split: bind_splits sum.splits)
    qed
    then have "same_resources k1 k2" using a by (auto simp: same_resources_def split: if_splits dest!: sys_mmap_effect)
    moreover have "k' = StaticOrderMap_destroy om k2"
      using assms unfolding eq by (auto split: bind_splits sum.splits)
    ultimately show ?thesis using o map_owner.destroy_ok [where x = om and k = k2] by (auto simp: same_resources_def)
  qed
qed

text \<open>
  A start-up that fails leaves no descriptor open. It leaves the pool of the book mapped when the book was
  already there, and otherwise nothing.
\<close>

lemma run_mock_mode_fails:
  assumes "run_mock_mode page_size slots k = Some (Inl e, k')"
  shows "mset (fds k') = mset (fds k) \<and> addrinfos k' = addrinfos k \<and>
    (mapped k' = mapped k \<or> (\<exists>pool. mapped k' \<subseteq> mapped k \<union> {pool..<pool + unat (page_align page_size (1000 * 32))}))"
proof -
  obtain r1 k1 where l: "MmapLogger k = (r1, k1)" by fastforce
  show ?thesis
  proof (cases r1)
    case (Inl e')
    then show ?thesis using assms l logger.create_fail by (auto simp: run_mock_mode_def same_resources_def)
  next
    case (Inr lg)
    note o = logger.create_ok [OF l [unfolded Inr]]
    obtain r2 k2 where b: "LimitOrderBook_new page_size 1000 k1 = Some (r2, k2)"
      using assms l Inr by (auto simp: run_mock_mode_def split: bind_splits)
    show ?thesis
    proof (cases r2)
      case (Inl e')
      then have "k' = MmapLogger_destroy lg k2" using assms l Inr b by (simp add: run_mock_mode_def)
      then show ?thesis
        using o logger.destroy_ok [where x = lg and k = k2] LimitOrderBook_new_fails [OF b [unfolded Inl]]
        by (auto simp: same_resources_def)
    next
      case (Inr bk)
      note bo = LimitOrderBook_new_ok [OF b [unfolded Inr]]
      obtain r3 k3 where p: "MulticastReceiver_mock True k2 = (r3, k3)" by fastforce
      then obtain e3 where e3: "r3 = Inl e3" using assms l \<open>r1 = Inr lg\<close> b Inr by (cases r3) (simp_all add: run_mock_mode_def)
      then have s: "same_resources k2 k3" using mock_receiver.create_fail p by blast
      have k': "k' = MmapLogger_destroy lg (LimitOrderBook_destroy bk k3)"
        using assms l \<open>r1 = Inr lg\<close> b Inr p e3 by (simp add: run_mock_mode_def)
      have d: "mset (fds (LimitOrderBook_destroy bk k)) = mset (fds k)" "addrinfos (LimitOrderBook_destroy bk k) = addrinfos k"
        "mapped (LimitOrderBook_destroy bk k) = mapped k - so_own_maps (bo_map bk)" for k
        using map_owner.destroy_ok [where x = "bo_map bk" and k = k] by (simp_all add: LimitOrderBook_destroy_def)
      have "mapped (LimitOrderBook_destroy bk k3) = mapped k1 \<union> {bo_pool bk..<bo_pool bk + unat (page_align page_size (1000 * 32))}"
        using bo(5) d(3) [of k2] d(3) [of k3] s by (simp add: same_resources_def)
      then show ?thesis
        using o logger.destroy_ok [where x = lg and k = "LimitOrderBook_destroy bk k3"] bo(2,3) s d(1,2) [of k3] unfolding k'
        by (auto simp: same_resources_def)
    qed
  qed
qed

end
