(* ===== verification/Network_Mode.thy ===== *)
theory Network_Mode
  imports Mock_Mode
begin

text \<open>
  The threads that \<^verbatim>\<open>main\<close> of \<^verbatim>\<open>src/main.cpp\<close> starts for the network: the poller with its parser, and the thread of the book. They
  are those of mock mode, with \<open>poll\<close> in place of \<open>poll_simulation\<close> and the kernel in place of the replay.
\<close>

section \<open>The threads\<close>

inductive network_step :: "nat \<Rightarrow> (u64 \<Rightarrow> u64) \<Rightarrow> u8 list list \<Rightarrow> pipeline net_machine \<Rightarrow> pipeline net_machine \<Rightarrow> bool"
  for fuel tsc pkts where
  Network_thread: "pl_error (nm_handler w) = None \<Longrightarrow> net_step (feed_handler fuel tsc) book_turn pkts w w' \<Longrightarrow> network_step fuel tsc pkts w w'"

inductive_cases network_stepE [elim]: "network_step fuel tsc pkts w w'"

lemma network_steps_net: "(network_step fuel tsc pkts)\<^sup>*\<^sup>* w w' \<Longrightarrow> (net_step (feed_handler fuel tsc) book_turn pkts)\<^sup>*\<^sup>* w w'"
  by (erule mono_rtranclp [rule_format, rotated]) auto

text \<open>The packets of the feed: datagrams without IP options whose payloads are messages one after the other.\<close>

definition feed_packet :: "ipv4_frame \<Rightarrow> feed_message list \<Rightarrow> bool" where
  "feed_packet f fs \<longleftrightarrow> ipv4_ok f \<and> length (if_header f) = 20 \<and> if_payload f = concat (map feed_bytes fs)"

lemma feed_packets_payload:
  assumes "list_all2 feed_packet frames fss"
  shows "map (drop 42) (map ipv4_bytes frames) = map (concat \<circ> map feed_bytes) fss" "list_all (\<lambda>pkt. 42 \<le> length pkt) (map ipv4_bytes frames)"
  using assms
proof (induction rule: list_all2_induct)
  case (Cons f frames fs fss)
  have "length (if_macs f) = 12" "length (if_header f) = 20" "length (if_udp f) = 8" "if_payload f = concat (map feed_bytes fs)"
    using Cons.hyps(1) unfolding feed_packet_def ipv4_ok_def by blast+
  then have "drop 42 (ipv4_bytes f) = concat (map feed_bytes fs)" "42 \<le> length (ipv4_bytes f)" by (simp_all add: ipv4_bytes_def)
  {
    case 1
    then show ?case using \<open>drop 42 (ipv4_bytes f) = _\<close> Cons.IH(1) by simp
  next
    case 2
    then show ?case using \<open>42 \<le> _\<close> Cons.IH(2) by simp
  }
qed simp_all

text \<open>What holds at any moment of a run.\<close>

lemma network_run:
  assumes "list_all2 feed_packet frames fss" "list_all (\<lambda>fs. list_all feed_ok fs \<and> length fs < fuel) fss"
    and "64 * (length (concat fss) + 1) \<le> FILE_SIZE" "parser_rel p [] [] [] cap" "ip_seq p = 0" "consumer_inv c" "0 < cap"
    and "mr_curr_frame_idx r = 0" "mr_total_packets r = 0"
    and run: "(network_step fuel tsc (map ipv4_bytes frames))\<^sup>*\<^sup>* (start_net r (start_pipeline p c)) w"
  shows "net_inv (map ipv4_bytes frames) w"
    "pipe_good fuel tsc cap (c_book c) (map (map feed_bytes) fss) (map (concat \<circ> map feed_bytes) fss) (nm_taken w) (nm_handler w)"
proof -
  note pl = feed_packets_payload [OF assms(1)]
  note g = feed_start [OF assms(2-7), of tsc]
  have "net_inv (map ipv4_bytes frames) w \<and>
      pipe_good fuel tsc cap (c_book c) (map (map feed_bytes) fss) (map (concat \<circ> map feed_bytes) fss) (nm_taken w) (nm_handler w)"
    using threads.net_steps_good [OF network_steps_net [OF run] pl(2) start_net_inv [OF assms(8,9)], where cap = cap and book = "c_book c"
        and groups = "map (map feed_bytes) fss", unfolded pl(1)] g by (simp add: start_net_def)
  then show "net_inv (map ipv4_bytes frames) w"
    "pipe_good fuel tsc cap (c_book c) (map (map feed_bytes) fss) (map (concat \<circ> map feed_bytes) fss) (nm_taken w) (nm_handler w)"
    by blast+
qed

text \<open>The poller catches up: on its own it comes to the last frame that the kernel has filled.\<close>

lemma network_catches_up:
  assumes "list_all2 feed_packet frames fss" "net_inv (map ipv4_bytes frames) w" "pl_error (nm_handler w) = None"
    and "pipe_good fuel tsc cap book (map (map feed_bytes) fss) (map (concat \<circ> map feed_bytes) fss) (nm_taken w) (nm_handler w)"
  shows "\<exists>w'. (network_step fuel tsc (map ipv4_bytes frames))\<^sup>*\<^sup>* w w' \<and> nm_taken w' = nm_filled w"
  using assms(2-)
proof (induction "nm_filled w - nm_taken w" arbitrary: w)
  case 0
  then have "nm_taken w = nm_filled w" by (simp add: net_inv_def)
  then show ?case by blast
next
  case (Suc d)
  note pl = feed_packets_payload [OF assms(1)]
  have t: "nm_taken w < nm_filled w" using Suc.hyps(2) by simp
  obtain mem r h where p: "poll_round poll_args (feed_handler fuel tsc) (nm_mem w) (nm_receiver w) (nm_handler w) = Some (mem, r, h)"
    "r \<noteq> nm_receiver w" "pipe_good fuel tsc cap book (map (map feed_bytes) fss) (map (concat \<circ> map feed_bytes) fss) (nm_taken w + 1) h"
    "net_inv (map ipv4_bytes frames) (w\<lparr>nm_mem := mem, nm_receiver := r, nm_handler := h, nm_taken := nm_taken w + 1\<rparr>)"
    using threads.net_poll_frame [OF Suc.prems(1) t pl(2), where cap = cap and book = book and groups = "map (map feed_bytes) fss" and fuel = fuel and tsc = tsc,
        unfolded pl(1)] Suc.prems(3) by blast
  let ?w = "w\<lparr>nm_mem := mem, nm_receiver := r, nm_handler := h, nm_taken := nm_taken w + 1\<rparr>"
  have s: "network_step fuel tsc (map ipv4_bytes frames) w ?w"
    using network_step.Network_thread [OF Suc.prems(2) net_step.Poll [OF p(1)]] p(2) by simp
  have "pl_error h = None"
    using p(1) Suc.prems(2) by (auto simp: poll_round_def Let_def feed_handler_def split: bind_splits if_splits)
  moreover have "d = nm_filled ?w - nm_taken ?w" using Suc.hyps(2) by simp
  ultimately obtain w' where "(network_step fuel tsc (map ipv4_bytes frames))\<^sup>*\<^sup>* ?w w'" "nm_taken w' = nm_filled w"
    using Suc.hyps(1) [of ?w] p(3,4) by auto
  then show ?case using s by (meson converse_rtranclp_into_rtranclp)
qed

section \<open>A start-up in which every call succeeds\<close>

text \<open>A kernel that grants every call and maps each area far above the ones before.\<close>

definition spacious :: "kernel \<Rightarrow> bool" where
  "spacious k \<longleftrightarrow> replies k = (\<lambda>n. Ret (n * 2 ^ 40 + 4095)) \<and> mapped k \<subseteq> {..calls k * 2 ^ 40 + 4095}"

definition roomy :: kernel where
  "roomy = \<lparr>fds = [0, 1, 2], mapped = {}, addrinfos = 0, errno = 0, replies = (\<lambda>n. Ret (n * 2 ^ 40 + 4095)), calls = 0\<rparr>"

lemma spacious_roomy: "spacious roomy"
  by (simp add: spacious_def roomy_def)

lemma spacious_call: "spacious k \<Longrightarrow> spacious (k\<lparr>calls := Suc (calls k)\<rparr>)"
  by (fastforce simp: spacious_def)

lemma spacious_ok:
  assumes "spacious k"
  obtains k' where "sys_ok k = (True, k')" "spacious k'"
  using assms spacious_call [OF assms] that by (simp add: spacious_def kernel_calls)

lemma spacious_fd:
  assumes "spacious k"
  obtains fd k' where "sys_fd k = (fd, k')" "fd \<noteq> - 1" "spacious k'"
  using assms spacious_call [OF assms] that by (simp add: spacious_def kernel_calls)

lemma spacious_close: "spacious k \<Longrightarrow> spacious (sys_close fd k)"
  by (simp add: spacious_def kernel_calls)

lemma spacious_mmap:
  assumes "spacious k" "0 < len" "len \<le> 2 ^ 39"
  obtains a k' where "sys_mmap len k = (Some a, k')" "spacious k'"
proof -
  let ?v = "calls k * 2 ^ 40 + 4095"
  have "mapped k \<inter> {Suc ?v..<Suc ?v + len} = {}" using assms(1) by (auto simp: spacious_def)
  then have "sys_mmap len k = (Some (Suc ?v), k\<lparr>calls := Suc (calls k), mapped := mapped k \<union> {Suc ?v..<Suc ?v + len}\<rparr>)"
    using assms(1,2) by (simp add: spacious_def kernel_calls)
  moreover have "spacious (k\<lparr>calls := Suc (calls k), mapped := mapped k \<union> {Suc ?v..<Suc ?v + len}\<rparr>)"
    using assms by (auto simp: spacious_def)
  ultimately show ?thesis by (rule that)
qed

lemma spacious_logger:
  assumes "spacious k"
  obtains lg k' where "MmapLogger k = (Inr lg, k')" "spacious k'"
proof -
  obtain fd k1 where 1: "sys_fd k = (fd, k1)" "fd \<noteq> - 1" "spacious k1" by (rule spacious_fd [OF assms])
  obtain k2 where 2: "sys_ok k1 = (True, k2)" "spacious k2" by (rule spacious_ok [OF 1(3)])
  obtain a k3 where 3: "sys_mmap FILE_SIZE k2 = (Some a, k3)" "spacious k3"
    by (rule spacious_mmap [OF 2(2), of FILE_SIZE]) (simp_all add: FILE_SIZE_def)
  obtain k4 where 4: "sys_ok k3 = (True, k4)" "spacious k4" by (rule spacious_ok [OF 3(2)])
  show ?thesis using that 1(1,2) 2(1) 3(1) 4 spacious_close [OF 4(2), of fd] by (simp add: MmapLogger_def)
qed

lemma spacious_book:
  assumes "spacious k"
  obtains b k' where "LimitOrderBook_new (2 ^ 12) 1000 k = Some (Inr b, k')" "spacious k'"
proof -
  obtain s where s: "LimitOrderBook MAX_TICKS ORDER_MAP_SIZE True True 4096 1000 = Some (Inr s)"
    using new_book_inv [of 1000 22 12 MAX_TICKS] by (auto simp: ORDER_MAP_SIZE_def MAX_TICKS_def)
  have page: "unat (page_align 4096 (of_nat ORDER_MAP_SIZE * 16)) = 67108864" "unat (page_align 4096 (1000 * 32)) = 32768"
    by (simp_all add: page_align_def ORDER_MAP_SIZE_def)
  obtain a k1 where 1: "sys_mmap 67108864 k = (Some a, k1)" "spacious k1" by (rule spacious_mmap [OF assms, of 67108864]) simp_all
  obtain a' k2 where 2: "sys_mmap 32768 k1 = (Some a', k2)" "spacious k2" by (rule spacious_mmap [OF 1(2), of 32768]) simp_all
  show ?thesis using that 1(1) 2 s page by (simp add: LimitOrderBook_new_def StaticOrderMap_new_def StaticOrderMap_def Let_def)
qed

lemma roomy_start:
  obtains p b poller k' where "run_mock_mode (2 ^ 12) slots roomy = Some (Inr (p, b, poller), k')"
proof -
  obtain lg k1 where 1: "MmapLogger roomy = (Inr lg, k1)" "spacious k1" by (rule spacious_logger [OF spacious_roomy])
  obtain b k2 where 2: "LimitOrderBook_new (2 ^ 12) 1000 k1 = Some (Inr b, k2)" "spacious k2" by (rule spacious_book [OF 1(2)])
  obtain a k3 where "sys_mmap (RX_BLOCK_SIZE * RX_BLOCK_NR) k2 = (Some a, k3)"
    by (rule spacious_mmap [OF 2(2), of "RX_BLOCK_SIZE * RX_BLOCK_NR"]) (simp_all add: RX_BLOCK_SIZE_def RX_BLOCK_NR_def)
  then show ?thesis using that 1(1) 2(1) by (simp add: run_mock_mode_def MulticastReceiver_mock_def Let_def)
qed

lemma roomy_main:
  obtains p b poller k' where "main False sample_pton (replicate 6 0) ''eth0'' ''233.54.12.1'' (2 ^ 12) slots roomy = Some (Inr (p, b, poller), k')"
proof -
  obtain k0 where 0: "sys_ok roomy = (True, k0)" "spacious k0" by (rule spacious_ok [OF spacious_roomy])
  obtain lg k1 where 1: "MmapLogger k0 = (Inr lg, k1)" "spacious k1" by (rule spacious_logger [OF 0(2)])
  obtain b k2 where 2: "LimitOrderBook_new (2 ^ 12) 1000 k1 = Some (Inr b, k2)" "spacious k2" by (rule spacious_book [OF 1(2)])
  obtain fd k3 where 3: "sys_fd k2 = (fd, k3)" "fd \<noteq> - 1" "spacious k3" by (rule spacious_fd [OF 2(2)])
  obtain k4 where 4: "sys_ok k3 = (True, k4)" "spacious k4" by (rule spacious_ok [OF 3(3)])
  obtain k5 where 5: "sys_ok k4 = (True, k5)" "spacious k5" by (rule spacious_ok [OF 4(2)])
  obtain k6 where 6: "sys_ok k5 = (True, k6)" "spacious k6" by (rule spacious_ok [OF 5(2)])
  obtain k7 where 7: "sys_ok k6 = (True, k7)" "spacious k7" by (rule spacious_ok [OF 6(2)])
  obtain k8 where 8: "sys_ok k7 = (True, k8)" "spacious k8" by (rule spacious_ok [OF 7(2)])
  obtain a k9 where "sys_mmap (RX_BLOCK_SIZE * RX_BLOCK_NR) k8 = (Some a, k9)"
    by (rule spacious_mmap [OF 8(2), of "RX_BLOCK_SIZE * RX_BLOCK_NR"]) (simp_all add: RX_BLOCK_SIZE_def RX_BLOCK_NR_def)
  then show ?thesis
    using that 0(1) 1(1) 2(1) 3(1,2) 4(1) 5(1) 6(1) 7(1) 8(1) by (simp add: main_def MulticastReceiver_def sample_pton_def Let_def)
qed

section \<open>A packet that comes into the ring\<close>

text \<open>A datagram with one order, and the frame that the kernel makes of it: the header of the frame and then the packet.\<close>

definition sample_packet :: ipv4_frame where
  "sample_packet = sample_frame\<lparr>if_payload := feed_bytes (Order_message (CancelOrder sample_cancel))\<rparr>"

definition sample_slot :: "u8 list" where
  "sample_slot = [1, 0, 0, 0, 0, 0, 0, 0, 65, 0, 0, 0, 16, 0, 30, 0] @ ipv4_bytes sample_packet"

lemma sample_packet_ok:
  "feed_packet sample_packet [Order_message (CancelOrder sample_cancel)]" "bpf_run bpf_code (ipv4_bytes sample_packet) 0 0 = Some 0x40000"
proof -
  have l: "length (feed_bytes (Order_message (CancelOrder sample_cancel))) = 23" by (simp add: sample_cancel_def wire_header_def)
  then show "feed_packet sample_packet [Order_message (CancelOrder sample_cancel)]"
    by (simp add: feed_packet_def sample_packet_def sample_frame_def ipv4_ok_def)
  have "ipv4_ok sample_packet" "is_udp sample_packet" "is_first_fragment sample_packet" "udp_port sample_packet = 58362"
    using l by (simp_all add: sample_packet_def sample_frame_def ipv4_ok_def is_udp_def is_first_fragment_def udp_port_def)
  then have "feed_frame (ipv4_bytes sample_packet)" using feed_frame_ipv4 by blast
  then show "bpf_run bpf_code (ipv4_bytes sample_packet) 0 0 = Some 0x40000" by (simp add: bpf_code_accepts)
qed

lemma mem_read_prefix: "mem_read xs a n = Some v \<Longrightarrow> mem_read (xs @ ys) a n = Some v"
  by (auto simp: mem_read_def split: if_splits)

lemma sample_fills:
  "kernel_fills (replicate (RX_FRAME_NR * RX_FRAME_SIZE) 0) 0 (ipv4_bytes sample_packet) (sample_slot @ replicate (RX_FRAME_NR * RX_FRAME_SIZE - 81) 0)"
proof -
  let ?rest = "replicate (RX_FRAME_NR * RX_FRAME_SIZE - 81) (0 :: u8)"
  have l: "length (ipv4_bytes sample_packet) = 65" by (simp add: sample_packet_def sample_frame_def sample_cancel_def wire_header_def ipv4_bytes_def)
  have size: "RX_FRAME_NR * RX_FRAME_SIZE = 8388608" by (simp add: RX_FRAME_NR_def RX_BLOCK_SIZE_def RX_BLOCK_NR_def RX_FRAME_SIZE_def)
  have head: "mem_read sample_slot 0 4 = Some [1, 0, 0, 0]" "mem_read sample_slot 8 4 = Some [65, 0, 0, 0]" "mem_read sample_slot 14 2 = Some [30, 0]"
    "mem_read sample_slot 16 65 = Some (ipv4_bytes sample_packet)" using l by (simp_all add: mem_read_def sample_slot_def)
  note read = head [THEN mem_read_prefix, of ?rest]
  have "kernel_frame (sample_slot @ ?rest) 0 16 (ipv4_bytes sample_packet)" using read l by (simp add: kernel_frame_def load16_def load32_def)
  moreover have "16 + length (ipv4_bytes sample_packet) \<le> RX_FRAME_SIZE" using l by (simp add: RX_FRAME_SIZE_def)
  moreover have "load32 (sample_slot @ ?rest) 0 = Some 1" using read by (simp add: load32_def)
  ultimately have "frame_ready (sample_slot @ ?rest) 0 (ipv4_bytes sample_packet)" by (auto simp: frame_ready_def TP_STATUS_USER_def)
  moreover have "frame_at (sample_slot @ ?rest) i = frame_at (replicate (RX_FRAME_NR * RX_FRAME_SIZE) 0) i" if "i \<noteq> 0" for i
  proof -
    have "81 \<le> i * RX_FRAME_SIZE" using that by (cases i) (simp_all add: RX_FRAME_SIZE_def)
    moreover have "length sample_slot = 81" using l by (simp add: sample_slot_def)
    ultimately show ?thesis by (auto simp: frame_at_def mem_read_def size)
  qed
  ultimately show ?thesis using l by (simp add: kernel_fills_def sample_slot_def size)
qed

lemma sample_fill_step:
  "network_step 2 tsc [ipv4_bytes sample_packet] (start_net r (start_pipeline p c))
     ((start_net r (start_pipeline p c))\<lparr>nm_mem := sample_slot @ replicate (RX_FRAME_NR * RX_FRAME_SIZE - 81) 0, nm_filled := 1\<rparr>)"
proof -
  let ?w = "start_net r (start_pipeline p c)"
  have "load32 (nm_mem ?w) 0 = Some TP_STATUS_KERNEL" using load32_status [OF zero_status [OF RX_FRAME_NR_pos]] by (simp add: start_net_def)
  then have "net_step (feed_handler 2 tsc) book_turn [ipv4_bytes sample_packet] ?w
      (?w\<lparr>nm_mem := sample_slot @ replicate (RX_FRAME_NR * RX_FRAME_SIZE - 81) 0, nm_filled := nm_filled ?w + 1\<rparr>)"
    using sample_fills sample_packet_ok(2) by (intro net_step.Fill [where n = "0x40000"]) (simp_all add: start_net_def)
  moreover have "pl_error (nm_handler ?w) = None" by (simp add: start_net_def start_pipeline_def)
  ultimately show ?thesis using network_step.Network_thread [of ?w 2 tsc "[ipv4_bytes sample_packet]"] by (simp add: start_net_def)
qed

end
