(* ===== verification/Spec2Isabelle.thy ===== *)
theory Spec2Isabelle
  imports Book_Refinement Spsc_Concurrent Ouch_Client Epoll_Reactor Network_Mode
begin

text \<open>
  A verification library for the market data book: a feed handler that takes ITCH messages from a ring of packets, logs them,
  and maintains a limit order book, with crash recovery from the log and an OUCH client for outgoing orders.

  \<^bold>\<open>The program and its parts.\<close> A packet reaches the process through the ring of \<^verbatim>\<open>network/MulticastReceiver.h\<close>: from the kernel
  behind a BPF filter, or in mock mode from a thread that replays a file (\<^verbatim>\<open>simulate_packets\<close>). The poller calls \<^verbatim>\<open>parse_block\<close> of
  \<^verbatim>\<open>protocol/ItchParser.h\<close>, which appends each message as a frame to the mapped log of \<^verbatim>\<open>recovery/MmapLogger.cpp\<close> and pushes the add, execute and
  cancel orders onto the queue of \<^verbatim>\<open>utils/spscqueue.h\<close>. A second thread (\<^verbatim>\<open>consume\<close> of \<^verbatim>\<open>main.cpp\<close>) pops them and applies them to the book of
  \<^verbatim>\<open>book/LimitOrderBook.cpp\<close>, which rests on \<^verbatim>\<open>utils/HierarchicalBitset.h\<close> and \<^verbatim>\<open>utils/StaticOrderMap.h\<close>, and hands its measurements
  to a logging thread. \<^verbatim>\<open>recovery/RecoveryEngine.cpp\<close> replays a log into a book. Beside this path stand the TCP classes: \<^verbatim>\<open>network/TCPSocket.h\<close>,
  \<^verbatim>\<open>network/EpollReactor.h\<close> over the buffers of \<^verbatim>\<open>utils/MagicBuffer.h\<close>, and \<^verbatim>\<open>network/OuchClient.h\<close>. All paths are below \<^verbatim>\<open>src/src\<close>.

  \<^bold>\<open>Conventions.\<close> Machine integers are words of their width. An access outside an array or a mapping is the value \<open>None\<close> of an option type, so that a
  theorem with \<open>Some\<close> on its right-hand side excludes undefined behaviour. An exception is the left side of a sum, next to the state it
  leaves behind. The operating system is the record \<open>kernel\<close>: open descriptors, mapped addresses, address lists, and a sequence of replies, one for each
  call that can fail; theorems for all kernels cover all failures. Members that a constructor leaves without a value are an argument
  \<open>garbage\<close>. Concurrent code is a step relation with one step for each access to shared memory and a store buffer for each thread, the order that
  x86 gives and that the acquire and release accesses of the source ask for.

  \<^bold>\<open>The theories.\<close>
  \<^item> \<^verbatim>\<open>Mdb_Prelude\<close>, \<^verbatim>\<open>Byte_Codec\<close>, \<^verbatim>\<open>Posix_Resources\<close>: words, arrays and errors; bytes in memory; the kernel, and the locales \<open>resource_owner\<close> and
    \<open>movable_owner\<close> that the owning classes interpret: what construction acquires destruction releases, and a constructor that throws leaves nothing.
  \<^item> \<^verbatim>\<open>Hierarchical_Bitset\<close> (every operation; locale \<open>price_index\<close>): the bitset gives the maximum and minimum of the set it stands for.
  \<^item> \<^verbatim>\<open>Static_Order_Map\<close> (the table; locale \<open>order_index\<close>): linear probing with tombstones implements a finite map, and throws exactly when it is full.
    \<^verbatim>\<open>Order_Map_Memory\<close>: its mapping through construction, destruction and moves.
  \<^item> \<^verbatim>\<open>Itch_Types\<close>, \<^verbatim>\<open>Limit_Order_Book\<close>: the messages and every operation of the book. \<^verbatim>\<open>Book_Invariant\<close>: pool, lists, map and bitsets stay consistent.
    \<^verbatim>\<open>Book_Safety\<close>: for every stream no memory error, one possible exception, exact best prices, and the effect of each message.
    \<^verbatim>\<open>Book_Refinement\<close> (locale \<open>order_simulation\<close>): the book refines the reference book of \<^verbatim>\<open>tests/test_limit_order_book.cpp\<close>, in price-time priority.
  \<^item> \<^verbatim>\<open>Spsc_Queue\<close> (locale \<open>bounded_queue\<close>), \<^verbatim>\<open>Spsc_Concurrent\<close>: push and pop as a bounded FIFO, and the two threads at once: order, exclusive
    slots, justified failures, delivery.
  \<^item> \<^verbatim>\<open>Itch_Wire\<close>, \<^verbatim>\<open>Itch_Parser\<close>: the packed messages and the parser; round trips, and the outcome for arbitrary packets. \<open>parse_block\<close> has fuel, since the code
    loops forever on a type of length 0; one more round than there are messages is enough otherwise.
  \<^item> \<^verbatim>\<open>Crc32\<close>, \<^verbatim>\<open>Wal_Log\<close>, \<^verbatim>\<open>Recovery\<close> (locale \<open>order_book\<close>): the checksum detects bursts of 32 bits, the log is append-only, recovery rebuilds the book and
    stops at a torn frame. The loop of recovery terminates because every round stays in the mapping or is undefined.
  \<^item> \<^verbatim>\<open>Telemetry\<close>, \<^verbatim>\<open>Consumer\<close>: the measurements and the thread of the book, for any list of readings of the hardware, one for each round.
  \<^item> \<^verbatim>\<open>Bpf_Filter\<close>: the filter program of \<^verbatim>\<open>MulticastReceiver.h\<close>, run by an interpreter of the instructions it uses as the kernel documents them; which frames it keeps.
  \<^item> \<^verbatim>\<open>Multicast_Receiver\<close>, \<^verbatim>\<open>Packet_Ring\<close> (locales \<open>packet_handler\<close> and \<open>shared_handler\<close>): construction, moves and destruction over the resources; the ring with the replay and the
    poller interleaved at each access: every message once, in order, in frames that the threads never use at the same time; \<open>ring_run_bound\<close> bounds
    the length of every run, and a run that cannot go on has delivered everything.
  \<^item> \<^verbatim>\<open>Magic_Buffer\<close> (locale \<open>receive_buffer\<close>), \<^verbatim>\<open>Epoll_Reactor\<close>: the double mapping as memory that repeats with the capacity, a queue of bytes; the reactor over
    it, with the events of each round and the chunks that \<^verbatim>\<open>recv\<close> returns as arguments.
  \<^item> \<^verbatim>\<open>TCP_Socket\<close>, \<^verbatim>\<open>Ouch_Client\<close>: sockets, and the state machine of the client over a kernel that takes any number of bytes of each \<^verbatim>\<open>send\<close>.
  \<^item> \<^verbatim>\<open>Feed_Pipeline\<close>, \<^verbatim>\<open>Mock_Mode\<close>: the parser as the handler of the ring, and all threads of mock mode together (\<open>mock_step\<close>): the replay, the poller, the thread of
    the book and the statistics. The handler and the book interpret \<open>shared_handler\<close>, which extends \<open>packet_handler\<close> by threads that act on the state of the handler.
    \<^verbatim>\<open>Mock_Mode\<close> has what \<^verbatim>\<open>main\<close> and \<^verbatim>\<open>run_mock_mode\<close> construct, and what is left when that fails.
  \<^item> \<^verbatim>\<open>Network_Ring\<close>, \<^verbatim>\<open>Network_Mode\<close>: \<^verbatim>\<open>poll\<close> on a ring that the kernel fills, proved for every \<open>shared_handler\<close>, and the threads that \<^verbatim>\<open>main\<close> starts for the
    network (\<open>network_step\<close>). The kernel is an environment: \<open>kernel_fills\<close> and the rule \<open>Fill\<close> say what a packet socket documents, namely that it fills the frames in
    order, only frames that it owns, only with packets that the filter keeps, and leaves the other frames alone.
  \<^item> This theory: mock mode from the file to the book, the network from the datagrams to the book, and from the log of a program stopped at any moment back to the book.

  \<^bold>\<open>Bounds.\<close> A file, or the datagrams together, may have as many messages as the log has frames, less one: \<open>FILE_SIZE\<close> is that of the code. The messages have at most 48
  bytes, so that they fit a frame of the log (\<^verbatim>\<open>Wal_Log\<close> shows what a longer one does), and so they fit a frame of the ring, which takes 2016 bytes (\<open>frame_fits\<close>). The
  fuel of the parser is more than the number of messages in a packet: one round for each and one that finds the end. The size of a page is a parameter of the constructors
  that use it. \<open>mock_step\<close> and \<open>network_step\<close> take a call of \<open>parse_block\<close>, with the pushes and the logging in it, and a round of the thread of the book, with its pop, as
  one step each; \<open>network_step\<close> also takes a round of \<open>poll\<close> as one step. The ghost \<open>pl_full\<close> says that a packet has left the queue full, so that an
  order may have been refused; it cannot be set before 4095 messages have come. \<^verbatim>\<open>Spsc_Concurrent\<close> has the interleaving inside push and pop; there a delayed store of the
  head can make the queue look full when a pop has already returned. A crash inside the logging of a message is a torn frame, the subject of \<^verbatim>\<open>Recovery\<close>.

  \<^bold>\<open>Not modelled.\<close>
  \<^item> The kernel itself: its replies are arguments, and what it puts into the ring is described as above. \<^verbatim>\<open>print_statistics\<close> only reads counters of the kernel; it is
    modelled on its own in \<^verbatim>\<open>Multicast_Receiver\<close>.
  \<^item> The move constructor of \<^verbatim>\<open>EpollReactor.h\<close> leaves reference members uninitialised, which is ill-formed when it is instantiated: it has no behaviour to model.
  \<^item> Pinning threads to cores, beyond success or failure; the texts that are printed or appended to error messages.
  \<^item> \<^verbatim>\<open>utils/PCAPSimulation.h\<close> declares two structs that nothing uses, and \<^verbatim>\<open>strategy/ExecutionEngine.h\<close> is a mock class with empty methods.
  \<^item> The drivers of the tests and the benchmarks.
\<close>

section \<open>The objects that the threads start with\<close>

lemma new_log: "MmapLogger k = (Inr lg, k') \<Longrightarrow> log_rel lg [] []"
  by (auto simp: MmapLogger_def log_rel_def Let_def split: prod.splits if_splits option.splits dest!: sys_mmap_effect)

text \<open>An empty log and an empty queue in the parser, and an empty book that the thread of the book starts with.\<close>

lemma threads_start:
  assumes "MmapLogger k0 = (Inr lg, k)" "LimitOrderBook_new (2 ^ page) 1000 k = Some (Inr b, k1)" "page < 64" "length slots = 4096"
    and "p = ItchParser (SPSCQueue slots) lg"
    and "consume_init hw pinned garbage handoff (ip_queue p) (bo_book b) k2 = (Inr (l1d_te, branch_te, c), k3)"
    and "map length garbage = replicate NUM_BUFFERS TELEMETRY_BUFFER_SIZE" "length handoff = 2"
  shows "parser_rel p [] [] [] 4095" "ip_seq p = 0" "consumer_inv c" "c_book c = bo_book b" "book_inv (bo_book b)"
    "lookup (orders (bo_book b)) = Map.empty"
proof -
  show p: "parser_rel p [] [] [] 4095" "ip_seq p = 0"
    using new_log [OF assms(1)] spsc_inv_new [of slots 12] assms(4) by (simp_all add: parser_rel_def assms(5) ItchParser_def SPSCQueue_def)
  note ok = LimitOrderBook_new_ok(1) [OF assms(2)]
  obtain s where "LimitOrderBook MAX_TICKS (2 ^ 22) True True (2 ^ page) 1000 = Some (Inr s)" "book_inv s" "lookup (orders s) = Map.empty"
    using new_book_inv [of 1000 22 page MAX_TICKS] assms(3) by (auto simp: MAX_TICKS_def)
  then show b: "book_inv (bo_book b)" "lookup (orders (bo_book b)) = Map.empty" using ok by (simp_all add: ORDER_MAP_SIZE_def)
  have "spsc_inv (ip_queue p)" using p(1) by (simp add: parser_rel_def)
  note c = consume_init_inv [OF assms(6-8) this b(1)]
  show "consumer_inv c" "c_book c = bo_book b" by (fact c)+
qed

lemma mock_mode_start:
  assumes "run_mock_mode (2 ^ page) slots k = Some (Inr (p, b, poller), k1)" "page < 64" "length slots = 4096"
    and "consume_init hw pinned garbage handoff (ip_queue p) (bo_book b) k1 = (Inr (l1d_te, branch_te, c), k2)"
    and "map length garbage = replicate NUM_BUFFERS TELEMETRY_BUFFER_SIZE" "length handoff = 2"
  shows "parser_rel p [] [] [] 4095" "ip_seq p = 0" "consumer_inv c" "c_book c = bo_book b" "book_inv (bo_book b)"
    "lookup (orders (bo_book b)) = Map.empty"
proof -
  obtain lg k3 where l: "MmapLogger k = (Inr lg, k3)" "p = ItchParser (SPSCQueue slots) lg"
    using assms(1) by (auto simp: run_mock_mode_def split: prod.splits sum.splits bind_splits)
  obtain k4 where b: "LimitOrderBook_new (2 ^ page) 1000 k3 = Some (Inr b, k4)"
    using assms(1) l by (auto simp: run_mock_mode_def split: prod.splits sum.splits bind_splits)
  note t = threads_start [OF l(1) b assms(2,3) l(2) assms(4-6)]
  show "parser_rel p [] [] [] 4095" "ip_seq p = 0" "consumer_inv c" "c_book c = bo_book b" "book_inv (bo_book b)"
    "lookup (orders (bo_book b)) = Map.empty" by (fact t)+
qed

lemma network_mode_start:
  assumes "main False inet_pton stack interface addr (2 ^ page) slots k = Some (Inr (p, b, poller), k1)" "page < 64" "length slots = 4096"
    and "consume_init hw pinned garbage handoff (ip_queue p) (bo_book b) k1 = (Inr (l1d_te, branch_te, c), k2)"
    and "map length garbage = replicate NUM_BUFFERS TELEMETRY_BUFFER_SIZE" "length handoff = 2"
  shows "parser_rel p [] [] [] 4095" "ip_seq p = 0" "consumer_inv c" "c_book c = bo_book b" "book_inv (bo_book b)"
    "lookup (orders (bo_book b)) = Map.empty" "mr_curr_frame_idx poller = 0" "mr_total_packets poller = 0"
proof -
  obtain k0 where k0: "sys_ok k = (True, k0)"
    using assms(1) by (cases "sys_ok k") (auto simp: main_def Let_def split: if_splits)
  note m = assms(1) [unfolded main_def Let_def k0 prod.case if_False not_True_eq_False]
  obtain lg k3 where l: "MmapLogger k0 = (Inr lg, k3)" "p = ItchParser (SPSCQueue slots) lg"
    using m by (auto split: prod.splits sum.splits bind_splits)
  obtain k4 where b: "LimitOrderBook_new (2 ^ page) 1000 k3 = Some (Inr b, k4)"
    using m l by (auto split: prod.splits sum.splits bind_splits)
  note t = threads_start [OF l(1) b assms(2,3) l(2) assms(4-6)]
  show "parser_rel p [] [] [] 4095" "ip_seq p = 0" "consumer_inv c" "c_book c = bo_book b" "book_inv (bo_book b)"
    "lookup (orders (bo_book b)) = Map.empty" by (fact t)+
  obtain a where "MulticastReceiver inet_pton stack interface addr k4 = Some (Inr (poller, a), k1)"
    using m l b by (auto split: prod.splits sum.splits bind_splits)
  then show "mr_curr_frame_idx poller = 0" "mr_total_packets poller = 0"
    by (auto simp: MulticastReceiver_def Let_def split: prod.splits if_splits option.splits)
qed

section \<open>From the file to the book, and back from the log\<close>

text \<open>
  C2: Mock mode from end to end. After the start-up, the replay of a file of ITCH messages, the poller with its parser, the thread of the book and
  the statistics run in any interleaving, with any delay of the stores to the ring. At every moment the parser was given the first messages of the
  file, each once and in order, and all of them when the ring can do no more. The orders that the book has processed
  and those in the queue are orders of these messages, in their order; they are all of them as long as the parser never left the queue full, which cannot happen in
  the first 4094 messages. The book is what the processed orders make of an empty book, and the program has ended with an
  exception only if these orders raise it. The printed packet counts add up to the frames given back.
\<close>

theorem mock_mode_end_to_end:
  assumes start: "run_mock_mode (2 ^ page) slots k = Some (Inr (p, b, poller), k1)" "page < 64" "length slots = 4096"
    "consume_init hw pinned garbage handoff (ip_queue p) (bo_book b) k1 = (Inr (l1d_te, branch_te, c), k2)"
    "map length garbage = replicate NUM_BUFFERS TELEMETRY_BUFFER_SIZE" "length handoff = 2"
    and feed: "list_all feed_ok fs" "64 * (length fs + 1) \<le> FILE_SIZE" "2 \<le> fuel"
    and run: "(mock_step fuel tsc)\<^sup>*\<^sup>* (start_ring (feed_file fs) (start_pipeline p c), []) (m, out)"
  shows "\<exists>n finished. n \<le> length fs \<and> rm_handled m = map feed_bytes (take n fs) \<and>
    ((\<forall>m'. \<not> ring_step (feed_handler fuel tsc) m m') \<longrightarrow> n = length fs) \<and>
    (let h = rm_handler m; orders = concat (map feed_orders (take n fs)); queued = finished @ q_list (ip_queue (pl_parser h)) in
     subseq queued orders \<and> (\<not> pl_full h \<longrightarrow> queued = orders) \<and> (n < 4095 \<longrightarrow> \<not> pl_full h) \<and>
     consume_orders finished (bo_book b) = Some (case pl_error h of None \<Rightarrow> Inr () | Some e \<Rightarrow> Inl e, c_book (pl_consumer h))) \<and>
    sum_list out + rm_total_packets m = of_nat (rm_consumed m)"
proof -
  note ok = mock_mode_start [OF start]
  note one = feed_singletons [OF feed(1)]
  obtain n where n: "n \<le> length fs" "rm_handled m = map feed_bytes (take n fs)" "sum_list out + rm_total_packets m = of_nat (rm_consumed m)"
    "(\<forall>m'. \<not> ring_step (feed_handler fuel tsc) m m') \<longrightarrow> n = length fs"
    "pipe_good fuel tsc 4095 (c_book c) (map (map feed_bytes) (map (\<lambda>f. [f]) fs)) (map feed_bytes fs) n (rm_handler m)"
    by (rule feed_run [OF feed ok(1-3) _ run]) simp
  show ?thesis
    by (rule pipe_book [OF one(3) [OF feed(3)] n(5) [unfolded ok(4)], unfolded one(2)])
      (use n(1-4) in \<open>auto simp: Let_def\<close>)
qed

text \<open>
  C3: When the program stops at any moment, by an exception of the book or by a crash between two messages, recovery from
  the log that it leaves ends with the book, and with the exception, that the logged orders give. If the parser never left the queue full, this is
  the book of the stopped program after the orders that were still in the queue, or, when an exception had ended it, its very book and that exception.
\<close>

theorem crash_recovery_rebuilds_book:
  assumes start: "run_mock_mode (2 ^ page) slots k = Some (Inr (p, b, poller), k1)" "page < 64" "length slots = 4096"
    "consume_init hw pinned garbage handoff (ip_queue p) (bo_book b) k1 = (Inr (l1d_te, branch_te, c), k2)"
    "map length garbage = replicate NUM_BUFFERS TELEMETRY_BUFFER_SIZE" "length handoff = 2"
    and feed: "list_all feed_ok fs" "64 * (length fs + 1) \<le> FILE_SIZE" "2 \<le> fuel"
    and run: "(mock_step fuel tsc)\<^sup>*\<^sup>* (start_ring (feed_file fs) (start_pipeline p c), []) (m, out)"
    and crash: "recovery_granted (wal (ip_logger (pl_parser (rm_handler m)))) k3"
  shows "\<exists>n res book report k4. rm_handled m = map feed_bytes (take n fs) \<and>
    run_recovery (wal (ip_logger (pl_parser (rm_handler m)))) (bo_book b) new_report k3 = Some (res, book, report, k4) \<and>
    consume_orders (concat (map feed_orders (take n fs))) (bo_book b) = Some (res, book) \<and>
    (\<not> pl_full (rm_handler m) \<longrightarrow>
      (case pl_error (rm_handler m) of
         None \<Rightarrow> consume_orders (q_list (ip_queue (pl_parser (rm_handler m)))) (c_book (pl_consumer (rm_handler m))) = Some (res, book)
       | Some e \<Rightarrow> res = Inl e \<and> book = c_book (pl_consumer (rm_handler m))))"
proof -
  note ok = mock_mode_start [OF start]
  note one = feed_singletons [OF feed(1)]
  obtain n where n: "rm_handled m = map feed_bytes (take n fs)"
    "pipe_good fuel tsc 4095 (c_book c) (map (map feed_bytes) (map (\<lambda>f. [f]) fs)) (map feed_bytes fs) n (rm_handler m)"
    by (rule feed_run [OF feed ok(1-3) _ run]) simp
  show ?thesis
    by (rule pipe_recovery [OF one(3) [OF feed(3)] n(2) [unfolded ok(4)] ok(5) crash, unfolded one(2)]) (use n(1) in blast)
qed


text \<open>A file with an order and a system event, replayed to its end.\<close>

definition sample_feed :: "feed_message list" where
  "sample_feed = [Order_message (CancelOrder sample_cancel), Other_message (0x53 # replicate 11 0)]"

lemma sample_feed_ok: "list_all feed_ok sample_feed" "64 * (length sample_feed + 1) \<le> FILE_SIZE"
  by (simp_all add: sample_feed_def sample_cancel_def msg_ok_def message_length_def message_length_table_def FILE_SIZE_def)

abbreviation sample_garbage :: "sample list list" where
  "sample_garbage \<equiv> replicate NUM_BUFFERS (replicate TELEMETRY_BUFFER_SIZE (0, 0, 0))"

lemma pipe_wal:
  assumes "pipe_good fuel tsc cap book groups ms n h"
  shows "wal (ip_logger (pl_parser h)) \<noteq> []"
proof -
  obtain fs where "log_rel (ip_logger (pl_parser h)) fs []" using assms by (auto simp: pipe_good_def itch_logged_def parser_rel_def)
  then show ?thesis by (auto dest!: log_rel_length simp: FILE_SIZE_def)
qed

lemma sample_replay:
  obtains p b poller k1 te c m where "run_mock_mode (2 ^ 12) (replicate 4096 (CancelOrder sample_cancel)) roomy = Some (Inr (p, b, poller), k1)"
    "consume_init False True sample_garbage [0, 0] (ip_queue p) (bo_book b) k1 = (Inr (te, te, c), k1)"
    "(mock_step 2 (\<lambda>t. t))\<^sup>*\<^sup>* (start_ring (feed_file sample_feed) (start_pipeline p c), []) (m, [])"
    "\<forall>m'. \<not> ring_step (feed_handler 2 (\<lambda>t. t)) m m'"
    "pipe_good 2 (\<lambda>t. t) 4095 (bo_book b) (map (map feed_bytes) (map (\<lambda>f. [f]) sample_feed)) (map feed_bytes sample_feed) 2 (rm_handler m)" "pl_error (rm_handler m) = None"
proof -
  obtain p b poller k1 where s: "run_mock_mode (2 ^ 12) (replicate 4096 (CancelOrder sample_cancel)) roomy = Some (Inr (p, b, poller), k1)"
    by (rule roomy_start)
  obtain te c where i: "consume_init False True sample_garbage [0, 0] (ip_queue p) (bo_book b) k1 = (Inr (te, te, c), k1)"
    by (simp add: consume_init_def TelemetryEngine_def)
  note ok = mock_mode_start [OF s _ _ i]
  have c: "parser_rel p [] [] [] 4095" "ip_seq p = 0" "consumer_inv c" "c_book c = bo_book b" by (rule ok; simp)+
  note ms = feed_file_messages [OF sample_feed_ok(1)]
  note one = feed_singletons [OF sample_feed_ok(1)]
  have "64 * (length (concat (map (\<lambda>f. [f]) sample_feed)) + 1) \<le> FILE_SIZE" using sample_feed_ok(2) by (simp add: concat_map_singleton)
  note g = feed_start [OF one(3) [OF order_refl] this c(1-3), of "\<lambda>t. t", unfolded one(1)]
  obtain m where m: "(ring_step (feed_handler 2 (\<lambda>t. t)))\<^sup>*\<^sup>* (start_ring (feed_file sample_feed) (start_pipeline p c)) m"
    "\<forall>m'. \<not> ring_step (feed_handler 2 (\<lambda>t. t)) m m'"
    "pipe_good 2 (\<lambda>t. t) 4095 (c_book c) (map (map feed_bytes) (map (\<lambda>f. [f]) sample_feed)) (map feed_bytes sample_feed) (length (map feed_bytes sample_feed)) (rm_handler m)"
    using threads.completes [of "feed_file sample_feed", unfolded ms, OF feed_messages(3) [OF sample_feed_ok(1)] g] by auto
  have "pl_error (rm_handler (start_ring (feed_file sample_feed) (start_pipeline p c))) = None"
    by (simp add: start_ring_def start_pipeline_def)
  note r = ring_steps_mock [OF m(1) this, of "[]"]
  have "length (map feed_bytes sample_feed) = 2" by (simp add: sample_feed_def)
  then show ?thesis using that [OF s i conjunct1 [OF r] m(2)] m(3) r c(4) by simp
qed

lemmas sample_sizes = length_replicate [of 4096 "CancelOrder sample_cancel"]

theorem mock_mode_end_to_end_witness:
  "\<exists>p b poller k1 te c m finished.
     run_mock_mode (2 ^ 12) (replicate 4096 (CancelOrder sample_cancel)) roomy = Some (Inr (p, b, poller), k1) \<and>
     consume_init False True sample_garbage [0, 0] (ip_queue p) (bo_book b) k1 = (Inr (te, te, c), k1) \<and>
     (mock_step 2 (\<lambda>t. t))\<^sup>*\<^sup>* (start_ring (feed_file sample_feed) (start_pipeline p c), []) (m, []) \<and>
     rm_handled m = map feed_bytes sample_feed \<and>
     finished @ q_list (ip_queue (pl_parser (rm_handler m))) = [normalized (CancelOrder sample_cancel)] \<and>
     consume_orders finished (bo_book b) = Some (Inr (), c_book (pl_consumer (rm_handler m)))"
proof -
  obtain p b poller k1 te c m where s: "run_mock_mode (2 ^ 12) (replicate 4096 (CancelOrder sample_cancel)) roomy = Some (Inr (p, b, poller), k1)"
    "consume_init False True sample_garbage [0, 0] (ip_queue p) (bo_book b) k1 = (Inr (te, te, c), k1)"
    "(mock_step 2 (\<lambda>t. t))\<^sup>*\<^sup>* (start_ring (feed_file sample_feed) (start_pipeline p c), []) (m, [])"
    "\<forall>m'. \<not> ring_step (feed_handler 2 (\<lambda>t. t)) m m'" "pl_error (rm_handler m) = None"
    by (rule sample_replay)
  have l: "12 < (64 :: nat)" "map length sample_garbage = replicate NUM_BUFFERS TELEMETRY_BUFFER_SIZE" "length [0, 0 :: u64] = 2" by simp_all
  from mock_mode_end_to_end [OF s(1) l(1) sample_sizes s(2) l(2,3) sample_feed_ok order_refl s(3)] s(4,5)
  obtain finished where f: "rm_handled m = map feed_bytes sample_feed"
    "finished @ q_list (ip_queue (pl_parser (rm_handler m))) = concat (map feed_orders sample_feed)"
    "consume_orders finished (bo_book b) = Some (Inr (), c_book (pl_consumer (rm_handler m)))"
    by (auto simp: Let_def sample_feed_def)
  then show ?thesis using s(1-3) by (intro exI conjI) (assumption | simp add: sample_feed_def)+
qed

theorem crash_recovery_rebuilds_book_witness:
  "\<exists>p b poller k1 te c m res book report k4.
     run_mock_mode (2 ^ 12) (replicate 4096 (CancelOrder sample_cancel)) roomy = Some (Inr (p, b, poller), k1) \<and>
     consume_init False True sample_garbage [0, 0] (ip_queue p) (bo_book b) k1 = (Inr (te, te, c), k1) \<and>
     (mock_step 2 (\<lambda>t. t))\<^sup>*\<^sup>* (start_ring (feed_file sample_feed) (start_pipeline p c), []) (m, []) \<and>
     run_recovery (wal (ip_logger (pl_parser (rm_handler m)))) (bo_book b) new_report granting = Some (res, book, report, k4) \<and>
     consume_orders (q_list (ip_queue (pl_parser (rm_handler m)))) (c_book (pl_consumer (rm_handler m))) = Some (res, book)"
proof -
  obtain p b poller k1 te c m where s: "run_mock_mode (2 ^ 12) (replicate 4096 (CancelOrder sample_cancel)) roomy = Some (Inr (p, b, poller), k1)"
    "consume_init False True sample_garbage [0, 0] (ip_queue p) (bo_book b) k1 = (Inr (te, te, c), k1)"
    "(mock_step 2 (\<lambda>t. t))\<^sup>*\<^sup>* (start_ring (feed_file sample_feed) (start_pipeline p c), []) (m, [])"
    "pipe_good 2 (\<lambda>t. t) 4095 (bo_book b) (map (map feed_bytes) (map (\<lambda>f. [f]) sample_feed)) (map feed_bytes sample_feed) 2 (rm_handler m)" "pl_error (rm_handler m) = None"
    by (rule sample_replay)
  have l: "12 < (64 :: nat)" "map length sample_garbage = replicate NUM_BUFFERS TELEMETRY_BUFFER_SIZE" "length [0, 0 :: u64] = 2" by simp_all
  note g = granting_recovery [OF pipe_wal [OF s(4)]]
  have "\<not> pl_full (rm_handler m)" using s(4) by (simp add: pipe_good_def sample_feed_def)
  with crash_recovery_rebuilds_book [OF s(1) l(1) sample_sizes s(2) l(2,3) sample_feed_ok order_refl s(3) g] s(5)
  obtain res book report k4 where
    "run_recovery (wal (ip_logger (pl_parser (rm_handler m)))) (bo_book b) new_report granting = Some (res, book, report, k4)"
    "consume_orders (q_list (ip_queue (pl_parser (rm_handler m)))) (c_book (pl_consumer (rm_handler m))) = Some (res, book)" by auto
  then show ?thesis using s(1-3) by blast
qed

text \<open>The kernel puts a datagram with one order into the ring, and the poller takes it.\<close>

lemma sample_packets_ok:
  "list_all2 feed_packet [sample_packet] [[Order_message (CancelOrder sample_cancel)]]"
  "list_all (\<lambda>fs. list_all feed_ok fs \<and> length fs < 2) [[Order_message (CancelOrder sample_cancel)]]"
  "64 * (length (concat [[Order_message (CancelOrder sample_cancel)]]) + 1) \<le> FILE_SIZE"
  using sample_packet_ok(1) sample_feed_ok by (simp_all add: sample_feed_def)

lemma sample_network:
  obtains p b poller k1 te c w where
    "main False sample_pton (replicate 6 0) ''eth0'' ''233.54.12.1'' (2 ^ 12) (replicate 4096 (CancelOrder sample_cancel)) roomy = Some (Inr (p, b, poller), k1)"
    "consume_init False True sample_garbage [0, 0] (ip_queue p) (bo_book b) k1 = (Inr (te, te, c), k1)"
    "(network_step 2 (\<lambda>t. t) (map ipv4_bytes [sample_packet]))\<^sup>*\<^sup>* (start_net poller (start_pipeline p c)) w" "nm_taken w = 1"
    "pipe_good 2 (\<lambda>t. t) 4095 (bo_book b) (map (map feed_bytes) [[Order_message (CancelOrder sample_cancel)]])
      (map (concat \<circ> map feed_bytes) [[Order_message (CancelOrder sample_cancel)]]) 1 (nm_handler w)"
proof -
  obtain p b poller k1 where s: "main False sample_pton (replicate 6 0) ''eth0'' ''233.54.12.1'' (2 ^ 12) (replicate 4096 (CancelOrder sample_cancel)) roomy =
      Some (Inr (p, b, poller), k1)" by (rule roomy_main)
  obtain te c where i: "consume_init False True sample_garbage [0, 0] (ip_queue p) (bo_book b) k1 = (Inr (te, te, c), k1)"
    by (simp add: consume_init_def TelemetryEngine_def)
  note ok = network_mode_start [OF s _ _ i]
  have c: "parser_rel p [] [] [] 4095" "ip_seq p = 0" "consumer_inv c" "c_book c = bo_book b" "mr_curr_frame_idx poller = 0" "mr_total_packets poller = 0"
    by (rule ok; simp)+
  let ?w = "start_net poller (start_pipeline p c)"
  note run = network_run [OF sample_packets_ok c(1-3) _ c(5,6), of "\<lambda>t. t", unfolded c(4), OF zero_less_numeral]
  obtain w where w: "network_step 2 (\<lambda>t. t) (map ipv4_bytes [sample_packet]) ?w w" "nm_filled w = 1" "pl_error (nm_handler w) = None"
    using sample_fill_step [of "\<lambda>t. t" poller p c] by (force simp: start_net_def start_pipeline_def)
  have fill: "(network_step 2 (\<lambda>t. t) (map ipv4_bytes [sample_packet]))\<^sup>*\<^sup>* ?w w" using w(1) by blast
  obtain w' where "(network_step 2 (\<lambda>t. t) (map ipv4_bytes [sample_packet]))\<^sup>*\<^sup>* w w'" "nm_taken w' = 1"
    using network_catches_up [OF sample_packets_ok(1) run(1) [OF fill] w(3) run(2) [OF fill]] w(2) by auto
  then have r: "(network_step 2 (\<lambda>t. t) (map ipv4_bytes [sample_packet]))\<^sup>*\<^sup>* ?w w'" using fill by (meson rtranclp_trans)
  show ?thesis by (rule that [OF s i r \<open>nm_taken w' = 1\<close>]) (use run(2) [OF r] \<open>nm_taken w' = 1\<close> in simp)
qed


end
